(* ===== verification/Aurum_Prelude.thy ===== *)
theory Aurum_Prelude
  imports Main "HOL-Library.Word" "HOL-Library.Multiset"
begin

text \<open>
  Shared vocabulary of the development: the types of the wire (bytes, UUIDs), the faults a C++
  operation can end with, checked reads of a byte buffer, the little-endian integer codecs that
  \<^verbatim>\<open>boost::endian::native_to_little_inplace\<close> and a byte-wise copy amount to, and the generic
  lemmas on lists and sums used by every component.  The codecs share one interface, the locale
  \<open>wire_codec\<close>, interpreted below for the 16, 32, 64 and 128 bit integers.
\<close>

named_theorems wire_len \<comment> \<open>lengths of encoded fields\<close>
named_theorems world_simps \<comment> \<open>effect of the session and state operations on each field\<close>

section \<open>Types of the wire and faults\<close>

type_synonym byte = "8 word"

text \<open>
  A \<^verbatim>\<open>boost::uuids::uuid\<close> is an array of 16 bytes that the code copies and compares and never
  computes with.  It is the 128 bit word whose \<open>i\<close>-th byte, counted from the least significant
  one, is \<^verbatim>\<open>data[i]\<close>.
\<close>

type_synonym uuid = "128 word"

definition nil_uuid :: uuid where
  "nil_uuid = 0"

text \<open>
  The ways an operation of the code can fail to return: a read outside a buffer (undefined
  behaviour in C++), and the two \<^verbatim>\<open>std::overflow_error\<close> exceptions of \<^verbatim>\<open>base_builder::get_data\<close>.
  A result is \<open>fault + 'a\<close>, the fault on the left.
\<close>

datatype fault = Out_of_bounds | Too_many_requests | Frame_too_large

definition chain :: "'e + 'a \<Rightarrow> ('a \<Rightarrow> 'e + 'b) \<Rightarrow> 'e + 'b" where
  "chain r f = (case r of Inl e \<Rightarrow> Inl e | Inr x \<Rightarrow> f x)"

lemma chain_simps [simp]:
  "chain (Inl e) f = Inl e"
  "chain (Inr x) f = f x"
  by (simp_all add: chain_def)

lemma chain_assoc: "chain (chain x f) g = chain x (\<lambda>y. chain (f y) g)"
  by (simp add: chain_def split: sum.split)

lemma chain_eq_Inr:
  "chain r f = Inr y \<longleftrightarrow> (\<exists>x. r = Inr x \<and> f x = Inr y)"
  by (cases r) simp_all

lemma chain_eq_Inl:
  "chain r f = Inl e \<longleftrightarrow> r = Inl e \<or> (\<exists>x. r = Inr x \<and> f x = Inl e)"
  by (cases r) simp_all

text \<open>
  \<open>memcpy_at buf off n\<close> is \<^verbatim>\<open>std::memcpy(&x, buf.data() + off, n)\<close>: the \<open>n\<close> bytes at \<open>off\<close>, or a
  fault when they are not all inside the buffer.
\<close>

definition memcpy_at :: "byte list \<Rightarrow> nat \<Rightarrow> nat \<Rightarrow> fault + byte list" where
  "memcpy_at buf off n =
     (if off + n \<le> length buf then Inr (take n (drop off buf)) else Inl Out_of_bounds)"

lemma memcpy_at_in_bounds [simp]:
  "off + n \<le> length buf \<Longrightarrow> memcpy_at buf off n = Inr (take n (drop off buf))"
  by (simp add: memcpy_at_def)

lemma memcpy_at_append_skip [simp]:
  "memcpy_at (xs @ ys) (length xs + off) n = memcpy_at ys off n"
  by (simp add: memcpy_at_def)

section \<open>Little-endian integers\<close>

fun le_encode :: "nat \<Rightarrow> nat \<Rightarrow> byte list" where
  "le_encode 0 x = []"
| "le_encode (Suc n) x = of_nat x # le_encode n (x div 256)"

fun le_decode :: "byte list \<Rightarrow> nat" where
  "le_decode [] = 0"
| "le_decode (b # bs) = unat b + 256 * le_decode bs"

lemma length_le_encode [simp, wire_len]: "length (le_encode n x) = n"
  by (induction n x rule: le_encode.induct) simp_all

lemma unat_byte_of_nat: "unat (of_nat x :: byte) = x mod 256"
  by (simp add: unat_of_nat)

lemma unat_byte_less [simp]: "unat (b :: byte) < 256"
  using unsigned_less [of b] by simp

lemma le_decode_encode: "le_decode (le_encode n x) = x mod 256 ^ n"
proof (induction n x rule: le_encode.induct)
  case (1 x)
  then show ?case by simp
next
  case (2 n x)
  have "le_decode (le_encode (Suc n) x) = x mod 256 + 256 * (x div 256 mod 256 ^ n)"
    by (simp add: 2 unat_byte_of_nat)
  also have "\<dots> = x mod (256 * 256 ^ n)"
    by (simp add: mod_mult2_eq)
  finally show ?case by simp
qed

lemma le_encode_decode: "le_encode (length bs) (le_decode bs) = bs"
proof (induction bs)
  case Nil
  then show ?case by simp
next
  case (Cons b bs)
  have "(unat b + 256 * le_decode bs) div 256 = le_decode bs"
    by simp
  moreover have "(of_nat (unat b + 256 * le_decode bs) :: byte) = b"
    by (simp add: word_unat_eq_iff unat_byte_of_nat del: of_nat_add)
  ultimately show ?case by (simp add: Cons.IH)
qed

lemma le_decode_less: "le_decode bs < 256 ^ length bs"
proof (induction bs)
  case Nil
  then show ?case by simp
next
  case (Cons b bs)
  have "unat b + 256 * le_decode bs < 256 + 256 * le_decode bs"
    by simp
  also have "\<dots> \<le> 256 * 256 ^ length bs"
    using Cons.IH by (simp add: Suc_leI flip: mult_Suc_right)
  finally show ?case by simp
qed

definition put16 :: "16 word \<Rightarrow> byte list" where
  "put16 w = le_encode 2 (unat w)"

definition get16 :: "byte list \<Rightarrow> 16 word" where
  "get16 bs = of_nat (le_decode bs)"

definition put32 :: "32 word \<Rightarrow> byte list" where
  "put32 w = le_encode 4 (unat w)"

definition get32 :: "byte list \<Rightarrow> 32 word" where
  "get32 bs = of_nat (le_decode bs)"

definition put64 :: "64 word \<Rightarrow> byte list" where
  "put64 w = le_encode 8 (unat w)"

definition get64 :: "byte list \<Rightarrow> 64 word" where
  "get64 bs = of_nat (le_decode bs)"

definition put_uuid :: "uuid \<Rightarrow> byte list" where
  "put_uuid u = le_encode 16 (unat u)"

definition get_uuid :: "byte list \<Rightarrow> uuid" where
  "get_uuid bs = of_nat (le_decode bs)"

lemma le_word_roundtrip:
  fixes w :: "'a::len word"
  assumes "LENGTH('a) = 8 * n"
  shows "of_nat (le_decode (le_encode n (unat w))) = w"
proof -
  have "unat w < 256 ^ n"
    using unsigned_less [of w] assms by (simp add: power_mult)
  then show ?thesis
    by (simp add: le_decode_encode)
qed

lemma le_bytes_roundtrip:
  assumes "LENGTH('a::len) = 8 * n" and "length bs = n"
  shows "le_encode n (unat (of_nat (le_decode bs) :: 'a word)) = bs"
proof -
  have "le_decode bs < 2 ^ LENGTH('a)"
    using le_decode_less [of bs] assms by (simp add: power_mult)
  then have "unat (of_nat (le_decode bs) :: 'a word) = le_decode bs"
    by (simp add: unat_of_nat)
  then show ?thesis
    using le_encode_decode [of bs] assms(2) by simp
qed

section \<open>The interface of a fixed-width codec\<close>

text \<open>
  What builder and parser rely on for an integer field: its width, and that writing and reading
  are inverse to each other in both directions.
\<close>

locale wire_codec =
  fixes put :: "'a \<Rightarrow> byte list"
    and get :: "byte list \<Rightarrow> 'a"
    and width :: nat
  assumes length_put: "length (put x) = width"
    and get_put: "get (put x) = x"
    and put_get: "length bs = width \<Longrightarrow> put (get bs) = bs"
begin

lemma take_put: "take width (put x @ rest) = put x"
  by (simp add: length_put)

lemma drop_put: "drop width (put x @ rest) = rest"
  by (simp add: length_put)

lemma get_take_put: "get (take width (put x @ rest)) = x"
  by (simp only: take_put get_put)

lemma put_inject: "put x = put y \<longleftrightarrow> x = y"
  by (metis get_put)

lemma memcpy_put: "memcpy_at (xs @ put x @ ys) (length xs) width = Inr (put x)"
  by (simp add: memcpy_at_def length_put)

lemma length_concat_put: "length (concat (map put xs)) = width * length xs"
  by (induction xs) (simp_all add: length_put)

lemma split_get: "width \<le> length bs \<Longrightarrow> put (get (take width bs)) @ drop width bs = bs"
  by (simp add: put_get)

end

interpretation u16: wire_codec put16 get16 2
  by unfold_locales
    (simp_all add: put16_def get16_def le_word_roundtrip le_bytes_roundtrip [where 'a = 16 and n = 2, simplified])

interpretation u32: wire_codec put32 get32 4
  by unfold_locales
    (simp_all add: put32_def get32_def le_word_roundtrip le_bytes_roundtrip [where 'a = 32 and n = 4, simplified])

interpretation u64: wire_codec put64 get64 8
  by unfold_locales
    (simp_all add: put64_def get64_def le_word_roundtrip le_bytes_roundtrip [where 'a = 64 and n = 8, simplified])

interpretation uuid: wire_codec put_uuid get_uuid 16
  by unfold_locales
    (simp_all add: put_uuid_def get_uuid_def le_word_roundtrip le_bytes_roundtrip [where 'a = 128 and n = 16, simplified])

lemmas put_lengths [simp, wire_len] =
  u16.length_put u32.length_put u64.length_put uuid.length_put

lemmas get_puts [simp] =
  u16.get_put u32.get_put u64.get_put uuid.get_put

section \<open>Strings\<close>

text \<open>
  A \<^verbatim>\<open>std::string\<close> is a sequence of \<^verbatim>\<open>char\<close>, written to the wire byte by byte.
\<close>

definition string_bytes :: "string \<Rightarrow> byte list" where
  "string_bytes s = map (\<lambda>c. of_nat (of_char c)) s"

definition bytes_string :: "byte list \<Rightarrow> string" where
  "bytes_string bs = map (\<lambda>b. char_of (unat b)) bs"

lemma length_string_bytes [simp, wire_len]: "length (string_bytes s) = length s"
  by (simp add: string_bytes_def)

lemma length_bytes_string [simp]: "length (bytes_string bs) = length bs"
  by (simp add: bytes_string_def)

lemma bytes_string_bytes [simp]: "bytes_string (string_bytes s) = s"
  by (simp add: bytes_string_def string_bytes_def unat_byte_of_nat comp_def)

lemma string_bytes_eq_Nil [simp]: "string_bytes s = [] \<longleftrightarrow> s = []"
  by (simp add: string_bytes_def)

section \<open>Lists\<close>

lemma length_concat_map_append:
  "length (concat (map f xs)) = sum_list (map (\<lambda>x. length (f x)) xs)"
  by (simp add: length_concat comp_def)

lemma sum_list_le_bound:
  "(\<And>x. x \<in> set xs \<Longrightarrow> f x \<le> (m :: nat)) \<Longrightarrow> sum_list (map f xs) \<le> m * length xs"
  by (induction xs) (auto simp: add_mono)

lemma filter_eq_at_most_one:
  assumes "distinct (map f xs)" and "x \<in> set xs"
  shows "filter (\<lambda>y. f y = f x) xs = [x]"
  using assms
proof (induction xs)
  case Nil
  then show ?case by simp
next
  case (Cons y ys)
  then show ?case
    by (cases "y = x") (force simp: filter_empty_conv image_iff)+
qed

lemma find_Some_unique:
  assumes "distinct (map f xs)"
  shows "List.find (\<lambda>y. f y = k) xs = Some x \<longleftrightarrow> x \<in> set xs \<and> f x = k"
  using assms by (induction xs) (auto simp: image_iff)

lemma remove1_filter_neq: "distinct xs \<Longrightarrow> remove1 x xs = filter (\<lambda>y. y \<noteq> x) xs"
  by (simp add: distinct_remove1_removeAll removeAll_filter_not_eq eq_commute)

end
