(* ===== verification/Frame_Builder.thy ===== *)
theory Frame_Builder
  imports Aurum_Prelude
begin

text \<open>
  The wire protocol and its writers: the enumerations of \<^verbatim>\<open>include/aurum/protocol/\<close> and the
  builders of \<^verbatim>\<open>src/aurum/protocol/frame_builder.cpp\<close>.  A builder queues payloads; \<open>get_data\<close>
  serialises them into one frame:

  \<^verbatim>\<open>[u32 length]? u16 count, u16 length * count, payload bytes, u16 crc\<close>

  The checksum is \<^verbatim>\<open>boost::crc_ccitt_type\<close>, a parameter \<open>crc\<close> of \<open>get_data\<close>.  The mutex of the
  builder protects it from concurrent callers and has no counterpart here; \<^verbatim>\<open>reserve\<close> only
  allocates.
\<close>

section \<open>Enumerations of the protocol\<close>

datatype op_code = op_non_implemented | ping | identify | discovery | join | leave | whoami

primrec op_code_value :: "op_code \<Rightarrow> byte" where
  "op_code_value op_non_implemented = 0"
| "op_code_value ping = 1"
| "op_code_value identify = 2"
| "op_code_value discovery = 3"
| "op_code_value join = 4"
| "op_code_value leave = 5"
| "op_code_value whoami = 6"

text \<open>
  The enumerations have \<^verbatim>\<open>std::uint8_t\<close> as their underlying type, and the parser casts any byte of
  the network to \<^verbatim>\<open>message_type\<close>: a message type is a byte, with two named values.
\<close>

type_synonym message_type = byte

definition request :: message_type where
  "request = 0"

definition response :: message_type where
  "response = 1"

datatype exit_code = non_implemented | success

primrec exit_code_value :: "exit_code \<Rightarrow> byte" where
  "exit_code_value non_implemented = 0"
| "exit_code_value success = 200"

datatype session_type = tcp | websocket

primrec session_type_value :: "session_type \<Rightarrow> byte" where
  "session_type_value tcp = 0"
| "session_type_value websocket = 1"

lemma request_not_response [simp]: "request \<noteq> response" "response \<noteq> request"
  by (simp_all add: request_def response_def)

section \<open>The builder\<close>

record base_builder =
  buffers :: "byte list list"
  total_payload_size :: "64 word"

definition as_request :: base_builder where
  "as_request = \<lparr>buffers = [], total_payload_size = 0\<rparr>"

definition as_response :: base_builder where
  "as_response = \<lparr>buffers = [], total_payload_size = 0\<rparr>"

definition flush :: "base_builder \<Rightarrow> base_builder" where
  "flush b = b\<lparr>buffers := [], total_payload_size := 0\<rparr>"

text \<open>
  The last lines of every \<^verbatim>\<open>add_*\<close> function: move the payload to the end of \<^verbatim>\<open>buffers_\<close> and add
  the announced size to the atomic counter, which wraps at \<^verbatim>\<open>size_t\<close>.
\<close>

definition push_payload :: "byte list \<Rightarrow> nat \<Rightarrow> base_builder \<Rightarrow> base_builder" where
  "push_payload buf n b =
     b\<lparr>buffers := buffers b @ [buf], total_payload_size := total_payload_size b + of_nat n\<rparr>"

text \<open>
  Every payload starts with its opcode, its message type and the transaction id.
\<close>

definition message_header :: "byte \<Rightarrow> message_type \<Rightarrow> uuid \<Rightarrow> byte list" where
  "message_header op type tx = [op, type] @ put_uuid tx"

lemma length_message_header [simp, wire_len]: "length (message_header op type tx) = 18"
  by (simp add: message_header_def)

subsection \<open>Requests\<close>

definition request_add_ping :: "uuid \<Rightarrow> base_builder \<Rightarrow> base_builder" where
  "request_add_ping tx b =
     push_payload (message_header (op_code_value ping) request tx) 18 b"

definition request_add_identify ::
    "uuid \<Rightarrow> 16 word \<Rightarrow> uuid \<Rightarrow> 16 word \<Rightarrow> string \<Rightarrow> base_builder \<Rightarrow> base_builder" where
  "request_add_identify node_id connections_per_node tx port host b =
     (let expected_size = (if port \<noteq> 0 \<or> host \<noteq> [] then 36 + (2 + length host) else 36);
          buf = message_header (op_code_value identify) request tx
                @ put_uuid node_id
                @ put16 connections_per_node
                @ (if port \<noteq> 0 \<or> host \<noteq> []
                   then put16 port @ (if host \<noteq> [] then string_bytes host else [])
                   else [])
      in push_payload buf expected_size b)"

definition request_add_discovery :: "uuid \<Rightarrow> base_builder \<Rightarrow> base_builder" where
  "request_add_discovery tx b =
     push_payload (message_header (op_code_value discovery) request tx) 18 b"

definition request_add_join :: "uuid \<Rightarrow> uuid \<Rightarrow> base_builder \<Rightarrow> base_builder" where
  "request_add_join websocket_id tx b =
     push_payload (message_header (op_code_value join) request tx @ put_uuid websocket_id) 34 b"

definition request_add_leave :: "uuid \<Rightarrow> uuid \<Rightarrow> base_builder \<Rightarrow> base_builder" where
  "request_add_leave websocket_id tx b =
     push_payload (message_header (op_code_value leave) request tx @ put_uuid websocket_id) 34 b"

definition request_add_whoami :: "uuid \<Rightarrow> base_builder \<Rightarrow> base_builder" where
  "request_add_whoami tx b =
     push_payload (message_header (op_code_value whoami) request tx) 18 b"

subsection \<open>Responses\<close>

definition response_add_ping :: "uuid \<Rightarrow> byte \<Rightarrow> base_builder \<Rightarrow> base_builder" where
  "response_add_ping tx code b =
     push_payload (message_header (op_code_value ping) response tx @ [code]) 19 b"

definition response_add_identify :: "uuid \<Rightarrow> uuid \<Rightarrow> base_builder \<Rightarrow> base_builder" where
  "response_add_identify tx node_id b =
     push_payload (message_header (op_code_value identify) response tx @ put_uuid node_id) 34 b"

definition response_add_non_implemented :: "byte \<Rightarrow> uuid \<Rightarrow> base_builder \<Rightarrow> base_builder" where
  "response_add_non_implemented op tx b =
     push_payload (message_header op response tx @ [exit_code_value non_implemented]) 19 b"

text \<open>
  The discovery response writes the \<open>(port, host length)\<close> pairs of all nodes first and the host
  strings of all nodes after them.
\<close>

definition discovery_payload :: "(string \<times> 16 word) list \<Rightarrow> byte list" where
  "discovery_payload nodes =
     put32 (of_nat (length nodes))
     @ concat (map (\<lambda>(host, port). put16 port @ put16 (of_nat (length host))) nodes)
     @ concat (map (\<lambda>(host, port). string_bytes host) nodes)"

definition response_add_discovery ::
    "uuid \<Rightarrow> (string \<times> 16 word) list \<Rightarrow> base_builder \<Rightarrow> base_builder" where
  "response_add_discovery tx nodes b =
     (let expected_size = foldl (\<lambda>n (host, port). n + (2 + 2 + length host)) (18 + 4) nodes
      in push_payload (message_header (op_code_value discovery) response tx @ discovery_payload nodes)
           expected_size b)"

definition response_add_join :: "uuid \<Rightarrow> 64 word \<Rightarrow> base_builder \<Rightarrow> base_builder" where
  "response_add_join tx cnt b =
     push_payload (message_header (op_code_value join) response tx @ put64 cnt) 26 b"

definition response_add_leave :: "uuid \<Rightarrow> 64 word \<Rightarrow> base_builder \<Rightarrow> base_builder" where
  "response_add_leave tx cnt b =
     push_payload (message_header (op_code_value leave) response tx @ put64 cnt) 26 b"

definition response_add_whoami ::
    "uuid \<Rightarrow> uuid \<Rightarrow> uuid \<Rightarrow> session_type \<Rightarrow> base_builder \<Rightarrow> base_builder" where
  "response_add_whoami tx session_id node_id type b =
     push_payload
       (message_header (op_code_value whoami) response tx
        @ put_uuid session_id @ put_uuid node_id @ [session_type_value type]) 51 b"

section \<open>Serialisation\<close>

text \<open>
  \<open>frame_body\<close> is the part of the frame the checksum covers.  A payload longer than a 16 bit word
  can say is written in full while its length field is the truncated \<^verbatim>\<open>static_cast\<close>.  The sizes
  added up are those of buffers that exist together in memory, so their sum is a \<^verbatim>\<open>size_t\<close>.
\<close>

definition frame_body :: "byte list list \<Rightarrow> byte list" where
  "frame_body bufs =
     put16 (of_nat (length bufs))
     @ concat (map (\<lambda>buf. put16 (of_nat (length buf))) bufs)
     @ concat bufs"

definition max_requests_per_frame :: nat where
  "max_requests_per_frame = 65535"

definition max_frame_payload_size :: nat where
  "max_frame_payload_size = 4294967295 - 131078"

definition get_data :: "(byte list \<Rightarrow> 16 word) \<Rightarrow> base_builder \<Rightarrow> bool \<Rightarrow> fault + byte list" where
  "get_data crc b with_header =
     (if buffers b = [] then Inr []
      else
        let total_requests = length (buffers b);
            payload_size = foldl (\<lambda>n buf. n + length buf) 0 (buffers b);
            header_size = (of_nat (2 + total_requests * 2 + payload_size + 2) :: 32 word);
            body = frame_body (buffers b)
        in if total_requests > max_requests_per_frame then Inl Too_many_requests
           else if payload_size > max_frame_payload_size then Inl Frame_too_large
           else Inr ((if with_header then put32 header_size else []) @ body @ put16 (crc body)))"

definition get_buffers :: "(byte list \<Rightarrow> 16 word) \<Rightarrow> base_builder \<Rightarrow> bool \<Rightarrow> fault + byte list" where
  "get_buffers crc b with_header = get_data crc b with_header"

section \<open>Facts about the builders\<close>

lemma foldl_add_sum_list: "foldl (\<lambda>n x. n + f x) a xs = a + sum_list (map f xs)" for a :: nat
  by (induction xs arbitrary: a) simp_all

definition payload_sum :: "byte list list \<Rightarrow> nat" where
  "payload_sum bufs = sum_list (map length bufs)"

lemma payload_sum_simps [simp]:
  "payload_sum [] = 0"
  "payload_sum (b # bs) = length b + payload_sum bs"
  "payload_sum (xs @ ys) = payload_sum xs + payload_sum ys"
  by (simp_all add: payload_sum_def)

lemma length_concat_payload_sum: "length (concat bufs) = payload_sum bufs"
  by (simp add: payload_sum_def length_concat)

lemma buffers_push_payload [simp]: "buffers (push_payload buf n b) = buffers b @ [buf]"
  by (simp add: push_payload_def)

lemma total_push_payload [simp]:
  "total_payload_size (push_payload buf n b) = total_payload_size b + of_nat n"
  by (simp add: push_payload_def)

lemma buffers_new [simp]: "buffers as_request = []" "buffers as_response = []"
  by (simp_all add: as_request_def as_response_def)

lemma buffers_flush [simp]: "buffers (flush b) = []" "total_payload_size (flush b) = 0"
  by (simp_all add: flush_def)

lemmas request_builder_defs =
  request_add_ping_def request_add_identify_def request_add_discovery_def
  request_add_join_def request_add_leave_def request_add_whoami_def

lemmas response_builder_defs =
  response_add_ping_def response_add_identify_def response_add_non_implemented_def
  response_add_discovery_def response_add_join_def response_add_leave_def response_add_whoami_def

lemma length_length_table [wire_len]:
  "length (concat (map (\<lambda>buf. put16 (f buf)) bufs)) = 2 * length bufs"
  by (induction bufs) simp_all

lemma length_frame_body [wire_len]:
  "length (frame_body bufs) = 2 + 2 * length bufs + payload_sum bufs"
  by (simp add: frame_body_def length_length_table) (simp add: length_concat_payload_sum)

lemma get_data_empty: "buffers b = [] \<Longrightarrow> get_data crc b h = Inr []"
  by (simp add: get_data_def)

definition frame_fits :: "byte list list \<Rightarrow> bool" where
  "frame_fits bufs \<longleftrightarrow> length bufs \<le> max_requests_per_frame \<and> payload_sum bufs \<le> max_frame_payload_size"

lemma get_data_fits:
  assumes "buffers b \<noteq> []" and "frame_fits (buffers b)"
  shows "get_data crc b h =
    Inr ((if h then put32 (of_nat (length (frame_body (buffers b)) + 2)) else [])
         @ frame_body (buffers b) @ put16 (crc (frame_body (buffers b))))"
  using assms
  by (simp add: get_data_def frame_fits_def foldl_add_sum_list payload_sum_def [symmetric]
      length_frame_body Let_def algebra_simps)

lemma get_data_cases:
  obtains (empty) "buffers b = []" "get_data crc b h = Inr []"
  | (many) "length (buffers b) > max_requests_per_frame" "get_data crc b h = Inl Too_many_requests"
  | (large) "length (buffers b) \<le> max_requests_per_frame"
      "payload_sum (buffers b) > max_frame_payload_size" "get_data crc b h = Inl Frame_too_large"
  | (fits) "buffers b \<noteq> []" "frame_fits (buffers b)"
proof (cases "buffers b = []")
  case True
  then show thesis by (intro empty) (simp_all add: get_data_def)
next
  case False
  note ne = this
  show thesis
  proof (cases "length (buffers b) > max_requests_per_frame")
    case True
    with ne show thesis by (intro many) (simp_all add: get_data_def Let_def)
  next
    case False
    show thesis
    proof (cases "payload_sum (buffers b) > max_frame_payload_size")
      case True
      with ne \<open>\<not> length (buffers b) > max_requests_per_frame\<close> show thesis
        by (intro large)
          (simp_all add: get_data_def Let_def foldl_add_sum_list payload_sum_def)
    next
      case False
      with ne \<open>\<not> length (buffers b) > max_requests_per_frame\<close> show thesis
        by (intro fits) (simp_all add: frame_fits_def)
    qed
  qed
qed

section \<open>Properties\<close>

lemma frame_fits_size:
  assumes "frame_fits bufs"
  shows "length (frame_body bufs) + 2 < 2 ^ 32"
  using assms
  by (simp add: frame_fits_def max_requests_per_frame_def max_frame_payload_size_def length_frame_body)

lemma get_data_header:
  assumes "buffers b \<noteq> []" and "get_data crc b True = Inr out"
  shows "unat (get32 (take 4 out)) + 4 = length out" and "get_data crc b False = Inr (drop 4 out)"
proof -
  have fits: "frame_fits (buffers b)"
    using assms by (cases rule: get_data_cases [of b crc True]) auto
  let ?n = "length (frame_body (buffers b)) + 2"
  have out: "out = put32 (of_nat ?n) @ frame_body (buffers b) @ put16 (crc (frame_body (buffers b)))"
    using assms get_data_fits [OF assms(1) fits] by simp
  have "unat (of_nat ?n :: 32 word) = ?n"
    using frame_fits_size [OF fits] by (simp only: unat_of_nat) simp
  moreover have "get32 (take 4 out) = of_nat ?n"
    unfolding out by (rule u32.get_take_put)
  moreover have "length out = ?n + 4"
    by (simp add: out)
  ultimately show "unat (get32 (take 4 out)) + 4 = length out"
    by (simp only:)
  show "get_data crc b False = Inr (drop 4 out)"
    using get_data_fits [OF assms(1) fits, of crc False] by (simp add: out)
qed

text \<open>
  The length header of a frame is exact: it never wraps at 32 bits and counts the bytes that follow
  it, which are the frame built without the header.
\<close>

lemma frame_header_exact:
  assumes "buffers b \<noteq> []" and "get_data crc b True = Inr out"
  shows "unat (get32 (take 4 out)) + 4 = length out \<and> get_data crc b False = Inr (drop 4 out)"
  using get_data_header [OF assms] by simp

text \<open>
  The announced size of a builder is the size of its payloads, as a \<^verbatim>\<open>size_t\<close>.
\<close>

definition sized :: "base_builder \<Rightarrow> bool" where
  "sized b \<longleftrightarrow> total_payload_size b = of_nat (payload_sum (buffers b))"

lemma sized_push: "sized b \<Longrightarrow> n = length buf \<Longrightarrow> sized (push_payload buf n b)"
  by (simp add: sized_def)

lemma discovery_expected_size:
  "foldl (\<lambda>n (host, port). n + (2 + 2 + length host)) (18 + 4) nodes = 18 + length (discovery_payload nodes)"
proof -
  have "foldl (\<lambda>n (host, port). n + (2 + 2 + length host)) k nodes =
    k + length (concat (map (\<lambda>(host, port). put16 port @ put16 (of_nat (length host))) nodes))
      + length (concat (map (\<lambda>(host, port). string_bytes host) nodes))" for k
    by (induction nodes arbitrary: k) auto
  then show ?thesis by (simp add: discovery_payload_def)
qed

text \<open>
  Every \<^verbatim>\<open>add_*\<close> function announces exactly the bytes it writes, on each of its branches: from a
  builder whose counter is the size of its payloads it makes one of the same kind, and so do new
  builders and \<^verbatim>\<open>flush\<close>.
\<close>

lemma builders_announce_their_size:
  assumes "sized b"
  shows "sized as_request \<and> sized as_response \<and> sized (flush b) \<and>
    sized (request_add_ping tx b) \<and> sized (request_add_identify node_id cpn tx port host b) \<and>
    sized (request_add_discovery tx b) \<and> sized (request_add_join i tx b) \<and>
    sized (request_add_leave i tx b) \<and> sized (request_add_whoami tx b) \<and>
    sized (response_add_ping tx code b) \<and> sized (response_add_identify tx node_id b) \<and>
    sized (response_add_non_implemented op tx b) \<and> sized (response_add_discovery tx nodes b) \<and>
    sized (response_add_join tx n b) \<and> sized (response_add_leave tx n b) \<and>
    sized (response_add_whoami tx i node_id type b)"
proof -
  have "sized as_request" "sized as_response" "sized (flush b)"
    by (simp_all add: sized_def as_request_def as_response_def)
  moreover have "sized (response_add_discovery tx nodes b)"
    unfolding response_add_discovery_def Let_def
    by (rule sized_push [OF assms]) (simp only: discovery_expected_size, simp)
  moreover have "sized (request_add_identify node_id cpn tx port host b)"
    using assms by (simp add: request_add_identify_def Let_def sized_push)
  ultimately show ?thesis
    using assms by (simp add: request_builder_defs response_builder_defs sized_push)
qed

text \<open>Bytes of a built frame at a concrete checksum function.\<close>

end
