(* ===== verification/Node_World.thy ===== *)
theory Node_World
  imports Frame_Builder
begin

text \<open>
  The data of one running node: session objects, configuration, the shared \<^verbatim>\<open>state\<close> object with its
  multi-index container of sessions, and the work handed to Boost.Asio.

  Sessions are shared objects that handlers mutate through \<^verbatim>\<open>std::shared_ptr\<close>; they live in a heap,
  and the container holds their addresses.  Boost is outside the repository: its checksum, its
  random UUIDs, the iteration order of its hashed container, the range lookups of its secondary
  indices and the outcome of name resolution and connection are the fields of \<open>env\<close>, a parameter of
  every definition that uses them.
\<close>

section \<open>Sessions and configuration\<close>

type_synonym addr = nat

text \<open>
  One record for the members of \<^verbatim>\<open>tcp_session\<close> and \<^verbatim>\<open>websocket_session\<close> (which differ in the socket
  they wrap and in \<^verbatim>\<open>header_length_\<close>, used by TCP only).  \<open>s_open\<close> is what \<^verbatim>\<open>is_open()\<close> of the
  wrapped socket or stream answers.
\<close>

record session =
  s_type :: session_type
  s_id :: uuid
  s_node_id :: uuid
  s_port :: "16 word"
  s_host :: string
  s_open :: bool
  s_header_length :: "32 word"
  s_queue :: "byte list list"

record configuration =
  threads :: nat
  tcp_port :: "16 word"
  connections_per_node :: "16 word"
  tcp_ready :: bool
  websocket_port :: "16 word"
  websocket_ready :: bool

definition default_configuration :: configuration where
  "default_configuration =
     \<lparr>threads = 1, tcp_port = 0, connections_per_node = 1, tcp_ready = False,
      websocket_port = 0, websocket_ready = False\<rparr>"

section \<open>Work handed to Boost.Asio\<close>

text \<open>
  A \<open>task\<close> is a closure the program has posted to an executor and that has not run yet.  The tasks
  of one session run on its strand, one at a time and in the order of posting; \<open>Run_connect\<close> is
  posted to the \<^verbatim>\<open>io_context\<close> itself.  An \<open>io_op\<close> is an asynchronous operation that has been started
  and whose completion handler has not run yet.
\<close>

datatype task =
    Run_read_header addr
  | Run_on_send addr "byte list"
  | Run_ws_accept addr
  | Run_connect string "16 word"

datatype io_op =
    Read_header addr
  | Read_body addr nat
  | Write addr "byte list"
  | Ws_accept addr
  | Ws_read addr
  | Ws_write addr "byte list"
  | Tcp_listen
  | Ws_listen

fun strand_of :: "task \<Rightarrow> addr option" where
  "strand_of (Run_read_header a) = Some a"
| "strand_of (Run_on_send a m) = Some a"
| "strand_of (Run_ws_accept a) = Some a"
| "strand_of (Run_connect h p) = None"

section \<open>The node\<close>

text \<open>
  \<open>w_config\<close>, \<open>w_node_id\<close>, \<open>w_sessions\<close> and \<open>w_round_robin\<close> are members of \<^verbatim>\<open>aurum::state\<close>.
  \<open>w_sessions\<close> lists the container in the iteration order of its primary index, and \<open>w_filed\<close> is the
  node id under which the secondary indices filed each element when it was inserted.  The entries a
  \<^verbatim>\<open>std::unordered_map::operator[]\<close> has not seen read as 0, so \<open>w_round_robin\<close> is total.
  \<open>w_heap\<close> and \<open>w_next\<close> are the session objects, \<open>w_rng\<close> and \<open>w_dials\<close> count the UUIDs drawn and the
  connections tried, \<open>w_posted\<close> and \<open>w_pending\<close> are the work of the previous section.
\<close>

record world =
  w_config :: configuration
  w_node_id :: uuid
  w_sessions :: "addr list"
  w_filed :: "addr \<Rightarrow> uuid"
  w_round_robin :: "uuid \<Rightarrow> 64 word"
  w_heap :: "addr \<Rightarrow> session"
  w_next :: addr
  w_rng :: nat
  w_dials :: nat
  w_posted :: "task list"
  w_pending :: "io_op list"

text \<open>The parameters: the code outside the repository.\<close>

record env =
  crc_ccitt :: "byte list \<Rightarrow> 16 word"
  random_uuid :: "nat \<Rightarrow> uuid"
  reindex :: "addr list \<Rightarrow> addr \<Rightarrow> addr list"
  node_range :: "addr list \<Rightarrow> (addr \<Rightarrow> uuid) \<Rightarrow> (addr \<Rightarrow> session) \<Rightarrow> uuid \<Rightarrow> addr list"
  node_type_range ::
    "addr list \<Rightarrow> (addr \<Rightarrow> uuid) \<Rightarrow> (addr \<Rightarrow> session) \<Rightarrow> uuid \<Rightarrow> session_type \<Rightarrow> addr list"
  resolve_ok :: "nat \<Rightarrow> string \<Rightarrow> 16 word \<Rightarrow> bool"
  dial_ok :: "nat \<Rightarrow> string \<Rightarrow> 16 word \<Rightarrow> bool"

text \<open>
  What the documentation of Boost.MultiIndex promises.  Iterating the container after an insertion
  meets the old elements and the new one, in some order.  A range lookup in a secondary index meets
  elements of the container only, and exactly those with the key, provided that no element's key
  changed behind the container's back (keys may only change through \<^verbatim>\<open>modify\<close>): every element still has
  the key it was filed under.
\<close>

definition container_law :: "env \<Rightarrow> bool" where
  "container_law e \<longleftrightarrow> (\<forall>xs a. mset (reindex e xs a) = mset (a # xs))"

definition keys_fresh :: "world \<Rightarrow> bool" where
  "keys_fresh w \<longleftrightarrow> (\<forall>a \<in> set (w_sessions w). w_filed w a = s_node_id (w_heap w a))"

definition index_law :: "env \<Rightarrow> bool" where
  "index_law e \<longleftrightarrow>
     (\<forall>xs filed heap k.
        set (node_range e xs filed heap k) \<subseteq> set xs \<and>
        (\<forall>t. set (node_type_range e xs filed heap k t) \<subseteq> set xs) \<and>
        ((\<forall>a \<in> set xs. filed a = s_node_id (heap a)) \<longrightarrow>
         mset (node_range e xs filed heap k) = mset (filter (\<lambda>a. s_node_id (heap a) = k) xs) \<and>
         (\<forall>t. mset (node_type_range e xs filed heap k t)
              = mset (filter (\<lambda>a. s_node_id (heap a) = k \<and> s_type (heap a) = t) xs))))"

section \<open>What the state hands out\<close>

text \<open>The accessors of \<^verbatim>\<open>state\<close>; the ones that hand out a mutex or the \<^verbatim>\<open>io_context\<close> have no counterpart.\<close>

definition get_configuration :: "world \<Rightarrow> configuration" where
  "get_configuration w = w_config w"

definition state_get_node_id :: "world \<Rightarrow> uuid" where
  "state_get_node_id w = w_node_id w"

definition get_sessions :: "world \<Rightarrow> addr list" where
  "get_sessions w = w_sessions w"

lemmas state_accessors [simp] = get_configuration_def state_get_node_id_def get_sessions_def

section \<open>Session members\<close>

text \<open>
  The interface of \<^verbatim>\<open>session.hpp\<close> and, below it, the two classes that implement it over their own members,
  which one record holds here.
\<close>

definition get_id :: "addr \<Rightarrow> world \<Rightarrow> uuid" where
  "get_id a w = s_id (w_heap w a)"

definition get_node_id :: "addr \<Rightarrow> world \<Rightarrow> uuid" where
  "get_node_id a w = s_node_id (w_heap w a)"

definition get_port :: "addr \<Rightarrow> world \<Rightarrow> 16 word" where
  "get_port a w = s_port (w_heap w a)"

definition get_host :: "addr \<Rightarrow> world \<Rightarrow> string" where
  "get_host a w = s_host (w_heap w a)"

definition get_type :: "addr \<Rightarrow> world \<Rightarrow> session_type" where
  "get_type a w = s_type (w_heap w a)"

definition update_session :: "addr \<Rightarrow> (session \<Rightarrow> session) \<Rightarrow> world \<Rightarrow> world" where
  "update_session a f w = w\<lparr>w_heap := (w_heap w)(a := f (w_heap w a))\<rparr>"

definition set_node_id :: "addr \<Rightarrow> uuid \<Rightarrow> world \<Rightarrow> world" where
  "set_node_id a node_id = update_session a (\<lambda>s. s\<lparr>s_node_id := node_id\<rparr>)"

definition set_port :: "addr \<Rightarrow> 16 word \<Rightarrow> world \<Rightarrow> world" where
  "set_port a port = update_session a (\<lambda>s. s\<lparr>s_port := port\<rparr>)"

definition set_host :: "addr \<Rightarrow> string \<Rightarrow> world \<Rightarrow> world" where
  "set_host a host = update_session a (\<lambda>s. s\<lparr>s_host := host\<rparr>)"

text \<open>The implementations of the two classes, and the dispatch of the interface to them.\<close>

definition tcp_get_id :: "session \<Rightarrow> uuid" where
  "tcp_get_id s = s_id s"

definition websocket_get_id :: "session \<Rightarrow> uuid" where
  "websocket_get_id s = s_id s"

definition tcp_get_node_id :: "session \<Rightarrow> uuid" where
  "tcp_get_node_id s = s_node_id s"

definition websocket_get_node_id :: "session \<Rightarrow> uuid" where
  "websocket_get_node_id s = s_node_id s"

definition tcp_set_node_id :: "uuid \<Rightarrow> session \<Rightarrow> session" where
  "tcp_set_node_id node_id s = s\<lparr>s_node_id := node_id\<rparr>"

definition websocket_set_node_id :: "uuid \<Rightarrow> session \<Rightarrow> session" where
  "websocket_set_node_id node_id s = s\<lparr>s_node_id := node_id\<rparr>"

definition tcp_get_port :: "session \<Rightarrow> 16 word" where
  "tcp_get_port s = s_port s"

definition websocket_get_port :: "session \<Rightarrow> 16 word" where
  "websocket_get_port s = s_port s"

definition tcp_set_port :: "16 word \<Rightarrow> session \<Rightarrow> session" where
  "tcp_set_port port s = s\<lparr>s_port := port\<rparr>"

definition websocket_set_port :: "16 word \<Rightarrow> session \<Rightarrow> session" where
  "websocket_set_port port s = s\<lparr>s_port := port\<rparr>"

definition tcp_get_host :: "session \<Rightarrow> string" where
  "tcp_get_host s = s_host s"

definition websocket_get_host :: "session \<Rightarrow> string" where
  "websocket_get_host s = s_host s"

definition tcp_set_host :: "string \<Rightarrow> session \<Rightarrow> session" where
  "tcp_set_host host s = s\<lparr>s_host := host\<rparr>"

definition websocket_set_host :: "string \<Rightarrow> session \<Rightarrow> session" where
  "websocket_set_host host s = s\<lparr>s_host := host\<rparr>"

text \<open>Both classes implement the members alike, so a call through the interface does not depend on the class.\<close>

lemma session_members_dispatch:
  "get_id a w = (case get_type a w of tcp \<Rightarrow> tcp_get_id | websocket \<Rightarrow> websocket_get_id) (w_heap w a)"
  "get_node_id a w = (case get_type a w of tcp \<Rightarrow> tcp_get_node_id | websocket \<Rightarrow> websocket_get_node_id) (w_heap w a)"
  "get_port a w = (case get_type a w of tcp \<Rightarrow> tcp_get_port | websocket \<Rightarrow> websocket_get_port) (w_heap w a)"
  "get_host a w = (case get_type a w of tcp \<Rightarrow> tcp_get_host | websocket \<Rightarrow> websocket_get_host) (w_heap w a)"
  "set_node_id a n w = update_session a
     ((case get_type a w of tcp \<Rightarrow> tcp_set_node_id | websocket \<Rightarrow> websocket_set_node_id) n) w"
  "set_port a p w = update_session a
     ((case get_type a w of tcp \<Rightarrow> tcp_set_port | websocket \<Rightarrow> websocket_set_port) p) w"
  "set_host a h w = update_session a
     ((case get_type a w of tcp \<Rightarrow> tcp_set_host | websocket \<Rightarrow> websocket_set_host) h) w"
  by (simp_all add: get_id_def get_node_id_def get_port_def get_host_def set_node_id_def set_port_def
      set_host_def update_session_def tcp_get_id_def websocket_get_id_def tcp_get_node_id_def
      websocket_get_node_id_def tcp_get_port_def websocket_get_port_def tcp_get_host_def websocket_get_host_def
      tcp_set_node_id_def websocket_set_node_id_def tcp_set_port_def websocket_set_port_def tcp_set_host_def
      websocket_set_host_def split: session_type.split)

definition draw_uuid :: "env \<Rightarrow> world \<Rightarrow> uuid \<times> world" where
  "draw_uuid e w = (random_uuid e (w_rng w), w\<lparr>w_rng := Suc (w_rng w)\<rparr>)"

text \<open>
  The requests whose transaction id is left to the default argument, which draws one; so do the port and the
  host of an identify request, which default to none.
\<close>

definition drawn :: "env \<Rightarrow> (uuid \<Rightarrow> base_builder \<Rightarrow> base_builder) \<Rightarrow> base_builder \<Rightarrow> world \<Rightarrow> base_builder \<times> world" where
  "drawn e add b w = (let (tx, w') = draw_uuid e w in (add tx b, w'))"

definition request_ping :: "env \<Rightarrow> base_builder \<Rightarrow> world \<Rightarrow> base_builder \<times> world" where
  "request_ping e = drawn e request_add_ping"

definition request_identify :: "env \<Rightarrow> uuid \<Rightarrow> 16 word \<Rightarrow> base_builder \<Rightarrow> world \<Rightarrow> base_builder \<times> world" where
  "request_identify e node_id cpn = drawn e (\<lambda>tx. request_add_identify node_id cpn tx 0 [])"

definition request_discovery :: "env \<Rightarrow> base_builder \<Rightarrow> world \<Rightarrow> base_builder \<times> world" where
  "request_discovery e = drawn e request_add_discovery"

definition request_join :: "env \<Rightarrow> uuid \<Rightarrow> base_builder \<Rightarrow> world \<Rightarrow> base_builder \<times> world" where
  "request_join e websocket_id = drawn e (request_add_join websocket_id)"

definition request_leave :: "env \<Rightarrow> uuid \<Rightarrow> base_builder \<Rightarrow> world \<Rightarrow> base_builder \<times> world" where
  "request_leave e websocket_id = drawn e (request_add_leave websocket_id)"

definition request_whoami :: "env \<Rightarrow> base_builder \<Rightarrow> world \<Rightarrow> base_builder \<times> world" where
  "request_whoami e = drawn e request_add_whoami"

definition allocate :: "session \<Rightarrow> world \<Rightarrow> addr \<times> world" where
  "allocate s w = (w_next w, w\<lparr>w_heap := (w_heap w)(w_next w := s), w_next := Suc (w_next w)\<rparr>)"

text \<open>
  The constructors: a TCP session wraps a connected socket and draws its own id, a WebSocket session
  is given its id, and its stream is not open before the WebSocket handshake.
\<close>

definition new_tcp_session :: "env \<Rightarrow> world \<Rightarrow> addr \<times> world" where
  "new_tcp_session e w =
     (let (i, w1) = draw_uuid e w
      in allocate \<lparr>s_type = tcp, s_id = i, s_node_id = nil_uuid, s_port = 0, s_host = [],
                   s_open = True, s_header_length = 0, s_queue = []\<rparr> w1)"

definition new_websocket_session :: "uuid \<Rightarrow> world \<Rightarrow> addr \<times> world" where
  "new_websocket_session i w =
     allocate \<lparr>s_type = websocket, s_id = i, s_node_id = nil_uuid, s_port = 0, s_host = [],
               s_open = False, s_header_length = 0, s_queue = []\<rparr> w"

text \<open>
  \<^verbatim>\<open>send\<close> and \<^verbatim>\<open>start\<close> of both classes only post to the strand of the session; the interface of
  \<^verbatim>\<open>session.hpp\<close> dispatches on the class.
\<close>

definition tcp_send :: "addr \<Rightarrow> byte list \<Rightarrow> world \<Rightarrow> world" where
  "tcp_send a message w = w\<lparr>w_posted := w_posted w @ [Run_on_send a message]\<rparr>"

definition websocket_send :: "addr \<Rightarrow> byte list \<Rightarrow> world \<Rightarrow> world" where
  "websocket_send a message w = w\<lparr>w_posted := w_posted w @ [Run_on_send a message]\<rparr>"

definition session_send :: "addr \<Rightarrow> byte list \<Rightarrow> world \<Rightarrow> world" where
  "session_send a message w =
     (case get_type a w of tcp \<Rightarrow> tcp_send a message w | websocket \<Rightarrow> websocket_send a message w)"

definition tcp_start :: "addr \<Rightarrow> world \<Rightarrow> world" where
  "tcp_start a w = w\<lparr>w_posted := w_posted w @ [Run_read_header a]\<rparr>"

definition websocket_start :: "addr \<Rightarrow> world \<Rightarrow> world" where
  "websocket_start a w = w\<lparr>w_posted := w_posted w @ [Run_ws_accept a]\<rparr>"

definition session_start :: "addr \<Rightarrow> world \<Rightarrow> world" where
  "session_start a w = (case get_type a w of tcp \<Rightarrow> tcp_start a w | websocket \<Rightarrow> websocket_start a w)"

lemma session_send_eq: "session_send a message w = w\<lparr>w_posted := w_posted w @ [Run_on_send a message]\<rparr>"
  by (simp add: session_send_def tcp_send_def websocket_send_def split: session_type.split)

lemma session_start_eq:
  "session_start a w =
     (case get_type a w of
        tcp \<Rightarrow> w\<lparr>w_posted := w_posted w @ [Run_read_header a]\<rparr>
      | websocket \<Rightarrow> w\<lparr>w_posted := w_posted w @ [Run_ws_accept a]\<rparr>)"
  by (simp add: session_start_def tcp_start_def websocket_start_def split: session_type.split)

section \<open>The session container\<close>

definition find_by_id :: "world \<Rightarrow> uuid \<Rightarrow> addr option" where
  "find_by_id w i = List.find (\<lambda>a. s_id (w_heap w a) = i) (w_sessions w)"

lemma find_by_id_member: "find_by_id w i = Some a \<Longrightarrow> a \<in> set (w_sessions w)"
  by (auto simp: find_by_id_def find_Some_iff)

definition count_by_id :: "world \<Rightarrow> uuid \<Rightarrow> nat" where
  "count_by_id w i = length (filter (\<lambda>a. s_id (w_heap w a) = i) (w_sessions w))"

definition container_insert :: "env \<Rightarrow> addr \<Rightarrow> world \<Rightarrow> bool \<times> world" where
  "container_insert e a w =
     (case find_by_id w (get_id a w) of
        Some _ \<Rightarrow> (False, w)
      | None \<Rightarrow> (True, w\<lparr>w_sessions := reindex e (w_sessions w) a,
                         w_filed := (w_filed w)(a := get_node_id a w)\<rparr>))"

definition container_erase :: "addr \<Rightarrow> world \<Rightarrow> world" where
  "container_erase a w = w\<lparr>w_sessions := remove1 a (w_sessions w)\<rparr>"

text \<open>No two elements of the container have the same id.\<close>

definition container_wf :: "world \<Rightarrow> bool" where
  "container_wf w \<longleftrightarrow> distinct (map (\<lambda>a. s_id (w_heap w a)) (w_sessions w))"

section \<open>A concrete environment\<close>

text \<open>
  An instance of the parameters, used to show that the laws above can hold and to run the model: the
  CRC with polynomial \<^verbatim>\<open>0x1021\<close> and initial value \<^verbatim>\<open>0xFFFF\<close> that Boost documents for
  \<^verbatim>\<open>crc_ccitt_type\<close>, UUIDs drawn as 1, 2, 3 and so on, a container that keeps its elements in the
  order of insertion, and a network in which every connection succeeds.
\<close>

definition crc_bit :: "16 word \<Rightarrow> 16 word" where
  "crc_bit r = (if bit r 15 then xor (push_bit 1 r) 0x1021 else push_bit 1 r)"

definition crc_byte :: "16 word \<Rightarrow> byte \<Rightarrow> 16 word" where
  "crc_byte r b = (crc_bit ^^ 8) (xor r (push_bit 8 (ucast b)))"

definition crc_16_ccitt :: "byte list \<Rightarrow> 16 word" where
  "crc_16_ccitt bs = foldl crc_byte 0xFFFF bs"

definition demo_env :: env where
  "demo_env =
     \<lparr>crc_ccitt = crc_16_ccitt,
      random_uuid = (\<lambda>n. of_nat (Suc n)),
      reindex = (\<lambda>xs a. xs @ [a]),
      node_range = (\<lambda>xs filed heap k. filter (\<lambda>a. s_node_id (heap a) = k) xs),
      node_type_range = (\<lambda>xs filed heap k t. filter (\<lambda>a. s_node_id (heap a) = k \<and> s_type (heap a) = t) xs),
      resolve_ok = (\<lambda>n host port. True),
      dial_ok = (\<lambda>n host port. True)\<rparr>"

lemma demo_env_simps [simp]:
  "crc_ccitt demo_env = crc_16_ccitt"
  "random_uuid demo_env n = of_nat (Suc n)"
  "reindex demo_env xs a = xs @ [a]"
  "node_range demo_env xs filed heap k = filter (\<lambda>a. s_node_id (heap a) = k) xs"
  "node_type_range demo_env xs filed heap k t =
     filter (\<lambda>a. s_node_id (heap a) = k \<and> s_type (heap a) = t) xs"
  "resolve_ok demo_env n host port"
  "dial_ok demo_env n host port"
  by (simp_all add: demo_env_def)

lemma demo_container_law: "container_law demo_env"
  by (simp add: container_law_def)

lemma demo_index_law: "index_law demo_env"
  by (auto simp: index_law_def)

text \<open>
  A concrete node in that environment: two TCP connections to the node 100 and a WebSocket client of
  its own (node 1).
\<close>

definition demo_session :: "session_type \<Rightarrow> uuid \<Rightarrow> uuid \<Rightarrow> session" where
  "demo_session t i n =
     \<lparr>s_type = t, s_id = i, s_node_id = n, s_port = 0, s_host = [], s_open = True,
      s_header_length = 0, s_queue = []\<rparr>"

definition demo_heap :: "addr \<Rightarrow> session" where
  "demo_heap a =
     (if a = 0 then demo_session tcp 10 100
      else if a = 1 then demo_session tcp 11 100
      else demo_session websocket 12 1)"

definition demo_world :: world where
  "demo_world =
     \<lparr>w_config = default_configuration, w_node_id = 1, w_sessions = [0, 1, 2],
      w_filed = (\<lambda>a. s_node_id (demo_heap a)), w_round_robin = (\<lambda>_. 0), w_heap = demo_heap, w_next = 3,
      w_rng = 1, w_dials = 0, w_posted = [], w_pending = []\<rparr>"

lemma demo_session_simps [simp]:
  "s_type (demo_session t i n) = t" "s_id (demo_session t i n) = i" "s_node_id (demo_session t i n) = n"
  "s_queue (demo_session t i n) = []" "s_open (demo_session t i n)"
  by (simp_all add: demo_session_def)

lemma demo_heap_simps [simp]:
  "demo_heap 0 = demo_session tcp 10 100" "demo_heap (Suc 0) = demo_session tcp 11 100"
  "demo_heap 2 = demo_session websocket 12 1"
  by (simp_all add: demo_heap_def)

lemma demo_world_simps [simp]:
  "w_config demo_world = default_configuration" "w_node_id demo_world = 1"
  "w_sessions demo_world = [0, 1, 2]" "w_filed demo_world a = s_node_id (demo_heap a)"
  "w_round_robin demo_world n = 0" "w_heap demo_world = demo_heap" "w_next demo_world = 3"
  "w_rng demo_world = 1" "w_dials demo_world = 0" "w_posted demo_world = []" "w_pending demo_world = []"
  by (simp_all add: demo_world_def)

lemma demo_world_ok:
  "container_wf demo_world" "keys_fresh demo_world" "set (w_sessions demo_world) \<subseteq> {..<w_next demo_world}"
  by (simp_all add: container_wf_def keys_fresh_def)

end
