(* ===== verification/Session_Registry.thy ===== *)
theory Session_Registry
  imports Node_World
begin

text \<open>
  The interface of the session container: a finite map from session id to session, with an insertion
  that refuses a taken id.  The locale \<open>registry\<close> states it over any state; the model's container
  provides it, and the operations of \<^verbatim>\<open>state.cpp\<close> and the join and leave handlers are its clients.
\<close>

section \<open>The interface\<close>

locale registry =
  fixes invar :: "'w \<Rightarrow> bool"
    and lookup :: "'w \<Rightarrow> 'k \<Rightarrow> 'v option"
    and key :: "'w \<Rightarrow> 'v \<Rightarrow> 'k"
    and ins :: "'v \<Rightarrow> 'w \<Rightarrow> bool \<times> 'w"
    and del :: "'v \<Rightarrow> 'w \<Rightarrow> 'w"
  assumes lookup_key: "invar w \<Longrightarrow> lookup w k = Some v \<Longrightarrow> key w v = k"
    and ins_free: "invar w \<Longrightarrow> lookup w (key w v) = None \<Longrightarrow>
      fst (ins v w) \<and> lookup (snd (ins v w)) = (lookup w)(key w v \<mapsto> v)"
    and ins_taken: "invar w \<Longrightarrow> lookup w (key w v) = Some u \<Longrightarrow> ins v w = (False, w)"
    and lookup_del: "invar w \<Longrightarrow> lookup w k = Some v \<Longrightarrow> lookup (del v w) = (lookup w)(k := None)"
    and invar_ins: "invar w \<Longrightarrow> invar (snd (ins v w))"
    and invar_del: "invar w \<Longrightarrow> invar (del v w)"
begin

lemma fst_ins: "invar w \<Longrightarrow> fst (ins v w) \<longleftrightarrow> lookup w (key w v) = None"
  by (cases "lookup w (key w v)") (auto simp: ins_free ins_taken)

lemma lookup_ins:
  "invar w \<Longrightarrow> lookup (snd (ins v w)) k =
     (if k = key w v \<and> lookup w k = None then Some v else lookup w k)"
  by (cases "lookup w (key w v)") (auto simp: ins_free ins_taken)

lemma lookup_after_ins: "invar w \<Longrightarrow> lookup (snd (ins v w)) (key w v) \<noteq> None"
  by (simp add: lookup_ins)

lemma del_ins:
  assumes "invar w" and "lookup w (key w v) = None"
  shows "lookup (del v (snd (ins v w))) = lookup w"
proof -
  have "lookup (del v (snd (ins v w))) = (lookup (snd (ins v w)))(key w v := None)"
    using assms by (intro lookup_del invar_ins) (simp_all add: lookup_ins)
  also have "\<dots> = lookup w"
    using assms by (auto simp: lookup_ins fun_eq_iff)
  finally show ?thesis .
qed

lemma ins_twice: "invar w \<Longrightarrow> key (snd (ins v w)) v = key w v \<Longrightarrow>
    ins v (snd (ins v w)) = (False, snd (ins v w))"
  by (cases "lookup (snd (ins v w)) (key w v)")
    (auto simp: lookup_after_ins intro: ins_taken invar_ins)

end

section \<open>The container provides it\<close>

lemma container_wf_distinct: "container_wf w \<Longrightarrow> distinct (w_sessions w)"
  by (simp add: container_wf_def distinct_map)

lemma find_by_id_eq_Some:
  "container_wf w \<Longrightarrow> find_by_id w k = Some a \<longleftrightarrow> a \<in> set (w_sessions w) \<and> s_id (w_heap w a) = k"
  by (simp add: find_by_id_def container_wf_def find_Some_unique)

lemma find_by_id_eq_None:
  "find_by_id w k = None \<longleftrightarrow> (\<forall>a \<in> set (w_sessions w). s_id (w_heap w a) \<noteq> k)"
  by (auto simp: find_by_id_def find_None_iff)

lemma count_by_id_eq:
  assumes "container_wf w"
  shows "count_by_id w k = (case find_by_id w k of None \<Rightarrow> 0 | Some _ \<Rightarrow> 1)"
proof (cases "find_by_id w k")
  case None
  then have "filter (\<lambda>a. s_id (w_heap w a) = k) (w_sessions w) = []"
    by (auto simp: find_by_id_eq_None filter_empty_conv)
  with None show ?thesis by (simp add: count_by_id_def)
next
  case (Some a)
  with assms have "a \<in> set (w_sessions w)" and k: "k = s_id (w_heap w a)"
    by (auto simp: find_by_id_eq_Some)
  then have "filter (\<lambda>b. s_id (w_heap w b) = k) (w_sessions w) = [a]"
    using assms filter_eq_at_most_one [of "\<lambda>b. s_id (w_heap w b)" "w_sessions w" a]
    by (simp add: container_wf_def)
  with Some show ?thesis by (simp add: count_by_id_def)
qed

lemma set_reindex [simp]: "container_law e \<Longrightarrow> set (reindex e xs a) = insert a (set xs)"
  unfolding container_law_def
  by (metis mset.simps(2) set_mset_add_mset_insert set_mset_mset)

lemma distinct_map_reindex:
  assumes "container_law e"
  shows "distinct (map f (reindex e xs a)) \<longleftrightarrow> distinct (f a # map f xs)"
proof -
  have "mset (map f (reindex e xs a)) = mset (f a # map f xs)"
    using assms by (simp add: container_law_def)
  then show ?thesis by (metis mset_eq_imp_distinct_iff)
qed

lemma container_insert_cases:
  obtains (taken) b where "find_by_id w (get_id a w) = Some b" "container_insert e a w = (False, w)"
  | (free) "find_by_id w (get_id a w) = None"
      "container_insert e a w =
        (True, w\<lparr>w_sessions := reindex e (w_sessions w) a, w_filed := (w_filed w)(a := get_node_id a w)\<rparr>)"
  by (cases "find_by_id w (get_id a w)") (auto simp: container_insert_def)

lemma container_wf_insert:
  assumes "container_law e" and "container_wf w"
  shows "container_wf (snd (container_insert e a w))"
proof (cases rule: container_insert_cases [of w a e])
  case taken
  then show ?thesis using assms by simp
next
  case free
  then show ?thesis
    using assms by (auto simp: container_wf_def distinct_map_reindex find_by_id_eq_None get_id_def)
qed

lemma container_wf_erase: "container_wf w \<Longrightarrow> container_wf (container_erase a w)"
  by (auto simp: container_wf_def container_erase_def distinct_map distinct_remove1
      intro: inj_on_subset dest: notin_set_remove1)

lemma find_by_id_insert_free:
  assumes "container_law e" and "container_wf w" and "find_by_id w (get_id a w) = None"
  shows "find_by_id (snd (container_insert e a w)) = (find_by_id w)(get_id a w \<mapsto> a)"
proof (rule ext)
  fix k
  let ?w = "w\<lparr>w_sessions := reindex e (w_sessions w) a, w_filed := (w_filed w)(a := get_node_id a w)\<rparr>"
  have ins: "container_insert e a w = (True, ?w)"
    using assms(3) by (simp add: container_insert_def)
  have "container_wf ?w"
    using assms(1,2) container_wf_insert [of e w a] by (simp add: ins)
  then have "find_by_id ?w k = Some b \<longleftrightarrow> ((find_by_id w)(get_id a w \<mapsto> a)) k = Some b" for b
    using assms by (auto simp: find_by_id_eq_Some find_by_id_eq_None get_id_def)
  then show "find_by_id (snd (container_insert e a w)) k = ((find_by_id w)(get_id a w \<mapsto> a)) k"
    by (simp add: ins) (metis option.exhaust)
qed

lemma find_by_id_erase:
  assumes "container_wf w" and "find_by_id w k = Some a"
  shows "find_by_id (container_erase a w) = (find_by_id w)(k := None)"
proof (rule ext)
  fix j
  have "find_by_id (container_erase a w) j = Some b \<longleftrightarrow> ((find_by_id w)(k := None)) j = Some b" for b
    using assms container_wf_erase [of w a] container_wf_distinct [of w]
    by (auto simp: find_by_id_eq_Some) (auto simp: container_erase_def container_wf_def distinct_map inj_on_def)
  then show "find_by_id (container_erase a w) j = ((find_by_id w)(k := None)) j"
    by (metis option.exhaust)
qed

interpretation reg: registry
  "\<lambda>w. container_law e \<and> container_wf w" find_by_id "\<lambda>w a. get_id a w"
  "container_insert e" container_erase
  for e
proof unfold_locales
  fix w k v assume "container_law e \<and> container_wf w" and "find_by_id w k = Some v"
  then show "get_id v w = k" by (simp add: find_by_id_eq_Some get_id_def)
next
  fix w v assume "container_law e \<and> container_wf w" and "find_by_id w (get_id v w) = None"
  then show "fst (container_insert e v w) \<and>
      find_by_id (snd (container_insert e v w)) = (find_by_id w)(get_id v w \<mapsto> v)"
    by (auto simp: find_by_id_insert_free) (simp add: container_insert_def)
qed (auto simp: container_insert_def find_by_id_erase container_wf_erase container_wf_insert [unfolded container_insert_def])

end
