(* ===== verification/Node_State.thy ===== *)
theory Node_State
  imports Session_Registry
begin

text \<open>
  \<^verbatim>\<open>src/aurum/state.cpp\<close>: registration and removal of sessions, outbound connections, broadcast and
  round-robin sending, together with the two implementations of \<^verbatim>\<open>session::disconnect\<close> that removal
  calls.  The mutexes make each locked block atomic; every operation here runs to its end before
  another one starts.
\<close>

section \<open>Definitions\<close>

definition blank_session :: session where
  "blank_session = \<lparr>s_type = tcp, s_id = nil_uuid, s_node_id = nil_uuid, s_port = 0, s_host = [],
                    s_open = False, s_header_length = 0, s_queue = []\<rparr>"

definition new_state :: "env \<Rightarrow> world" where
  "new_state e =
     \<lparr>w_config = default_configuration, w_node_id = random_uuid e 0, w_sessions = [],
      w_filed = (\<lambda>_. nil_uuid), w_round_robin = (\<lambda>_. 0), w_heap = (\<lambda>_. blank_session), w_next = 0,
      w_rng = 1, w_dials = 0, w_posted = [], w_pending = []\<rparr>"

definition add_session :: "env \<Rightarrow> addr \<Rightarrow> world \<Rightarrow> bool \<times> world" where
  "add_session e a w = container_insert e a w"

text \<open>
  The first loop of \<^verbatim>\<open>broadcast_to_nodes\<close>: one TCP session for every node id met so far.
\<close>

fun collect_targets :: "world \<Rightarrow> uuid list \<Rightarrow> addr list \<Rightarrow> addr list" where
  "collect_targets w visited [] = []"
| "collect_targets w visited (a # as) =
     (if get_type a w \<noteq> tcp then collect_targets w visited as
      else if get_node_id a w \<in> set visited then collect_targets w visited as
      else a # collect_targets w (visited @ [get_node_id a w]) as)"

definition broadcast_to_nodes :: "byte list \<Rightarrow> world \<Rightarrow> world" where
  "broadcast_to_nodes message w =
     foldl (\<lambda>v target. session_send target message v) w (collect_targets w [] (get_sessions w))"

text \<open>
  \<^verbatim>\<open>_index % _count\<close> converts the signed distance to \<^verbatim>\<open>size_t\<close>; the stored index wraps at 64 bits.
\<close>

definition send_to_node :: "env \<Rightarrow> uuid \<Rightarrow> byte list \<Rightarrow> world \<Rightarrow> world" where
  "send_to_node e node_id message w =
     (let range = node_type_range e (w_sessions w) (w_filed w) (w_heap w) node_id tcp;
          cnt = length range
      in if cnt > 0
         then let index = w_round_robin w node_id;
                  w1 = w\<lparr>w_round_robin := (w_round_robin w)(node_id := index + 1)\<rparr>
              in session_send (range ! (unat index mod cnt)) message w1
         else w)"

definition tcp_disconnect :: "addr \<Rightarrow> world \<Rightarrow> world" where
  "tcp_disconnect a w =
     (if s_open (w_heap w a) then update_session a (\<lambda>s. s\<lparr>s_open := False\<rparr>) w else w)"

definition websocket_disconnect :: "env \<Rightarrow> addr \<Rightarrow> world \<Rightarrow> fault + world" where
  "websocket_disconnect e a w =
     (let w1 = (if s_open (w_heap w a) then update_session a (\<lambda>s. s\<lparr>s_open := False\<rparr>) w else w);
          (tx, w2) = draw_uuid e w1
      in chain (get_data (crc_ccitt e) (request_add_leave (get_id a w2) tx as_request) True)
           (\<lambda>data. Inr (broadcast_to_nodes data w2)))"

definition session_disconnect :: "env \<Rightarrow> addr \<Rightarrow> world \<Rightarrow> fault + world" where
  "session_disconnect e a w =
     (case get_type a w of
        tcp \<Rightarrow> Inr (tcp_disconnect a w)
      | websocket \<Rightarrow> websocket_disconnect e a w)"

definition remove_session :: "env \<Rightarrow> uuid \<Rightarrow> world \<Rightarrow> fault + (bool \<times> world)" where
  "remove_session e i w =
     (case find_by_id w i of
        None \<Rightarrow> Inr (False, w)
      | Some a \<Rightarrow> chain (session_disconnect e a (container_erase a w)) (\<lambda>w'. Inr (True, w')))"

fun remove_sessions :: "env \<Rightarrow> uuid list \<Rightarrow> world \<Rightarrow> fault + world" where
  "remove_sessions e [] w = Inr w"
| "remove_sessions e (i # ids) w = chain (remove_session e i w) (\<lambda>(_, w'). remove_sessions e ids w')"

definition state_disconnect :: "env \<Rightarrow> uuid \<Rightarrow> world \<Rightarrow> fault + world" where
  "state_disconnect e remote_node_id w =
     remove_sessions e
       (map (\<lambda>a. get_id a w) (node_range e (w_sessions w) (w_filed w) (w_heap w) remote_node_id)) w"

definition disconnect_all :: "env \<Rightarrow> world \<Rightarrow> fault + world" where
  "disconnect_all e w = remove_sessions e (map (\<lambda>a. get_id a w) (get_sessions w)) w"

text \<open>
  \<^verbatim>\<open>state::connect\<close>.  The outcome of resolving and dialling the \<open>n\<close>-th attempt is the environment's;
  every attempt counts one, whatever its outcome.
\<close>

definition state_connect ::
    "env \<Rightarrow> string \<Rightarrow> 16 word \<Rightarrow> bool \<Rightarrow> 16 word \<Rightarrow> world \<Rightarrow> fault + (bool \<times> world)" where
  "state_connect e host port with_discovery cpn w =
     (let n = w_dials w; w0 = w\<lparr>w_dials := Suc n\<rparr>
      in if \<not> resolve_ok e n host port then Inr (False, w0)
         else if \<not> dial_ok e n host port then Inr (False, w0)
         else
           let (a, w1) = new_tcp_session e w0;
               (added, w2) = add_session e a w1
           in if \<not> added then Inr (False, w2)
              else
                let (tx, w3) = draw_uuid e w2;
                    b3 = request_add_identify (state_get_node_id w3) cpn tx (tcp_port (get_configuration w3))
                           ''127.0.0.1'' as_request;
                    (b4, w4) = (if with_discovery then request_discovery e b3 w3 else (b3, w3))
                in chain (get_data (crc_ccitt e) b4 True)
                     (\<lambda>buffer. Inr (True, session_start a (session_send a buffer w4))))"

section \<open>Broadcast\<close>

text \<open>The effect of \<open>broadcast_to_nodes\<close> in one equation: only the posted work grows.\<close>

lemma foldl_session_send:
  "foldl (\<lambda>v a. session_send a m v) w as = w\<lparr>w_posted := w_posted w @ map (\<lambda>a. Run_on_send a m) as\<rparr>"
  by (induction as arbitrary: w) (simp_all add: session_send_eq)

definition broadcast_targets :: "world \<Rightarrow> addr list" where
  "broadcast_targets w = collect_targets w [] (w_sessions w)"

lemma broadcast_eq:
  "broadcast_to_nodes m w =
     w\<lparr>w_posted := w_posted w @ map (\<lambda>a. Run_on_send a m) (broadcast_targets w)\<rparr>"
  by (simp add: broadcast_to_nodes_def broadcast_targets_def foldl_session_send)

lemma collect_targets_sound:
  "a \<in> set (collect_targets w vis as) \<Longrightarrow> a \<in> set as \<and> get_type a w = tcp \<and> get_node_id a w \<notin> set vis"
  by (induction w vis as rule: collect_targets.induct) (auto split: if_splits)

lemma collect_targets_distinct:
  "distinct (map (\<lambda>a. get_node_id a w) (collect_targets w vis as))"
  by (induction w vis as rule: collect_targets.induct)
    (auto dest!: collect_targets_sound)

lemma collect_targets_complete:
  "a \<in> set as \<Longrightarrow> get_type a w = tcp \<Longrightarrow>
   get_node_id a w \<in> set vis \<union> (\<lambda>b. get_node_id b w) ` set (collect_targets w vis as)"
  by (induction w vis as rule: collect_targets.induct) auto

section \<open>Frames the state sends\<close>

text \<open>
  Every frame built by \<^verbatim>\<open>state\<close> and the sessions holds one or two short payloads, so \<open>get_data\<close>
  cannot raise there.
\<close>

definition frame_bytes :: "(byte list \<Rightarrow> 16 word) \<Rightarrow> bool \<Rightarrow> byte list list \<Rightarrow> byte list" where
  "frame_bytes crc h bufs =
     (if h then put32 (of_nat (length (frame_body bufs) + 2)) else [])
     @ frame_body bufs @ put16 (crc (frame_body bufs))"

lemma get_data_frame_bytes:
  "buffers b \<noteq> [] \<Longrightarrow> frame_fits (buffers b) \<Longrightarrow> get_data crc b h = Inr (frame_bytes crc h (buffers b))"
  by (simp add: get_data_fits frame_bytes_def)

lemma frame_fits_small:
  assumes "length bufs \<le> 2" and "payload_sum bufs \<le> 1000"
  shows "frame_fits bufs"
  using assms by (simp add: frame_fits_def max_requests_per_frame_def max_frame_payload_size_def)

definition leave_payload :: "uuid \<Rightarrow> uuid \<Rightarrow> byte list" where
  "leave_payload websocket_id tx =
     message_header (op_code_value leave) request tx @ put_uuid websocket_id"

lemma get_data_leave [simp]:
  "get_data crc (request_add_leave i tx as_request) h = Inr (frame_bytes crc h [leave_payload i tx])"
  by (subst get_data_frame_bytes)
    (simp_all add: request_add_leave_def leave_payload_def frame_fits_small)

section \<open>Disconnection and removal\<close>

text \<open>
  \<open>closed a w\<close> is the state after the socket of \<open>a\<close> is closed; closing a closed socket changes
  nothing.
\<close>

definition close_socket :: "addr \<Rightarrow> world \<Rightarrow> world" where
  "close_socket a w = update_session a (\<lambda>s. s\<lparr>s_open := False\<rparr>) w"

lemma close_if_open:
  "(if s_open (w_heap w a) then update_session a (\<lambda>s. s\<lparr>s_open := False\<rparr>) w else w) = close_socket a w"
  by (simp add: close_socket_def update_session_def fun_upd_idem)

lemma close_socket_simps [simp, world_simps]:
  "w_sessions (close_socket a w) = w_sessions w"
  "w_node_id (close_socket a w) = w_node_id w"
  "w_filed (close_socket a w) = w_filed w"
  "w_config (close_socket a w) = w_config w"
  "w_posted (close_socket a w) = w_posted w"
  "w_pending (close_socket a w) = w_pending w"
  "w_next (close_socket a w) = w_next w"
  "w_rng (close_socket a w) = w_rng w"
  "w_dials (close_socket a w) = w_dials w"
  "w_round_robin (close_socket a w) = w_round_robin w"
  "s_id (w_heap (close_socket a w) b) = s_id (w_heap w b)"
  "s_type (w_heap (close_socket a w) b) = s_type (w_heap w b)"
  "s_node_id (w_heap (close_socket a w) b) = s_node_id (w_heap w b)"
  "s_port (w_heap (close_socket a w) b) = s_port (w_heap w b)"
  "s_host (w_heap (close_socket a w) b) = s_host (w_heap w b)"
  "s_queue (w_heap (close_socket a w) b) = s_queue (w_heap w b)"
  "s_open (w_heap (close_socket a w) b) \<longleftrightarrow> s_open (w_heap w b) \<and> b \<noteq> a"
  by (simp_all add: close_socket_def update_session_def)

lemma tcp_disconnect_eq: "tcp_disconnect a w = close_socket a w"
  by (simp add: tcp_disconnect_def close_if_open)

text \<open>The tasks a disconnect posts: for a WebSocket, the leave broadcast.\<close>

definition leave_tasks :: "env \<Rightarrow> addr \<Rightarrow> world \<Rightarrow> task list" where
  "leave_tasks e a w =
     map (\<lambda>b. Run_on_send b
            (frame_bytes (crc_ccitt e) True [leave_payload (get_id a w) (random_uuid e (w_rng w))]))
       (broadcast_targets w)"

lemma broadcast_targets_cong:
  assumes "w_sessions v = w_sessions w"
    and "\<And>a. s_type (w_heap v a) = s_type (w_heap w a)"
    and "\<And>a. s_node_id (w_heap v a) = s_node_id (w_heap w a)"
  shows "broadcast_targets v = broadcast_targets w"
proof -
  have "collect_targets v vis as = collect_targets w vis as" for vis as
    by (induction as arbitrary: vis) (simp_all add: assms get_type_def get_node_id_def)
  then show ?thesis by (simp add: broadcast_targets_def assms)
qed

lemma websocket_disconnect_eq:
  "websocket_disconnect e a w =
     Inr ((close_socket a w)\<lparr>w_rng := Suc (w_rng w), w_posted := w_posted w @ leave_tasks e a w\<rparr>)"
proof -
  have "broadcast_targets ((close_socket a w)\<lparr>w_rng := Suc (w_rng w)\<rparr>) = broadcast_targets w"
    by (rule broadcast_targets_cong) simp_all
  then show ?thesis
    by (simp add: websocket_disconnect_def close_if_open draw_uuid_def broadcast_eq leave_tasks_def
        get_id_def)
qed

lemma session_disconnect_eq:
  "session_disconnect e a w =
     Inr (case get_type a w of
            tcp \<Rightarrow> close_socket a w
          | websocket \<Rightarrow>
              (close_socket a w)\<lparr>w_rng := Suc (w_rng w), w_posted := w_posted w @ leave_tasks e a w\<rparr>)"
  by (simp add: session_disconnect_def tcp_disconnect_eq websocket_disconnect_eq
      split: session_type.split)

text \<open>
  What removing sessions leaves alone: everything but the container, the sockets it closes, the
  UUIDs it draws and the sends it posts, all of them to TCP sessions of the container.
\<close>

definition removal_frame :: "world \<Rightarrow> world \<Rightarrow> bool" where
  "removal_frame w w' \<longleftrightarrow>
     w_config w' = w_config w \<and> w_node_id w' = w_node_id w \<and> w_filed w' = w_filed w \<and>
     w_round_robin w' = w_round_robin w \<and> w_next w' = w_next w \<and> w_dials w' = w_dials w \<and>
     w_pending w' = w_pending w \<and>
     (\<forall>a. w_heap w' a = (w_heap w a)\<lparr>s_open := s_open (w_heap w' a)\<rparr>) \<and>
     (\<forall>a. s_open (w_heap w' a) \<longrightarrow> s_open (w_heap w a)) \<and>
     (\<exists>ts. w_posted w' = w_posted w @ ts \<and>
        (\<forall>t \<in> set ts. \<exists>b m. t = Run_on_send b m \<and> b \<in> set (w_sessions w) \<and> s_type (w_heap w b) = tcp))"

lemma removal_frame_refl [simp]: "removal_frame w w"
  by (simp add: removal_frame_def)

lemma removal_frame_heap:
  assumes "removal_frame w w'"
  shows "s_id (w_heap w' a) = s_id (w_heap w a)"
    and "s_type (w_heap w' a) = s_type (w_heap w a)"
    and "s_node_id (w_heap w' a) = s_node_id (w_heap w a)"
    and "s_port (w_heap w' a) = s_port (w_heap w a)"
    and "s_host (w_heap w' a) = s_host (w_heap w a)"
    and "s_queue (w_heap w' a) = s_queue (w_heap w a)"
    and "s_header_length (w_heap w' a) = s_header_length (w_heap w a)"
proof -
  have eq: "w_heap w' a = (w_heap w a)\<lparr>s_open := s_open (w_heap w' a)\<rparr>"
    using assms by (simp add: removal_frame_def)
  show "s_id (w_heap w' a) = s_id (w_heap w a)" "s_type (w_heap w' a) = s_type (w_heap w a)"
    "s_node_id (w_heap w' a) = s_node_id (w_heap w a)" "s_port (w_heap w' a) = s_port (w_heap w a)"
    "s_host (w_heap w' a) = s_host (w_heap w a)" "s_queue (w_heap w' a) = s_queue (w_heap w a)"
    "s_header_length (w_heap w' a) = s_header_length (w_heap w a)"
    by (subst eq, simp)+
qed

lemma removal_frame_trans:
  assumes "removal_frame u v" and "removal_frame v w" and "set (w_sessions v) \<subseteq> set (w_sessions u)"
  shows "removal_frame u w"
proof -
  have heap: "w_heap w a = (w_heap u a)\<lparr>s_open := s_open (w_heap w a)\<rparr>" for a
  proof -
    have w: "w_heap w a = (w_heap v a)\<lparr>s_open := s_open (w_heap w a)\<rparr>"
      and v: "w_heap v a = (w_heap u a)\<lparr>s_open := s_open (w_heap v a)\<rparr>"
      using assms(1,2) by (simp_all add: removal_frame_def)
    have "w_heap w a = (w_heap u a)\<lparr>s_open := s_open (w_heap v a), s_open := s_open (w_heap w a)\<rparr>"
      by (subst v [symmetric]) (rule w)
    also have "\<dots> = (w_heap u a)\<lparr>s_open := s_open (w_heap w a)\<rparr>"
      by simp
    finally show ?thesis .
  qed
  obtain ts1 ts2 where ts: "w_posted v = w_posted u @ ts1" "w_posted w = w_posted v @ ts2"
    "\<forall>t \<in> set ts1. \<exists>b m. t = Run_on_send b m \<and> b \<in> set (w_sessions u) \<and> s_type (w_heap u b) = tcp"
    "\<forall>t \<in> set ts2. \<exists>b m. t = Run_on_send b m \<and> b \<in> set (w_sessions v) \<and> s_type (w_heap v b) = tcp"
    using assms(1,2) unfolding removal_frame_def by blast
  have posted: "\<exists>ts. w_posted w = w_posted u @ ts \<and>
      (\<forall>t \<in> set ts. \<exists>b m. t = Run_on_send b m \<and> b \<in> set (w_sessions u) \<and> s_type (w_heap u b) = tcp)"
    using ts assms(3) removal_frame_heap(2) [OF assms(1)]
    by (intro exI [of _ "ts1 @ ts2"]) fastforce
  have "s_open (w_heap u a)" if "s_open (w_heap w a)" for a
    using that assms(1,2) by (simp add: removal_frame_def)
  with heap posted assms(1,2) show ?thesis
    by (simp add: removal_frame_def)
qed

lemma broadcast_targets_tcp:
  "b \<in> set (broadcast_targets w) \<Longrightarrow> b \<in> set (w_sessions w) \<and> s_type (w_heap w b) = tcp"
  by (auto simp: broadcast_targets_def get_type_def dest: collect_targets_sound)

lemma session_disconnect_frame:
  obtains w' where "session_disconnect e a w = Inr w'" and "removal_frame w w'"
    and "w_sessions w' = w_sessions w" and "\<And>b. s_open (w_heap w' b) \<longleftrightarrow> s_open (w_heap w b) \<and> b \<noteq> a"
proof -
  let ?w' = "case get_type a w of tcp \<Rightarrow> close_socket a w
    | websocket \<Rightarrow> (close_socket a w)\<lparr>w_rng := Suc (w_rng w), w_posted := w_posted w @ leave_tasks e a w\<rparr>"
  have heap: "w_heap ?w' = w_heap (close_socket a w)"
    by (simp split: session_type.split)
  have "\<forall>t \<in> set (leave_tasks e a w). \<exists>b m. t = Run_on_send b m \<and> b \<in> set (w_sessions w) \<and> s_type (w_heap w b) = tcp"
    by (auto simp: leave_tasks_def dest: broadcast_targets_tcp)
  moreover have "w_heap ?w' b = (w_heap w b)\<lparr>s_open := s_open (w_heap ?w' b)\<rparr>" for b
    unfolding heap by (simp add: close_socket_def update_session_def)
  moreover have "s_open (w_heap ?w' b) \<longleftrightarrow> s_open (w_heap w b) \<and> b \<noteq> a" for b
    unfolding heap by simp
  ultimately have "removal_frame w ?w'"
    unfolding removal_frame_def by (simp split: session_type.split)
  then show thesis
    using heap by (intro that [of ?w']) (simp_all add: session_disconnect_eq split: session_type.split)
qed

lemma remove_session_cases:
  assumes "container_wf w"
  obtains (absent) "find_by_id w i = None" "remove_session e i w = Inr (False, w)"
  | (present) a w' where "find_by_id w i = Some a" "remove_session e i w = Inr (True, w')"
      "w_sessions w' = remove1 a (w_sessions w)" "removal_frame w w'"
      "\<And>b. s_open (w_heap w' b) \<longleftrightarrow> s_open (w_heap w b) \<and> b \<noteq> a"
proof (cases "find_by_id w i")
  case None
  then show thesis by (intro absent) (simp_all add: remove_session_def)
next
  case (Some a)
  obtain w' where w': "session_disconnect e a (container_erase a w) = Inr w'"
    "removal_frame (container_erase a w) w'" "w_sessions w' = w_sessions (container_erase a w)"
    "\<And>b. s_open (w_heap w' b) \<longleftrightarrow> s_open (w_heap (container_erase a w) b) \<and> b \<noteq> a"
    using session_disconnect_frame by blast
  have "removal_frame w (container_erase a w)"
    by (simp add: removal_frame_def container_erase_def)
  then have "removal_frame w w'"
    using w'(2) by (rule removal_frame_trans) (simp add: container_erase_def set_remove1_subset)
  with w' Some show thesis
    by (intro present [of a w']) (simp_all add: remove_session_def container_erase_def)
qed

lemma container_wf_cong:
  assumes "w_sessions v = w_sessions w"
    and "\<And>a. a \<in> set (w_sessions w) \<Longrightarrow> s_id (w_heap v a) = s_id (w_heap w a)"
  shows "container_wf v = container_wf w"
proof -
  have "map (\<lambda>a. s_id (w_heap v a)) (w_sessions w) = map (\<lambda>a. s_id (w_heap w a)) (w_sessions w)"
    by (rule map_cong [OF refl]) (rule assms(2))
  then show ?thesis by (simp only: container_wf_def assms(1))
qed

lemma find_by_id_cong:
  assumes "w_sessions v = w_sessions w"
    and "\<And>a. a \<in> set (w_sessions w) \<Longrightarrow> s_id (w_heap v a) = s_id (w_heap w a)"
  shows "find_by_id v = find_by_id w"
  unfolding find_by_id_def assms(1) by (intro ext find_cong) (simp_all add: assms(2))

lemma remove_sessions_ok:
  assumes "container_wf w"
  shows "\<exists>w'. remove_sessions e ids w = Inr w' \<and>
    w_sessions w' = filter (\<lambda>a. s_id (w_heap w a) \<notin> set ids) (w_sessions w) \<and>
    removal_frame w w' \<and>
    (\<forall>b. s_open (w_heap w' b) \<longleftrightarrow>
      s_open (w_heap w b) \<and> \<not> (b \<in> set (w_sessions w) \<and> s_id (w_heap w b) \<in> set ids))"
  using assms
proof (induction ids arbitrary: w)
  case Nil
  then show ?case by simp
next
  case (Cons i ids)
  from Cons.prems show ?case
  proof (cases rule: remove_session_cases [of w i e])
    case absent
    then show ?thesis
      using Cons.IH [OF Cons.prems] by (force simp: find_by_id_eq_None intro: filter_cong)
  next
    case (present a w1)
    have ids: "s_id (w_heap w1 b) = s_id (w_heap w b)" for b
      using present(4) by (rule removal_frame_heap)
    have s1: "w_sessions w1 = filter (\<lambda>b. s_id (w_heap w b) \<noteq> i) (w_sessions w)"
      using present(1,3) Cons.prems container_wf_distinct [OF Cons.prems]
      by (auto simp: remove1_filter_neq find_by_id_eq_Some container_wf_def distinct_map inj_on_def
          intro!: filter_cong)
    have "container_wf w1"
      using Cons.prems by (simp add: container_wf_def s1 ids distinct_map_filter)
    from Cons.IH [OF this] obtain w2 where w2: "remove_sessions e ids w1 = Inr w2"
      "w_sessions w2 = filter (\<lambda>b. s_id (w_heap w1 b) \<notin> set ids) (w_sessions w1)"
      "removal_frame w1 w2"
      "\<And>b. s_open (w_heap w2 b) \<longleftrightarrow>
        s_open (w_heap w1 b) \<and> \<not> (b \<in> set (w_sessions w1) \<and> s_id (w_heap w1 b) \<in> set ids)"
      by blast
    have "removal_frame w w2"
      using present(4) w2(3) by (rule removal_frame_trans) (auto simp: s1)
    moreover have "w_sessions w2 = filter (\<lambda>b. s_id (w_heap w b) \<notin> set (i # ids)) (w_sessions w)"
      by (auto simp: w2(2) s1 ids intro: filter_cong)
    moreover have "b = a \<longleftrightarrow> b \<in> set (w_sessions w) \<and> s_id (w_heap w b) = i" for b
      using present(1) Cons.prems by (auto simp: find_by_id_eq_Some container_wf_def distinct_map inj_on_def)
    then have "s_open (w_heap w2 b) \<longleftrightarrow>
        s_open (w_heap w b) \<and> \<not> (b \<in> set (w_sessions w) \<and> s_id (w_heap w b) \<in> set (i # ids))" for b
      unfolding w2(4) present(5) ids by (auto simp: s1)
    ultimately show ?thesis
      using present(2) w2(1) by simp
  qed
qed

text \<open>The range lookups of a container whose keys are up to date.\<close>

lemma node_range_mset:
  assumes "index_law e" and "keys_fresh w"
  shows "mset (node_range e (w_sessions w) (w_filed w) (w_heap w) n) =
    mset (filter (\<lambda>a. s_node_id (w_heap w a) = n) (w_sessions w))"
  using assms(2) assms(1) [unfolded index_law_def, rule_format, of "w_sessions w" "w_filed w" "w_heap w" n]
  by (simp add: keys_fresh_def)

section \<open>Properties\<close>

text \<open>
  C29. Removing a session by id: an unknown id changes nothing and answers false; a known id answers
  true, the container maps every other id as before and this one to nothing, the session's socket is
  closed, and nothing else changes except the posted leave broadcast.
\<close>

theorem remove_session_spec:
  assumes "container_law e" and "container_wf w"
  shows "case find_by_id w i of
      None \<Rightarrow> remove_session e i w = Inr (False, w)
    | Some a \<Rightarrow> (\<exists>w'. remove_session e i w = Inr (True, w') \<and>
        find_by_id w' = (find_by_id w)(i := None) \<and> container_wf w' \<and>
        \<not> s_open (w_heap w' a) \<and> removal_frame w w')"
  using assms(2)
proof (cases rule: remove_session_cases [of w i e])
  case absent
  then show ?thesis by simp
next
  case (present a w')
  have same: "w_sessions w' = w_sessions (container_erase a w)"
    "s_id (w_heap w' b) = s_id (w_heap (container_erase a w) b)" for b
    using present(3) removal_frame_heap(1) [OF present(4)] by (simp_all add: container_erase_def)
  have "find_by_id w' = find_by_id (container_erase a w)"
    by (rule find_by_id_cong) (simp_all add: same)
  also have "\<dots> = (find_by_id w)(i := None)"
    using assms present(1) by (auto intro: reg.lookup_del)
  finally have "find_by_id w' = (find_by_id w)(i := None)" .
  moreover have "container_wf w'"
    using reg.invar_del [of e w a] assms container_wf_cong [OF same(1)] same(2) by simp
  ultimately show ?thesis
    using present by simp
qed

text \<open>
  Adding a session answers whether its id was free; afterwards its id is registered, every other
  id is looked up as before, and a taken id keeps its owner.
\<close>

lemma add_session_spec:
  assumes "container_law e" and "container_wf w"
  shows "(fst (add_session e a w) \<longleftrightarrow> find_by_id w (get_id a w) = None) \<and>
    find_by_id (snd (add_session e a w)) k =
      (if k = get_id a w \<and> find_by_id w k = None then Some a else find_by_id w k) \<and>
    container_wf (snd (add_session e a w))"
  using assms reg.fst_ins [of e w a] reg.lookup_ins [of e w a k] reg.invar_ins [of e w a]
  by (simp_all add: add_session_def)

text \<open>
  \<^verbatim>\<open>disconnect_all\<close> returns, leaves the container empty and every session it held closed.
\<close>

lemma disconnect_all_empties:
  assumes "container_wf w"
  shows "\<exists>w'. disconnect_all e w = Inr w' \<and> w_sessions w' = [] \<and>
    set (w_sessions w) \<subseteq> {a. \<not> s_open (w_heap w' a)} \<and> removal_frame w w'"
proof -
  obtain w' where "disconnect_all e w = Inr w'" "removal_frame w w'"
    and s: "w_sessions w' = filter (\<lambda>a. s_id (w_heap w a) \<notin> (\<lambda>a. get_id a w) ` set (w_sessions w)) (w_sessions w)"
    and o: "\<And>b. s_open (w_heap w' b) \<longleftrightarrow> s_open (w_heap w b) \<and>
      \<not> (b \<in> set (w_sessions w) \<and> s_id (w_heap w b) \<in> (\<lambda>a. get_id a w) ` set (w_sessions w))"
    using remove_sessions_ok [OF assms, of e "map (\<lambda>a. get_id a w) (w_sessions w)"]
    unfolding disconnect_all_def by auto
  moreover have "w_sessions w' = []"
    unfolding s by (auto simp: filter_empty_conv get_id_def)
  ultimately show ?thesis by (auto simp: get_id_def)
qed

text \<open>
  \<^verbatim>\<open>state::disconnect\<close> removes exactly the sessions of the given node, in all transports, and
  closes them, as long as the container's node index is up to date.
\<close>

lemma state_disconnect_exact:
  assumes "container_wf w" and "index_law e" and "keys_fresh w"
  shows "\<exists>w'. state_disconnect e n w = Inr w' \<and>
    w_sessions w' = filter (\<lambda>a. get_node_id a w \<noteq> n) (w_sessions w) \<and> removal_frame w w'"
proof -
  let ?r = "node_range e (w_sessions w) (w_filed w) (w_heap w) n"
  have "set ?r = set (filter (\<lambda>a. s_node_id (w_heap w a) = n) (w_sessions w))"
    using node_range_mset [OF assms(2,3)] by (rule mset_eq_setD)
  then have "s_id (w_heap w a) \<in> (\<lambda>b. get_id b w) ` set ?r \<longleftrightarrow> get_node_id a w = n"
    if "a \<in> set (w_sessions w)" for a
    using that assms(1)
    by (auto simp: get_id_def get_node_id_def container_wf_def distinct_map inj_on_def)
  then have eq: "filter (\<lambda>a. s_id (w_heap w a) \<notin> set (map (\<lambda>b. get_id b w) ?r)) (w_sessions w)
      = filter (\<lambda>a. get_node_id a w \<noteq> n) (w_sessions w)"
    by (intro filter_cong) auto
  show ?thesis
    using remove_sessions_ok [OF assms(1), of e "map (\<lambda>b. get_id b w) ?r"]
    unfolding state_disconnect_def eq by blast
qed

text \<open>
  A broadcast posts one send to each of a list of TCP sessions of the container, with pairwise
  different node ids, that together cover every node id a TCP session of the container has; nothing
  else changes.
\<close>

lemma broadcast_one_per_node:
  "let ts = broadcast_targets w in
     broadcast_to_nodes m w = w\<lparr>w_posted := w_posted w @ map (\<lambda>a. Run_on_send a m) ts\<rparr> \<and>
     set ts \<subseteq> {a \<in> set (w_sessions w). get_type a w = tcp} \<and>
     distinct (map (\<lambda>a. get_node_id a w) ts) \<and>
     (\<lambda>a. get_node_id a w) ` set ts =
       (\<lambda>a. get_node_id a w) ` {a \<in> set (w_sessions w). get_type a w = tcp}"
proof -
  have "set (broadcast_targets w) \<subseteq> {a \<in> set (w_sessions w). get_type a w = tcp}"
    by (auto simp: broadcast_targets_def dest: collect_targets_sound)
  moreover have "get_node_id a w \<in> (\<lambda>b. get_node_id b w) ` set (broadcast_targets w)"
    if "a \<in> set (w_sessions w)" "get_type a w = tcp" for a
    using collect_targets_complete [OF that, of "[]"] by (simp add: broadcast_targets_def)
  ultimately show ?thesis
    unfolding Let_def by (auto simp: broadcast_eq broadcast_targets_def collect_targets_distinct)
qed

section \<open>Round-robin sending\<close>

fun send_all_to_node :: "env \<Rightarrow> uuid \<Rightarrow> byte list list \<Rightarrow> world \<Rightarrow> world" where
  "send_all_to_node e n [] w = w"
| "send_all_to_node e n (m # ms) w = send_all_to_node e n ms (send_to_node e n m w)"

lemma send_to_node_eq:
  assumes "r = node_type_range e (w_sessions w) (w_filed w) (w_heap w) n tcp" and "r \<noteq> []"
  shows "send_to_node e n m w =
    w\<lparr>w_round_robin := (w_round_robin w)(n := w_round_robin w n + 1),
      w_posted := w_posted w @ [Run_on_send (r ! (unat (w_round_robin w n) mod length r)) m]\<rparr>"
  using assms by (simp add: send_to_node_def Let_def session_send_eq)

lemma send_all_to_node_eq:
  assumes "r = node_type_range e (w_sessions w) (w_filed w) (w_heap w) n tcp" and "r \<noteq> []"
    and "unat (w_round_robin w n) + length ms < 2 ^ 64"
  shows "w_posted (send_all_to_node e n ms w) = w_posted w @
    map (\<lambda>i. Run_on_send (r ! ((unat (w_round_robin w n) + i) mod length r)) (ms ! i)) [0..<length ms]"
  using assms
proof (induction ms arbitrary: w)
  case Nil
  then show ?case by simp
next
  case (Cons m ms)
  let ?w = "send_to_node e n m w"
  have eq: "?w = w\<lparr>w_round_robin := (w_round_robin w)(n := w_round_robin w n + 1),
      w_posted := w_posted w @ [Run_on_send (r ! (unat (w_round_robin w n) mod length r)) m]\<rparr>"
    using Cons.prems(1,2) by (rule send_to_node_eq)
  have u: "unat (w_round_robin ?w n) = Suc (unat (w_round_robin w n))"
    using Cons.prems(3) by (simp add: eq unat_word_ariths)
  have "w_posted (send_all_to_node e n ms ?w) = w_posted ?w @
    map (\<lambda>i. Run_on_send (r ! ((unat (w_round_robin ?w n) + i) mod length r)) (ms ! i)) [0..<length ms]"
    using Cons.prems by (intro Cons.IH) (simp_all only: u, simp_all add: eq)
  then show ?case
    by (simp only: u) (simp add: eq upt_conv_Cons comp_def del: upt_Suc flip: map_Suc_upt)
qed

text \<open>A whole number of rounds visits every element equally often.\<close>

lemma mset_rounds:
  assumes "r \<noteq> []"
  shows "mset (map (\<lambda>i. r ! ((s + i) mod length r)) [0..<k * length r]) = repeat_mset k (mset r)"
proof (induction k)
  case 0
  then show ?case by simp
next
  case (Suc k)
  have shift: "map (\<lambda>i. r ! ((s + i) mod length r)) [k * length r..<k * length r + length r] = rotate s r"
  proof (rule nth_equalityI)
    fix i assume "i < length (map (\<lambda>i. r ! ((s + i) mod length r)) [k * length r..<k * length r + length r])"
    then have i: "i < length r" by simp
    have "(s + (k * length r + i)) mod length r = (k * length r + (s + i)) mod length r"
      by (simp add: algebra_simps)
    then have "(s + (k * length r + i)) mod length r = (s + i) mod length r"
      by (simp only: mod_mult_self3)
    with i show "map (\<lambda>i. r ! ((s + i) mod length r)) [k * length r..<k * length r + length r] ! i
        = rotate s r ! i"
      by (simp add: nth_rotate add.assoc)
  qed simp
  have "[0..<k * length r + length r] = [0..<k * length r] @ [k * length r..<k * length r + length r]"
    by (rule upt_add_eq_append) simp
  moreover have "Suc k * length r = k * length r + length r"
    by simp
  ultimately have "[0..<Suc k * length r] =
      [0..<k * length r] @ [k * length r..<k * length r + length r]"
    by (simp only:)
  then have "mset (map (\<lambda>i. r ! ((s + i) mod length r)) [0..<Suc k * length r])
      = repeat_mset k (mset r) + mset (rotate s r)"
    using Suc.IH shift by (simp only: map_append mset_append)
  moreover have "mset (rotate s r) = mset r"
    by (metis append_take_drop_id mset_append rotate_drop_take union_commute)
  ultimately show ?case by (simp only: repeat_mset_Suc add.commute)
qed

section \<open>Outbound connections\<close>

definition identify_payload :: "world \<Rightarrow> 16 word \<Rightarrow> uuid \<Rightarrow> byte list" where
  "identify_payload w cpn tx =
     message_header (op_code_value identify) request tx @ put_uuid (w_node_id w) @ put16 cpn
     @ put16 (tcp_port (w_config w)) @ string_bytes ''127.0.0.1''"

definition discovery_request_payload :: "uuid \<Rightarrow> byte list" where
  "discovery_request_payload tx = message_header (op_code_value discovery) request tx"

lemma buffers_identify:
  "buffers (request_add_identify (w_node_id w) cpn tx (tcp_port (w_config w)) ''127.0.0.1'' as_request)
    = [identify_payload w cpn tx]"
  by (simp add: request_add_identify_def identify_payload_def)

lemma length_identify_payload [simp, wire_len]: "length (identify_payload w cpn tx) = 47"
  by (simp add: identify_payload_def)

lemma get_data_identify [simp]:
  "get_data crc (request_add_identify (w_node_id w) cpn tx (tcp_port (w_config w)) ''127.0.0.1'' as_request) h
    = Inr (frame_bytes crc h [identify_payload w cpn tx])"
  by (subst get_data_frame_bytes) (simp_all add: buffers_identify frame_fits_small)

lemma get_data_identify_discovery [simp]:
  "get_data crc (request_add_discovery dx
      (request_add_identify (w_node_id w) cpn tx (tcp_port (w_config w)) ''127.0.0.1'' as_request)) h
    = Inr (frame_bytes crc h [identify_payload w cpn tx, discovery_request_payload dx])"
  by (subst get_data_frame_bytes)
    (simp_all add: request_add_discovery_def buffers_identify frame_fits_small discovery_request_payload_def)

text \<open>
  The session a successful connection creates, and the state once it is registered and has its first
  frame and its read loop posted.
\<close>

definition dialled_session :: "env \<Rightarrow> world \<Rightarrow> session" where
  "dialled_session e w =
     \<lparr>s_type = tcp, s_id = random_uuid e (w_rng w), s_node_id = nil_uuid, s_port = 0, s_host = [],
      s_open = True, s_header_length = 0, s_queue = []\<rparr>"

definition first_payloads :: "env \<Rightarrow> bool \<Rightarrow> 16 word \<Rightarrow> world \<Rightarrow> byte list list" where
  "first_payloads e with_discovery cpn w =
     identify_payload w cpn (random_uuid e (Suc (w_rng w)))
     # (if with_discovery then [discovery_request_payload (random_uuid e (Suc (Suc (w_rng w))))] else [])"

lemma state_connect_effect:
  assumes "container_law e" and "container_wf w"
    and "a = w_next w" and "s = dialled_session e w"
    and "set (w_sessions w) \<subseteq> {..<w_next w}"
  shows "if \<not> resolve_ok e (w_dials w) host port \<or> \<not> dial_ok e (w_dials w) host port
    then state_connect e host port d cpn w = Inr (False, w\<lparr>w_dials := Suc (w_dials w)\<rparr>)
    else if find_by_id w (s_id s) \<noteq> None
    then state_connect e host port d cpn w =
      Inr (False, w\<lparr>w_dials := Suc (w_dials w), w_rng := Suc (w_rng w),
        w_heap := (w_heap w)(a := s), w_next := Suc a\<rparr>)
    else \<exists>w'. state_connect e host port d cpn w = Inr (True, w') \<and>
      find_by_id w' = (find_by_id w)(s_id s \<mapsto> a) \<and> container_wf w' \<and>
      w_heap w' = (w_heap w)(a := s) \<and> w_next w' = Suc a \<and>
      set (w_sessions w') = insert a (set (w_sessions w)) \<and>
      w_posted w' = w_posted w @
        [Run_on_send a (frame_bytes (crc_ccitt e) True (first_payloads e d cpn w)), Run_read_header a] \<and>
      w_pending w' = w_pending w \<and> w_node_id w' = w_node_id w \<and> w_config w' = w_config w"
proof -
  let ?w1 = "w\<lparr>w_dials := Suc (w_dials w), w_rng := Suc (w_rng w), w_heap := (w_heap w)(a := s), w_next := Suc a\<rparr>"
  have new: "new_tcp_session e (w\<lparr>w_dials := Suc (w_dials w)\<rparr>) = (a, ?w1)"
    using assms(3,4) by (simp add: new_tcp_session_def draw_uuid_def allocate_def dialled_session_def)
  have na: "a \<notin> set (w_sessions w)"
    using assms(3,5) by auto
  have find: "find_by_id ?w1 = find_by_id w"
    using na by (intro find_by_id_cong) auto
  have "container_wf ?w1 = container_wf w"
    using na by (intro container_wf_cong) auto
  with assms(2) have wf: "container_wf ?w1" by (simp only:)
  have id: "get_id a ?w1 = s_id s"
    by (simp add: get_id_def)
  show ?thesis
  proof (cases "find_by_id w (s_id s)")
    case (Some b)
    then have "add_session e a ?w1 = (False, ?w1)"
      by (simp add: add_session_def container_insert_def find id)
    with Some new show ?thesis by (simp add: state_connect_def Let_def)
  next
    case None
    have free: "find_by_id ?w1 (get_id a ?w1) = None"
      using None by (simp add: find id)
    then obtain w2 where add: "add_session e a ?w1 = (True, w2)" "w_heap w2 = w_heap ?w1"
      "w_posted w2 = w_posted w" "w_pending w2 = w_pending w" "w_rng w2 = Suc (w_rng w)"
      "w_node_id w2 = w_node_id w" "w_config w2 = w_config w" "w_next w2 = Suc a"
      "set (w_sessions w2) = insert a (set (w_sessions w))"
      using assms(1) by (simp add: add_session_def container_insert_def)
    have reg: "find_by_id w2 = (find_by_id w)(s_id s \<mapsto> a)" "container_wf w2"
      using reg.ins_free [of e ?w1 a] reg.invar_ins [of e ?w1 a] assms(1) wf free add(1)
      by (simp_all add: add_session_def find id)
    define p where "p = [Run_on_send a (frame_bytes (crc_ccitt e) True (first_payloads e d cpn w)), Run_read_header a]"
    have "state_connect e host port d cpn w =
        Inr (True, w2\<lparr>w_rng := (if d then Suc (Suc (Suc (w_rng w))) else Suc (Suc (w_rng w))), w_posted := w_posted w @ p\<rparr>)"
      if "resolve_ok e (w_dials w) host port" "dial_ok e (w_dials w) host port"
      using that new add assms(3,4)
      by (simp add: state_connect_def Let_def draw_uuid_def request_discovery_def drawn_def session_send_eq
          session_start_eq get_type_def dialled_session_def first_payloads_def p_def fun_upd_same del: fun_upd_apply)
    moreover have "find_by_id (w2\<lparr>w_rng := r, w_posted := q\<rparr>) = find_by_id w2"
      "container_wf (w2\<lparr>w_rng := r, w_posted := q\<rparr>) = container_wf w2" for r q
      by (rule find_by_id_cong container_wf_cong; simp)+
    moreover have "state_connect e host port d cpn w = Inr (False, w\<lparr>w_dials := Suc (w_dials w)\<rparr>)"
      if "\<not> resolve_ok e (w_dials w) host port \<or> \<not> dial_ok e (w_dials w) host port"
      using that by (auto simp: state_connect_def Let_def)
    ultimately show ?thesis
      using reg add None by (simp add: p_def)
  qed
qed

text \<open>
  C30. An outbound connection never raises.  It answers false and leaves everything but the counters of
  attempts and UUIDs and the unreachable new object as it was when resolution or connection fails or
  the drawn session id is taken.  Otherwise it answers true: the new TCP session is registered under its
  id, and the frame with the identify request (followed by the discovery request when asked for) is
  posted for sending before the read loop is started.
\<close>

theorem state_connect_spec:
  assumes "container_law e" and "container_wf w"
    and "a = w_next w" and "s = dialled_session e w"
    and "set (w_sessions w) \<subseteq> {..<w_next w}"
  shows "if \<not> resolve_ok e (w_dials w) host port \<or> \<not> dial_ok e (w_dials w) host port
    then state_connect e host port d cpn w = Inr (False, w\<lparr>w_dials := Suc (w_dials w)\<rparr>)
    else if find_by_id w (s_id s) \<noteq> None
    then state_connect e host port d cpn w =
      Inr (False, w\<lparr>w_dials := Suc (w_dials w), w_rng := Suc (w_rng w),
        w_heap := (w_heap w)(a := s), w_next := Suc a\<rparr>)
    else \<exists>w'. state_connect e host port d cpn w = Inr (True, w') \<and>
      find_by_id w' = (find_by_id w)(s_id s \<mapsto> a) \<and> container_wf w' \<and>
      w_heap w' = (w_heap w)(a := s) \<and>
      w_posted w' = w_posted w @
        [Run_on_send a (frame_bytes (crc_ccitt e) True (first_payloads e d cpn w)), Run_read_header a] \<and>
      w_pending w' = w_pending w"
  using state_connect_effect [OF assms, of host port d cpn] by (auto split: if_splits)

section \<open>The properties at a concrete node\<close>

lemma demo_lookup: "find_by_id demo_world 11 = Some 1" "find_by_id demo_world 2 = None"
  by (simp_all add: find_by_id_def)

lemma demo_not_yet_dialled: "find_by_id demo_world (s_id (dialled_session demo_env demo_world)) = None"
  by (simp add: find_by_id_def dialled_session_def)

theorem remove_session_spec_witness:
  "\<exists>w'. remove_session demo_env 11 demo_world = Inr (True, w') \<and>
     find_by_id w' 11 = None \<and> \<not> s_open (w_heap w' 1)"
  using remove_session_spec [OF demo_container_law demo_world_ok(1), of 11]
  by (auto simp: demo_lookup)

theorem state_connect_spec_witness:
  "\<exists>w'. state_connect demo_env ''peer'' 7000 True 2 demo_world = Inr (True, w') \<and>
     find_by_id w' 2 = Some 3 \<and> length (w_posted w') = 2"
  using state_connect_spec [OF demo_container_law demo_world_ok(1) refl refl demo_world_ok(3),
      of "''peer''" 7000 True 2]
  by (auto simp: demo_not_yet_dialled) (simp add: dialled_session_def)

end
