(* ===== verification/Evolution.thy ===== *)
theory Evolution
  imports Node_State
begin

text \<open>
  What every operation of the node keeps: the invariant \<open>node_ok\<close> of the shared state and the relation
  \<open>evolves\<close> between the states before and after.  Both are about the parts the asynchronous machinery
  depends on: identities and write queues of the existing sessions, outstanding operations, and which
  read loops are started.
\<close>

definition node_ok :: "env \<Rightarrow> world \<Rightarrow> bool" where
  "node_ok e w \<longleftrightarrow> container_law e \<and> container_wf w \<and> set (w_sessions w) \<subseteq> {..<w_next w}"

text \<open>How often a list of tasks starts the read side of a session, and whom it sends to.\<close>

fun starts_at :: "addr \<Rightarrow> task \<Rightarrow> bool" where
  "starts_at a (Run_read_header b) \<longleftrightarrow> b = a"
| "starts_at a (Run_ws_accept b) \<longleftrightarrow> b = a"
| "starts_at a _ \<longleftrightarrow> False"

definition starts :: "addr \<Rightarrow> task list \<Rightarrow> nat" where
  "starts a ts = length (filter (starts_at a) ts)"

lemma starts_simps [simp]:
  "starts a [] = 0"
  "starts a (xs @ ys) = starts a xs + starts a ys"
  "starts a (t # ts) = (if starts_at a t then Suc (starts a ts) else starts a ts)"
  by (simp_all add: starts_def)

lemma starts_sends [simp]: "starts a (map (\<lambda>b. Run_on_send b (f b)) bs) = 0"
  by (induction bs) simp_all

lemma starts_connects [simp]: "starts a (map (\<lambda>i. Run_connect (f i) (g i)) is) = 0"
  by (induction "is") simp_all

definition strands_below :: "addr \<Rightarrow> task list \<Rightarrow> bool" where
  "strands_below n ts \<longleftrightarrow> (\<forall>t \<in> set ts. case strand_of t of None \<Rightarrow> True | Some a \<Rightarrow> a < n)"

lemma strands_below_simps [simp]:
  "strands_below n []"
  "strands_below n (xs @ ys) \<longleftrightarrow> strands_below n xs \<and> strands_below n ys"
  "strands_below n (t # ts) \<longleftrightarrow> (case strand_of t of None \<Rightarrow> True | Some a \<Rightarrow> a < n) \<and> strands_below n ts"
  by (auto simp: strands_below_def)

lemma strands_below_mono: "strands_below m ts \<Longrightarrow> m \<le> n \<Longrightarrow> strands_below n ts"
  by (fastforce simp: strands_below_def split: option.splits)

lemma strands_below_sends [simp]:
  "strands_below n (map (\<lambda>b. Run_on_send b (f b)) bs) \<longleftrightarrow> set bs \<subseteq> {..<n}"
  by (auto simp: strands_below_def)

lemma strands_below_connects [simp]: "strands_below n (map (\<lambda>i. Run_connect (f i) (g i)) is)"
  by (auto simp: strands_below_def)

text \<open>The messages among the posted tasks that are for one session, in the order of its strand.\<close>

fun sends_to :: "addr \<Rightarrow> task list \<Rightarrow> byte list list" where
  "sends_to p [] = []"
| "sends_to p (Run_on_send b m # ts) = (if b = p then m # sends_to p ts else sends_to p ts)"
| "sends_to p (t # ts) = sends_to p ts"

lemma sends_to_append [simp]: "sends_to p (ss @ ts) = sends_to p ss @ sends_to p ts"
  by (induction p ss rule: sends_to.induct) simp_all

lemma sends_to_broadcast:
  "distinct bs \<Longrightarrow> sends_to p (map (\<lambda>b. Run_on_send b m) bs) = (if p \<in> set bs then [m] else [])"
  by (induction bs) auto

text \<open>
  The read loop of a TCP session starts with a header, that of a WebSocket session with the handshake.
\<close>

fun task_typed :: "(addr \<Rightarrow> session) \<Rightarrow> task \<Rightarrow> bool" where
  "task_typed h (Run_read_header a) \<longleftrightarrow> s_type (h a) = tcp"
| "task_typed h (Run_ws_accept a) \<longleftrightarrow> s_type (h a) = websocket"
| "task_typed h _ \<longleftrightarrow> True"

lemma task_typed_cong:
  assumes "\<And>a. strand_of t = Some a \<Longrightarrow> s_type (h' a) = s_type (h a)"
  shows "task_typed h' t \<longleftrightarrow> task_typed h t"
  using assms by (cases t) auto

lemma task_typed_sends [simp]: "list_all (task_typed h) (map (\<lambda>b. Run_on_send b (f b)) bs)"
  by (induction bs) simp_all

lemma task_typed_replicate_connect [simp]: "list_all (task_typed h) (replicate n (Run_connect x p))"
  by (induction n) simp_all

text \<open>
  An existing session keeps its type, id and write queue; a new one starts with an empty queue; the
  read side is started at most once, and only of a session allocated on the way.
\<close>

definition same_core :: "session \<Rightarrow> session \<Rightarrow> bool" where
  "same_core s s' \<longleftrightarrow> s_type s' = s_type s \<and> s_id s' = s_id s \<and> s_queue s' = s_queue s"

lemma same_core_refl [simp]: "same_core s s"
  by (simp add: same_core_def)

lemma same_core_trans: "same_core r s \<Longrightarrow> same_core s t \<Longrightarrow> same_core r t"
  by (simp add: same_core_def)

definition evolves :: "world \<Rightarrow> world \<Rightarrow> bool" where
  "evolves w w' \<longleftrightarrow>
     w_next w \<le> w_next w' \<and> w_pending w' = w_pending w \<and>
     w_node_id w' = w_node_id w \<and> w_config w' = w_config w \<and>
     (\<forall>a < w_next w. same_core (w_heap w a) (w_heap w' a)) \<and>
     (\<forall>a. w_next w \<le> a \<longrightarrow> a < w_next w' \<longrightarrow> s_queue (w_heap w' a) = []) \<and>
     (\<exists>ts. w_posted w' = w_posted w @ ts \<and> strands_below (w_next w') ts \<and>
        list_all (task_typed (w_heap w')) ts \<and>
        (\<forall>a. starts a ts \<le> (if w_next w \<le> a \<and> a < w_next w' then 1 else 0)))"

lemma evolves_refl [simp]: "evolves w w"
  by (simp add: evolves_def)

lemma evolves_next: "evolves w w' \<Longrightarrow> w_next w \<le> w_next w'"
  by (simp add: evolves_def)

lemma evolves_trans:
  assumes "evolves u v" and "evolves v w"
  shows "evolves u w"
proof -
  obtain ts where ts: "w_posted v = w_posted u @ ts" "strands_below (w_next v) ts"
    "list_all (task_typed (w_heap v)) ts"
    "\<And>a. starts a ts \<le> (if w_next u \<le> a \<and> a < w_next v then 1 else 0)"
    using assms(1) unfolding evolves_def by blast
  obtain rs where rs: "w_posted w = w_posted v @ rs" "strands_below (w_next w) rs"
    "list_all (task_typed (w_heap w)) rs"
    "\<And>a. starts a rs \<le> (if w_next v \<le> a \<and> a < w_next w then 1 else 0)"
    using assms(2) unfolding evolves_def by blast
  have le: "w_next u \<le> w_next v" "w_next v \<le> w_next w"
    using assms by (simp_all add: evolves_next)
  have "starts a (ts @ rs) \<le> (if w_next u \<le> a \<and> a < w_next w then 1 else 0)" for a
    using ts(4) [of a] rs(4) [of a] le by (auto split: if_splits)
  moreover have "same_core (w_heap u a) (w_heap w a)" if "a < w_next u" for a
    using that assms le same_core_trans unfolding evolves_def by (metis order_less_le_trans)
  moreover have "s_queue (w_heap w a) = []" if "w_next u \<le> a" "a < w_next w" for a
    using that assms unfolding evolves_def same_core_def by (metis not_le)
  moreover have "strands_below (w_next w) (ts @ rs)"
    using ts(2) rs(2) le(2) strands_below_mono by auto
  moreover have "list_all (task_typed (w_heap w)) (ts @ rs)"
  proof -
    have "task_typed (w_heap w) t \<longleftrightarrow> task_typed (w_heap v) t" if "t \<in> set ts" for t
      using that ts(2) assms(2) by (intro task_typed_cong) (auto simp: strands_below_def evolves_def same_core_def)
    then show ?thesis using ts(3) rs(3) by (auto simp: list_all_iff)
  qed
  ultimately show ?thesis
    using assms ts(1) rs(1) le unfolding evolves_def
    by (intro conjI exI [of _ "ts @ rs"]) auto
qed

text \<open>Updates that only touch fields outside the core of a session, and posted sends.\<close>

lemma evolves_update_session:
  assumes "\<And>s. same_core s (f s)"
  shows "evolves w (update_session a f w)"
  using assms by (auto simp: evolves_def update_session_def same_core_def)

lemma node_ok_update_session:
  assumes "\<And>s. same_core s (f s)" and "node_ok e w"
  shows "node_ok e (update_session a f w)"
proof -
  have "container_wf (update_session a f w) = container_wf w"
    using assms(1) by (intro container_wf_cong) (auto simp: update_session_def same_core_def)
  then show ?thesis
    using assms(2) by (simp add: node_ok_def update_session_def)
qed

lemma same_core_updates [simp]:
  "same_core s (s\<lparr>s_node_id := n\<rparr>)" "same_core s (s\<lparr>s_port := p\<rparr>)"
  "same_core s (s\<lparr>s_host := h\<rparr>)" "same_core s (s\<lparr>s_open := q\<rparr>)"
  "same_core s (s\<lparr>s_header_length := l\<rparr>)"
  by (simp_all add: same_core_def)

lemma evolves_setters [intro, simp]:
  "evolves w (set_node_id a n w)" "evolves w (set_port a p w)" "evolves w (set_host a h w)"
  by (simp_all add: set_node_id_def set_port_def set_host_def evolves_update_session)

lemma node_ok_setters [simp]:
  "node_ok e w \<Longrightarrow> node_ok e (set_node_id a n w)"
  "node_ok e w \<Longrightarrow> node_ok e (set_port a p w)"
  "node_ok e w \<Longrightarrow> node_ok e (set_host a h w)"
  by (simp_all add: set_node_id_def set_port_def set_host_def node_ok_update_session)

section \<open>Removal, broadcast and connection evolve the state\<close>

lemma removal_frame_evolves:
  assumes "removal_frame w w'" and "set (w_sessions w) \<subseteq> {..<w_next w}"
  shows "evolves w w'"
proof -
  obtain ts where ts: "w_posted w' = w_posted w @ ts"
    "\<forall>t \<in> set ts. \<exists>b m. t = Run_on_send b m \<and> b \<in> set (w_sessions w) \<and> s_type (w_heap w b) = tcp"
    using assms(1) unfolding removal_frame_def by blast
  have "strands_below (w_next w) ts"
    using ts(2) assms(2) by (fastforce simp: strands_below_def)
  moreover have "starts a ts = 0" for a
    using ts(2) by (fastforce simp: starts_def filter_empty_conv)
  moreover have "list_all (task_typed (w_heap w')) ts"
    using ts(2) by (fastforce simp: list_all_iff)
  moreover have "same_core (w_heap w a) (w_heap w' a)" for a
    using removal_frame_heap [OF assms(1)] by (simp add: same_core_def)
  ultimately show ?thesis
    using assms(1) ts(1) unfolding evolves_def removal_frame_def by auto
qed

lemma remove_session_evolves:
  assumes "node_ok e w"
  obtains b w' where "remove_session e i w = Inr (b, w')" and "node_ok e w'" and "evolves w w'"
    and "set (w_sessions w') \<subseteq> set (w_sessions w)"
proof -
  from assms have ok: "container_law e" "container_wf w" "set (w_sessions w) \<subseteq> {..<w_next w}"
    by (simp_all add: node_ok_def)
  show thesis
    using ok(2)
  proof (cases rule: remove_session_cases [of w i e])
    case absent
    then show thesis by (intro that [of False w]) (simp_all add: assms)
  next
    case (present a w')
    have "container_wf w' = container_wf (container_erase a w)"
      using present(3) removal_frame_heap(1) [OF present(4)]
      by (intro container_wf_cong) (simp_all add: container_erase_def)
    then have "container_wf w'"
      using ok(2) by (simp add: container_wf_erase)
    moreover have "set (w_sessions w') \<subseteq> set (w_sessions w)"
      using present(3) by (simp add: set_remove1_subset)
    moreover have "w_next w' = w_next w"
      using present(4) by (simp add: removal_frame_def)
    ultimately have "node_ok e w'"
      using ok by (auto simp: node_ok_def)
    then show thesis
      using that present(2) removal_frame_evolves [OF present(4) ok(3)]
        \<open>set (w_sessions w') \<subseteq> set (w_sessions w)\<close> by blast
  qed
qed

lemma evolves_broadcast:
  assumes "set (w_sessions w) \<subseteq> {..<w_next w}"
  shows "evolves w (broadcast_to_nodes m w)"
proof -
  have "set (broadcast_targets w) \<subseteq> {..<w_next w}"
    using assms by (auto dest: broadcast_targets_tcp)
  then show ?thesis by (auto simp: evolves_def broadcast_eq)
qed

lemma state_connect_evolves:
  assumes "node_ok e w"
  obtains r w' where "state_connect e host port d cpn w = Inr (r, w')"
    and "node_ok e w'" and "evolves w w'"
proof -
  from assms have ok: "container_law e" "container_wf w" "set (w_sessions w) \<subseteq> {..<w_next w}"
    by (simp_all add: node_ok_def)
  note eff = state_connect_effect [OF ok(1,2) refl refl ok(3), of host port d cpn]
  show thesis
  proof (cases "\<not> resolve_ok e (w_dials w) host port \<or> \<not> dial_ok e (w_dials w) host port")
    case True
    with eff ok show thesis
      by (intro that [of False "w\<lparr>w_dials := Suc (w_dials w)\<rparr>"]) (auto simp: node_ok_def evolves_def container_wf_def)
  next
    case False
    let ?a = "w_next w" and ?s = "dialled_session e w"
    show thesis
    proof (cases "find_by_id w (s_id ?s) = None")
      case True
      with False eff obtain w' where w': "state_connect e host port d cpn w = Inr (True, w')"
        "container_wf w'" "w_heap w' = (w_heap w)(?a := ?s)" "w_next w' = Suc ?a"
        "set (w_sessions w') = insert ?a (set (w_sessions w))"
        "w_posted w' = w_posted w @
          [Run_on_send ?a (frame_bytes (crc_ccitt e) True (first_payloads e d cpn w)), Run_read_header ?a]"
        "w_pending w' = w_pending w" "w_node_id w' = w_node_id w" "w_config w' = w_config w"
        by auto
      have "evolves w w'"
        unfolding evolves_def by (auto simp: w' dialled_session_def)
      moreover have "node_ok e w'"
        using ok w' by (auto simp: node_ok_def)
      ultimately show thesis using that w'(1) by blast
    next
      case False
      let ?w' = "w\<lparr>w_dials := Suc (w_dials w), w_rng := Suc (w_rng w),
        w_heap := (w_heap w)(?a := ?s), w_next := Suc ?a\<rparr>"
      have "container_wf ?w' = container_wf w"
        using ok(3) by (intro container_wf_cong) auto
      then have "node_ok e ?w'"
        using ok by (auto simp: node_ok_def)
      moreover have "evolves w ?w'"
        by (auto simp: evolves_def dialled_session_def)
      ultimately show thesis
        using eff False \<open>\<not> (\<not> _ \<or> \<not> _)\<close> by (intro that [of False ?w']) simp_all
    qed
  qed
qed

lemma demo_node_ok: "node_ok demo_env demo_world"
  using demo_world_ok demo_container_law by (simp add: node_ok_def)

end
