(* ===== verification/Handlers.thy ===== *)
theory Handlers
  imports Evolution
begin

text \<open>
  The operation handlers of \<^verbatim>\<open>include/aurum/handlers/\<close> and the table of 256 handlers the constructor of
  \<^verbatim>\<open>state\<close> fills.  A handler gets the message type, the response builder, the transaction id, the
  payload after them, and the session the frame came from; it returns the builder and the node.  What
  the frame parser relies on is the locale \<open>handler_table\<close> at the end.
\<close>

type_synonym handler_type =
  "message_type \<Rightarrow> base_builder \<Rightarrow> uuid \<Rightarrow> byte list \<Rightarrow> addr \<Rightarrow> world \<Rightarrow> fault + (base_builder \<times> world)"

section \<open>The handlers\<close>

definition non_implemented_handler :: handler_type where
  "non_implemented_handler type builder tx payload a w =
     (if type = response then Inr (builder, w)
      else Inr (response_add_non_implemented (op_code_value op_non_implemented) tx builder, w))"

definition ping_handler :: handler_type where
  "ping_handler type builder tx payload a w =
     (if type = response then Inr (builder, w)
      else Inr (response_add_ping tx (exit_code_value success) builder, w))"

definition whoami_handler :: handler_type where
  "whoami_handler type builder tx payload a w =
     (if type = response then Inr (builder, w)
      else Inr (response_add_whoami tx (get_id a w) (state_get_node_id w) (get_type a w) builder, w))"

text \<open>\<^verbatim>\<open>for (std::uint16_t _i = 1; _i < _connections_per_node; ++_i)\<close> posting one connection each.\<close>

definition post_connects :: "16 word \<Rightarrow> string \<Rightarrow> 16 word \<Rightarrow> world \<Rightarrow> world" where
  "post_connects cpn host port w =
     foldl (\<lambda>v i. v\<lparr>w_posted := w_posted v @ [Run_connect host port]\<rparr>) w [1..<unat cpn]"

definition identify_handler :: handler_type where
  "identify_handler type builder tx payload a w =
     (if get_type a w = websocket then Inr (builder, w)
      else if length payload < 16 then Inr (builder, w)
      else chain (memcpy_at payload 0 16) (\<lambda>node_id.
        let w1 = set_node_id a (get_uuid node_id) w
        in if type = request \<and> length payload \<ge> 20
           then chain (memcpy_at payload 16 2) (\<lambda>cpn_bytes.
             chain (memcpy_at payload 18 2) (\<lambda>port_bytes.
             let cpn = get16 cpn_bytes; port = get16 port_bytes; w2 = set_port a port w1
             in chain (if length payload > 20
                       then chain (memcpy_at payload 20 (length payload - 20)) (\<lambda>host_bytes.
                         let host = bytes_string host_bytes in Inr (host, set_host a host w2))
                       else Inr ([], w2)) (\<lambda>(host, w3).
                let builder' = response_add_identify tx (state_get_node_id w3) builder
                in if cpn > 1 \<and> host \<noteq> [] \<and> port \<noteq> 0
                   then Inr (builder', post_connects cpn host port w3)
                   else Inr (builder', w3))))
           else if type = request \<and> length payload \<ge> 16
           then Inr (response_add_identify tx (state_get_node_id w1) builder, w1)
           else Inr (builder, w1)))"

definition discovered_nodes :: "addr \<Rightarrow> world \<Rightarrow> (string \<times> 16 word) list" where
  "discovered_nodes a w =
     map (\<lambda>t. (get_host t w, get_port t w))
       (filter (\<lambda>t. get_node_id t w \<noteq> get_node_id a w \<and> get_node_id t w \<noteq> state_get_node_id w) (get_sessions w))"

definition already_connected :: "string \<Rightarrow> 16 word \<Rightarrow> world \<Rightarrow> bool" where
  "already_connected host port w \<longleftrightarrow>
     list_ex (\<lambda>t. get_host t w = host \<and> get_port t w = port) (get_sessions w)"

text \<open>
  The loop over the announced nodes: each round reads port and host length, then the host, at the
  cursor, and connects unless a session already has that host and port.
\<close>

fun discovery_loop :: "env \<Rightarrow> byte list \<Rightarrow> nat \<Rightarrow> nat \<Rightarrow> world \<Rightarrow> fault + world" where
  "discovery_loop e payload 0 offset w = Inr w"
| "discovery_loop e payload (Suc k) offset w =
     (if offset + 4 > length payload then Inr w
      else chain (memcpy_at payload offset 2) (\<lambda>port_bytes.
        chain (memcpy_at payload (offset + 2) 2) (\<lambda>size_bytes.
        let port = get16 port_bytes; host_size = unat (get16 size_bytes); offset' = offset + 4
        in if offset' + host_size > length payload then Inr w
           else chain (memcpy_at payload offset' host_size) (\<lambda>host_bytes.
             let host = bytes_string host_bytes
             in chain (if already_connected host port w then Inr w
                       else chain (state_connect e host port False 0 w) (\<lambda>(_, w'). Inr w'))
                  (discovery_loop e payload k (offset' + host_size))))))"

definition discovery_handler :: "env \<Rightarrow> handler_type" where
  "discovery_handler e type builder tx payload a w =
     (if type = request
      then Inr (response_add_discovery tx (discovered_nodes a w) builder, w)
      else if type = response
      then if length payload < 4 then Inr (builder, w)
           else chain (memcpy_at payload 0 4) (\<lambda>count_bytes.
             chain (discovery_loop e payload (unat (get32 count_bytes)) 4 w) (\<lambda>w'. Inr (builder, w')))
      else Inr (builder, w))"

definition join_handler :: "env \<Rightarrow> handler_type" where
  "join_handler e type builder tx payload a w =
     (if get_type a w = websocket \<or> type = response then Inr (builder, w)
      else if length payload < 16 then Inr (builder, w)
      else chain (memcpy_at payload 0 16) (\<lambda>id_bytes.
        let websocket_id = get_uuid id_bytes;
            (n, w1) = new_websocket_session websocket_id w;
            w2 = set_node_id n (get_node_id a w1) w1;
            (_, w3) = add_session e n w2
        in Inr (response_add_join tx (of_nat (count_by_id w3 websocket_id)) builder, w3)))"

text \<open>The loop of the leave handler: erase the element with the id until none is found.\<close>

function erase_by_id :: "uuid \<Rightarrow> nat \<Rightarrow> world \<Rightarrow> nat \<times> world" where
  "erase_by_id i n w =
     (case find_by_id w i of
        None \<Rightarrow> (n, w)
      | Some a \<Rightarrow> erase_by_id i (Suc n) (container_erase a w))"
  by pat_completeness auto
termination
proof (relation "measure (\<lambda>(i, n, w). length (w_sessions w))")
  fix i n w a assume "find_by_id w i = Some a"
  then have "a \<in> set (w_sessions w)"
    by (rule find_by_id_member)
  then show "((i, Suc n, container_erase a w), i, n, w) \<in> measure (\<lambda>(i, n, w). length (w_sessions w))"
    using length_pos_if_in_set [of a "w_sessions w"] by (simp add: container_erase_def length_remove1)
qed simp

declare erase_by_id.simps [simp del]

definition leave_handler :: handler_type where
  "leave_handler type builder tx payload a w =
     (if get_type a w = websocket \<or> type = response then Inr (builder, w)
      else if length payload < 16 then Inr (builder, w)
      else chain (memcpy_at payload 0 16) (\<lambda>id_bytes.
        let (removed, w') = erase_by_id (get_uuid id_bytes) 0 w
        in Inr (response_add_leave tx (of_nat removed) builder, w')))"

text \<open>\<^verbatim>\<open>handlers_.fill(...)\<close> and the six assignments after it.\<close>

definition get_handlers :: "env \<Rightarrow> byte \<Rightarrow> handler_type" where
  "get_handlers e =
     (\<lambda>_. non_implemented_handler)
       (op_code_value ping := ping_handler,
        op_code_value identify := identify_handler,
        op_code_value discovery := discovery_handler e,
        op_code_value join := join_handler e,
        op_code_value leave := leave_handler,
        op_code_value whoami := whoami_handler)"

section \<open>What the parser relies on\<close>

text \<open>
  A handler conforms when, in a node that is well formed, it returns, appends at most one payload to
  the builder, that payload is a response to the transaction, a response gets none, and the node stays
  well formed and evolves.
\<close>

definition response_to :: "uuid \<Rightarrow> byte list \<Rightarrow> bool" where
  "response_to tx r \<longleftrightarrow> 18 \<le> length r \<and> take 18 r = message_header (hd r) response tx"

lemma response_to_header [simp]: "response_to tx (message_header op response tx @ rest)"
  by (simp add: response_to_def message_header_def)

definition conforms :: "env \<Rightarrow> handler_type \<Rightarrow> bool" where
  "conforms e h \<longleftrightarrow>
     (\<forall>type builder tx payload a w. node_ok e w \<longrightarrow> a < w_next w \<longrightarrow>
       (\<exists>builder' w' rs. h type builder tx payload a w = Inr (builder', w') \<and>
          buffers builder' = buffers builder @ rs \<and> length rs \<le> 1 \<and> list_all (response_to tx) rs \<and>
          (type = response \<longrightarrow> rs = []) \<and> node_ok e w' \<and> evolves w w'))"

lemma conformsI:
  assumes "\<And>type builder tx payload a w. node_ok e w \<Longrightarrow> a < w_next w \<Longrightarrow>
    \<exists>builder' w' rs. h type builder tx payload a w = Inr (builder', w') \<and>
      buffers builder' = buffers builder @ rs \<and> length rs \<le> 1 \<and> list_all (response_to tx) rs \<and>
      (type = response \<longrightarrow> rs = []) \<and> node_ok e w' \<and> evolves w w'"
  shows "conforms e h"
  using assms by (simp add: conforms_def)

lemma conforms_non_implemented: "conforms e non_implemented_handler"
  by (rule conformsI)
    (auto simp: non_implemented_handler_def response_add_non_implemented_def)

lemma conforms_ping: "conforms e ping_handler"
  by (rule conformsI) (auto simp: ping_handler_def response_add_ping_def)

lemma conforms_whoami: "conforms e whoami_handler"
  by (rule conformsI) (auto simp: whoami_handler_def response_add_whoami_def)

lemma foldl_post:
  "foldl (\<lambda>v i. v\<lparr>w_posted := w_posted v @ [t]\<rparr>) w is = w\<lparr>w_posted := w_posted w @ replicate (length is) t\<rparr>"
  by (induction "is" arbitrary: w) simp_all

lemma post_connects_eq:
  "post_connects cpn host port w =
     w\<lparr>w_posted := w_posted w @ replicate (unat cpn - 1) (Run_connect host port)\<rparr>"
  by (simp add: post_connects_def foldl_post)

lemma starts_replicate_connect [simp]: "starts a (replicate n (Run_connect h p)) = 0"
  by (induction n) simp_all

lemma strands_below_replicate_connect [simp]: "strands_below n (replicate k (Run_connect h p))"
  by (induction k) simp_all

lemma evolves_post_connects: "evolves w (post_connects cpn host port w)"
  by (auto simp: evolves_def post_connects_eq)

lemma node_ok_post_connects: "node_ok e w \<Longrightarrow> node_ok e (post_connects cpn host port w)"
  by (simp add: node_ok_def post_connects_eq container_wf_def)

text \<open>The identify handler, branch by branch, with its checked reads discharged.\<close>

definition identify_cpn :: "byte list \<Rightarrow> 16 word" where
  "identify_cpn payload = get16 (take 2 (drop 16 payload))"

definition identify_port :: "byte list \<Rightarrow> 16 word" where
  "identify_port payload = get16 (take 2 (drop 18 payload))"

definition identify_host :: "byte list \<Rightarrow> string" where
  "identify_host payload = bytes_string (drop 20 payload)"

definition identified :: "byte list \<Rightarrow> addr \<Rightarrow> world \<Rightarrow> world" where
  "identified payload a w = set_node_id a (get_uuid (take 16 payload)) w"

definition announced :: "byte list \<Rightarrow> addr \<Rightarrow> world \<Rightarrow> world" where
  "announced payload a w =
     (let w' = set_port a (identify_port payload) (identified payload a w)
      in if identify_host payload = [] then w' else set_host a (identify_host payload) w')"

lemma identify_host_eq_Nil: "identify_host payload = [] \<longleftrightarrow> length payload \<le> 20"
  by (simp add: identify_host_def bytes_string_def)

lemma identify_handler_eq:
  "identify_handler type builder tx payload a w =
     Inr (if get_type a w = websocket \<or> length payload < 16 then (builder, w)
      else if type \<noteq> request then (builder, identified payload a w)
      else if length payload < 20
      then (response_add_identify tx (w_node_id w) builder, identified payload a w)
      else (response_add_identify tx (w_node_id w) builder,
            if identify_cpn payload > 1 \<and> identify_host payload \<noteq> [] \<and> identify_port payload \<noteq> 0
            then post_connects (identify_cpn payload) (identify_host payload) (identify_port payload)
                   (announced payload a w)
            else announced payload a w))"
  by (simp add: identify_handler_def Let_def identified_def announced_def identify_cpn_def
      identify_port_def identify_host_eq_Nil set_node_id_def set_port_def set_host_def update_session_def)
    (simp add: identify_host_def bytes_string_def)

lemma evolves_identified: "evolves w (identified payload a w)"
  by (simp add: identified_def)

lemma node_ok_identified: "node_ok e w \<Longrightarrow> node_ok e (identified payload a w)"
  by (simp add: identified_def)

lemma evolves_announced: "evolves w (announced payload a w)"
proof -
  have "evolves w (set_port a (identify_port payload) (identified payload a w))"
    by (rule evolves_trans [OF evolves_identified [of w payload a]]) simp
  then show ?thesis
    by (auto simp: announced_def Let_def intro: evolves_trans)
qed

lemma node_ok_announced: "node_ok e w \<Longrightarrow> node_ok e (announced payload a w)"
  by (simp add: announced_def Let_def node_ok_identified)

lemma conforms_identify: "conforms e identify_handler"
proof (rule conformsI)
  fix type builder tx payload a w
  assume ok: "node_ok e w"
  obtain b' w' where h: "identify_handler type builder tx payload a w = Inr (b', w')"
    by (metis identify_handler_eq surj_pair)
  have "buffers b' = buffers builder \<or>
      (type = request \<and> buffers b' = buffers builder @ [message_header (op_code_value identify) response tx @ put_uuid (w_node_id w)])"
    using h by (auto simp: identify_handler_eq response_add_identify_def split: if_splits)
  moreover have "evolves w w'"
    using h by (auto simp: identify_handler_eq evolves_identified evolves_announced
        intro: evolves_trans [OF evolves_announced evolves_post_connects] split: if_splits)
  moreover have "node_ok e w'"
    using h ok by (auto simp: identify_handler_eq node_ok_identified node_ok_announced
        node_ok_post_connects split: if_splits)
  ultimately show "\<exists>builder' w' rs. identify_handler type builder tx payload a w = Inr (builder', w') \<and>
      buffers builder' = buffers builder @ rs \<and> length rs \<le> 1 \<and> list_all (response_to tx) rs \<and>
      (type = response \<longrightarrow> rs = []) \<and> node_ok e w' \<and> evolves w w'"
    using h by auto
qed

text \<open>The discovery loop returns, whatever the payload announces.\<close>

lemma discovery_loop_evolves:
  assumes "node_ok e w"
  shows "\<exists>w'. discovery_loop e payload k offset w = Inr w' \<and> node_ok e w' \<and> evolves w w'"
  using assms
proof (induction k arbitrary: offset w)
  case 0
  then show ?case by simp
next
  case (Suc k)
  show ?case
  proof (cases "offset + 4 > length payload")
    case True
    with Suc.prems show ?thesis by simp
  next
    case False
    let ?size = "unat (get16 (take 2 (drop (offset + 2) payload)))"
    let ?port = "get16 (take 2 (drop offset payload))"
    let ?host = "bytes_string (take ?size (drop (offset + 4) payload))"
    show ?thesis
    proof (cases "offset + 4 + ?size > length payload")
      case True
      with False Suc.prems show ?thesis by simp
    next
      case fits: False
      obtain r w1 where w1: "state_connect e ?host ?port False 0 w = Inr (r, w1)" "node_ok e w1" "evolves w w1"
        using state_connect_evolves [OF Suc.prems] by blast
      let ?next = "if already_connected ?host ?port w then w else w1"
      have "node_ok e ?next" "evolves w ?next"
        using w1 Suc.prems by simp_all
      moreover have "discovery_loop e payload (Suc k) offset w
          = discovery_loop e payload k (offset + 4 + ?size) ?next"
        using False fits w1(1) by (simp add: Let_def)
      moreover obtain w' where "discovery_loop e payload k (offset + 4 + ?size) ?next = Inr w'"
        "node_ok e w'" "evolves ?next w'"
        using Suc.IH [OF \<open>node_ok e ?next\<close>] by blast
      ultimately show ?thesis
        by (intro exI [of _ w']) (simp only: evolves_trans [of w ?next w'])
    qed
  qed
qed

text \<open>What holds of the connections it makes, taken together, holds of the loop.\<close>

lemma discovery_loop_induct:
  assumes refl: "\<And>w. R w w" and trans: "\<And>u v w. R u v \<Longrightarrow> R v w \<Longrightarrow> R u w"
    and connects: "\<And>w host port r v. node_ok e w \<Longrightarrow> state_connect e host port False 0 w = Inr (r, v) \<Longrightarrow> R w v"
    and "node_ok e w" and "discovery_loop e payload k offset w = Inr w'"
  shows "R w w'"
  using assms(4,5)
proof (induction k arbitrary: offset w)
  case 0
  then show ?case by (simp add: refl)
next
  case (Suc k)
  let ?size = "unat (get16 (take 2 (drop (offset + 2) payload)))"
  let ?port = "get16 (take 2 (drop offset payload))"
  let ?host = "bytes_string (take ?size (drop (offset + 4) payload))"
  show ?case
  proof (cases "offset + 4 > length payload \<or> offset + 4 + ?size > length payload")
    case True
    then have "w' = w" using Suc.prems(2) by (auto simp: Let_def split: if_splits)
    then show ?thesis by (simp add: refl)
  next
    case False
    obtain r v where v: "state_connect e ?host ?port False 0 w = Inr (r, v)" "node_ok e v"
      using state_connect_evolves [OF Suc.prems(1)] by blast
    let ?next = "if already_connected ?host ?port w then w else v"
    from False have "\<not> offset + 4 > length payload" and "\<not> offset + 4 + ?size > length payload"
      by simp_all
    then have "discovery_loop e payload (Suc k) offset w = discovery_loop e payload k (offset + 4 + ?size) ?next"
      using v(1) by (simp add: Let_def)
    then have "discovery_loop e payload k (offset + 4 + ?size) ?next = Inr w'"
      using Suc.prems(2) by (simp only:)
    then have "R ?next w'"
      using Suc.IH [of ?next] v(2) Suc.prems(1) by simp
    moreover have "R w ?next"
      using connects [OF Suc.prems(1) v(1)] by (simp add: refl)
    ultimately show ?thesis by (rule trans [rotated])
  qed
qed

lemma conforms_discovery: "conforms e (discovery_handler e)"
proof (rule conformsI)
  fix type builder tx payload a w
  assume ok: "node_ok e w"
  show "\<exists>builder' w' rs. discovery_handler e type builder tx payload a w = Inr (builder', w') \<and>
      buffers builder' = buffers builder @ rs \<and> length rs \<le> 1 \<and> list_all (response_to tx) rs \<and>
      (type = response \<longrightarrow> rs = []) \<and> node_ok e w' \<and> evolves w w'"
    using ok discovery_loop_evolves [OF ok, of payload "unat (get32 (take 4 payload))" 4]
    by (auto simp: discovery_handler_def response_add_discovery_def Let_def)
qed

section \<open>Join and leave\<close>

text \<open>The stand-in session the join handler makes for a WebSocket client of another node.\<close>

definition stand_in :: "uuid \<Rightarrow> uuid \<Rightarrow> session" where
  "stand_in websocket_id node_id =
     \<lparr>s_type = websocket, s_id = websocket_id, s_node_id = node_id, s_port = 0, s_host = [],
      s_open = False, s_header_length = 0, s_queue = []\<rparr>"

definition with_stand_in :: "uuid \<Rightarrow> addr \<Rightarrow> world \<Rightarrow> world" where
  "with_stand_in i a w =
     w\<lparr>w_next := Suc (w_next w), w_heap := (w_heap w)(w_next w := stand_in i (get_node_id a w))\<rparr>"

definition joined :: "env \<Rightarrow> uuid \<Rightarrow> addr \<Rightarrow> world \<Rightarrow> world" where
  "joined e i a w = snd (add_session e (w_next w) (with_stand_in i a w))"

lemma join_handler_eq:
  assumes "a < w_next w"
  shows "join_handler e type builder tx payload a w =
     Inr (if get_type a w = websocket \<or> type = response \<or> length payload < 16 then (builder, w)
      else (response_add_join tx (of_nat (count_by_id (joined e (get_uuid (take 16 payload)) a w)
              (get_uuid (take 16 payload)))) builder,
            joined e (get_uuid (take 16 payload)) a w))"
  using assms
  by (simp add: join_handler_def Let_def new_websocket_session_def allocate_def set_node_id_def
      update_session_def get_node_id_def joined_def with_stand_in_def stand_in_def split_beta)

lemma with_stand_in_same:
  assumes "set (w_sessions w) \<subseteq> {..<w_next w}"
  shows "find_by_id (with_stand_in i a w) = find_by_id w"
    and "container_wf (with_stand_in i a w) = container_wf w"
    and "get_id (w_next w) (with_stand_in i a w) = i"
  using assms
  by (auto simp: with_stand_in_def get_id_def stand_in_def
      intro!: find_by_id_cong container_wf_cong)

lemma joined_registry:
  assumes "node_ok e w"
  shows "find_by_id (joined e i a w) =
      (case find_by_id w i of None \<Rightarrow> (find_by_id w)(i \<mapsto> w_next w) | Some _ \<Rightarrow> find_by_id w)"
    and "node_ok e (joined e i a w)" and "evolves w (joined e i a w)"
proof -
  from assms have ok: "container_law e" "container_wf w" "set (w_sessions w) \<subseteq> {..<w_next w}"
    by (simp_all add: node_ok_def)
  let ?v = "with_stand_in i a w"
  have v: "find_by_id ?v = find_by_id w" "container_wf ?v" "get_id (w_next w) ?v = i"
    using with_stand_in_same [OF ok(3)] ok(2) by simp_all
  have "find_by_id (joined e i a w) k = (if k = i \<and> find_by_id w k = None then Some (w_next w) else find_by_id w k)" for k
    by (simp only: joined_def add_session_def reg.lookup_ins [OF conjI [OF ok(1) v(2)]] v(1,3))
  then show "find_by_id (joined e i a w) =
      (case find_by_id w i of None \<Rightarrow> (find_by_id w)(i \<mapsto> w_next w) | Some _ \<Rightarrow> find_by_id w)"
    by (auto simp: fun_eq_iff split: option.split)
  have wf: "container_wf (joined e i a w)"
    using reg.invar_ins [of e ?v "w_next w"] ok(1) v by (simp add: joined_def add_session_def)
  have j: "w_next (joined e i a w) = Suc (w_next w)" "w_heap (joined e i a w) = w_heap ?v"
    "w_posted (joined e i a w) = w_posted w" "w_pending (joined e i a w) = w_pending w"
    "w_node_id (joined e i a w) = w_node_id w" "w_config (joined e i a w) = w_config w"
    "set (w_sessions (joined e i a w)) \<subseteq> insert (w_next w) (set (w_sessions w))"
    using ok(1) by (auto simp: joined_def add_session_def container_insert_def with_stand_in_def split: option.splits)
  show "node_ok e (joined e i a w)"
    using ok wf j by (auto simp: node_ok_def)
  show "evolves w (joined e i a w)"
    unfolding evolves_def j by (auto simp: with_stand_in_def stand_in_def)
qed

lemma joined_count:
  assumes "node_ok e w"
  shows "count_by_id (joined e i a w) i = 1"
  using joined_registry [OF assms, of i a]
  by (simp add: node_ok_def count_by_id_eq split: option.splits)

lemma conforms_join: "conforms e (join_handler e)"
  by (rule conformsI)
    (auto simp: join_handler_eq response_add_join_def joined_registry)

lemma erase_by_id_eq:
  assumes "container_wf w"
  shows "erase_by_id i n w =
    (case find_by_id w i of None \<Rightarrow> (n, w) | Some a \<Rightarrow> (Suc n, container_erase a w))"
proof (cases "find_by_id w i")
  case None
  then show ?thesis by (subst erase_by_id.simps) simp
next
  case (Some a)
  then have "find_by_id (container_erase a w) i = None"
    using assms by (simp add: find_by_id_erase)
  then show ?thesis
    using Some by (subst erase_by_id.simps) (simp add: erase_by_id.simps)
qed

definition left_by :: "uuid \<Rightarrow> world \<Rightarrow> world" where
  "left_by i w = (case find_by_id w i of None \<Rightarrow> w | Some a \<Rightarrow> container_erase a w)"

lemma leave_handler_eq:
  assumes "container_wf w"
  shows "leave_handler type builder tx payload a w =
     Inr (if get_type a w = websocket \<or> type = response \<or> length payload < 16 then (builder, w)
      else (response_add_leave tx (of_nat (count_by_id w (get_uuid (take 16 payload)))) builder,
            left_by (get_uuid (take 16 payload)) w))"
  using assms
  by (auto simp: leave_handler_def erase_by_id_eq count_by_id_eq left_by_def split: option.split)

lemma left_registry:
  assumes "node_ok e w"
  shows "find_by_id (left_by i w) = (find_by_id w)(i := None)"
    and "node_ok e (left_by i w)" and "evolves w (left_by i w)"
proof -
  from assms have ok: "container_law e" "container_wf w" "set (w_sessions w) \<subseteq> {..<w_next w}"
    by (simp_all add: node_ok_def)
  show "find_by_id (left_by i w) = (find_by_id w)(i := None)"
    using ok(2) by (cases "find_by_id w i") (auto simp: left_by_def find_by_id_erase)
  show "node_ok e (left_by i w)"
  proof (cases "find_by_id w i")
    case (Some a)
    have "set (w_sessions (container_erase a w)) \<subseteq> {..<w_next (container_erase a w)}"
      using ok(3) set_remove1_subset [of a "w_sessions w"] by (auto simp: container_erase_def)
    then show ?thesis
      using Some ok by (simp add: left_by_def node_ok_def container_wf_erase)
  qed (simp add: left_by_def assms)
  show "evolves w (left_by i w)"
    by (auto simp: left_by_def evolves_def container_erase_def split: option.split)
qed

lemma conforms_leave: "conforms e leave_handler"
  by (rule conformsI)
    (auto simp: leave_handler_eq node_ok_def [THEN iffD1] response_add_leave_def left_registry)

text \<open>Every entry of the table conforms.\<close>

lemma conforms_get_handlers: "conforms e (get_handlers e opcode)"
  by (simp add: get_handlers_def conforms_non_implemented conforms_ping conforms_identify
      conforms_discovery conforms_join conforms_leave conforms_whoami)

section \<open>The interface of the handler table\<close>

text \<open>
  What the parser may assume of the table it dispatches into, over any invariant and any preorder of
  states.
\<close>

locale handler_table =
  fixes ok :: "world \<Rightarrow> bool"
    and rel :: "world \<Rightarrow> world \<Rightarrow> bool"
    and table :: "byte \<Rightarrow> handler_type"
  assumes rel_refl: "rel w w"
    and rel_trans: "rel u v \<Longrightarrow> rel v w \<Longrightarrow> rel u w"
    and rel_next: "rel v w \<Longrightarrow> w_next v \<le> w_next w"
    and answers: "ok w \<Longrightarrow> a < w_next w \<Longrightarrow>
      \<exists>builder' w' rs. table opcode type builder tx payload a w = Inr (builder', w') \<and>
        buffers builder' = buffers builder @ rs \<and> length rs \<le> 1 \<and> list_all (response_to tx) rs \<and>
        (type = response \<longrightarrow> rs = []) \<and> ok w' \<and> rel w w'"

interpretation table: handler_table "node_ok e" evolves "get_handlers e" for e
proof unfold_locales
  show "evolves w w" for w by simp
  show "evolves u v \<Longrightarrow> evolves v w \<Longrightarrow> evolves u w" for u v w by (rule evolves_trans)
  show "evolves v w \<Longrightarrow> w_next v \<le> w_next w" for v w by (rule evolves_next)
qed (rule conforms_get_handlers [unfolded conforms_def, rule_format])

end
