(* ===== verification/Session_Kernel.thy ===== *)
theory Session_Kernel
  imports Handlers
begin

text \<open>
  \<^verbatim>\<open>session_kernel::handle\<close>: the parser of inbound frames.  It works with a cursor into the frame and
  reads with \<^verbatim>\<open>memcpy\<close>; every read is a checked one here, so that a read outside the frame would be the
  fault \<open>Out_of_bounds\<close>.  The parser is related to \<open>process\<close>, which handles a list of messages without a
  cursor.
\<close>

section \<open>The parser\<close>

fun read_lengths :: "byte list \<Rightarrow> nat \<Rightarrow> nat \<Rightarrow> fault + (16 word list \<times> nat)" where
  "read_lengths frame 0 offset = Inr ([], offset)"
| "read_lengths frame (Suc n) offset =
     chain (memcpy_at frame offset 2) (\<lambda>len_bytes.
     chain (read_lengths frame n (offset + 2)) (\<lambda>(lengths, offset').
       Inr (get16 len_bytes # lengths, offset')))"

fun handle_requests ::
    "(byte \<Rightarrow> handler_type) \<Rightarrow> byte list \<Rightarrow> 16 word list \<Rightarrow> nat \<Rightarrow> base_builder \<Rightarrow> addr \<Rightarrow> world \<Rightarrow>
     fault + (base_builder option \<times> world)" where
  "handle_requests handlers frame [] offset builder a w = Inr (Some builder, w)"
| "handle_requests handlers frame (len # lengths) offset builder a w =
     (if length frame - 2 - offset < unat len then Inr (None, w)
      else if unat len < 1 * 2 + 16 then Inr (None, w)
      else
        chain (memcpy_at frame offset 1) (\<lambda>opcode.
        chain (memcpy_at frame (offset + 1) 1) (\<lambda>type.
        chain (memcpy_at frame (offset + 1 * 2) 16) (\<lambda>tx.
        chain (memcpy_at frame (offset + 1 * 2 + 16) (unat len - (1 * 2 + 16))) (\<lambda>payload.
        chain (handlers (hd opcode) (hd type) builder (get_uuid tx) payload a w) (\<lambda>(builder', w').
          handle_requests handlers frame lengths (offset + unat len) builder' a w'))))))"

definition session_kernel_handle ::
    "env \<Rightarrow> byte list option \<Rightarrow> addr \<Rightarrow> world \<Rightarrow> fault + (byte list option \<times> world)" where
  "session_kernel_handle e frame_ptr a w =
     (case frame_ptr of
        None \<Rightarrow> Inr (None, w)
      | Some frame \<Rightarrow>
          if length frame < 2 then Inr (None, w)
          else
            chain (memcpy_at frame 0 (length frame - 2)) (\<lambda>checked.
            chain (memcpy_at frame (length frame - 2) 2) (\<lambda>expected_crc.
            if crc_ccitt e checked \<noteq> get16 expected_crc then Inr (None, w)
            else if length frame - 2 < 2 then Inr (None, w)
            else
              chain (memcpy_at frame 0 2) (\<lambda>count_bytes.
              let number_of_requests = unat (get16 count_bytes); offset = 2
              in if length frame - 2 - offset < number_of_requests * 2 then Inr (None, w)
                 else
                   chain (read_lengths frame number_of_requests offset) (\<lambda>(lengths, offset').
                   chain (handle_requests (get_handlers e) frame lengths offset' as_response a w) (\<lambda>(result, w').
                     case result of
                       None \<Rightarrow> Inr (None, w')
                     | Some builder \<Rightarrow>
                         chain (get_buffers (crc_ccitt e) builder (get_type a w' = tcp)) (\<lambda>out.
                           Inr (Some out, w'))))))))"

section \<open>Messages without a cursor\<close>

text \<open>
  \<open>process\<close> runs the handlers over raw messages in order; a message shorter than its header ends the
  frame without an answer.  \<open>kernel_spec\<close> answers with the frame of the collected responses.
\<close>

fun process ::
    "(byte \<Rightarrow> handler_type) \<Rightarrow> byte list list \<Rightarrow> base_builder \<Rightarrow> addr \<Rightarrow> world \<Rightarrow>
     fault + (base_builder option \<times> world)" where
  "process handlers [] builder a w = Inr (Some builder, w)"
| "process handlers (m # ms) builder a w =
     (if length m < 18 then Inr (None, w)
      else chain (handlers (m ! 0) (m ! 1) builder (get_uuid (take 16 (drop 2 m))) (drop 18 m) a w)
             (\<lambda>(builder', w'). process handlers ms builder' a w'))"

definition kernel_spec ::
    "env \<Rightarrow> byte list list \<Rightarrow> addr \<Rightarrow> world \<Rightarrow> fault + (byte list option \<times> world)" where
  "kernel_spec e messages a w =
     chain (process (get_handlers e) messages as_response a w) (\<lambda>(result, w').
       case result of
         None \<Rightarrow> Inr (None, w')
       | Some builder \<Rightarrow>
           chain (get_data (crc_ccitt e) builder (get_type a w' = tcp)) (\<lambda>out. Inr (Some out, w')))"

section \<open>Parsing a built frame\<close>

definition short :: "byte list \<Rightarrow> bool" where
  "short m \<longleftrightarrow> length m < 65536"

lemma unat_len16 [simp]: "short m \<Longrightarrow> unat (of_nat (length m) :: 16 word) = length m"
  by (simp add: unat_of_nat short_def)

lemma read_lengths_table:
  "read_lengths (pre @ concat (map (\<lambda>b. put16 (f b)) bs) @ post) (length bs) (length pre) =
     Inr (map f bs, length pre + 2 * length bs)"
proof (induction bs arbitrary: pre)
  case Nil
  then show ?case by simp
next
  case (Cons b bs)
  let ?rest = "concat (map (\<lambda>b. put16 (f b)) bs) @ post"
  have "read_lengths ((pre @ put16 (f b)) @ ?rest) (length bs) (length (pre @ put16 (f b))) =
      Inr (map f bs, length (pre @ put16 (f b)) + 2 * length bs)"
    by (rule Cons.IH)
  moreover have "memcpy_at (pre @ put16 (f b) @ ?rest) (length pre) 2 = Inr (put16 (f b))"
    by (rule u16.memcpy_put)
  ultimately show ?case by simp
qed

lemma memcpy_at_skip:
  "memcpy_at (pre @ m @ post) (length pre + k) n = memcpy_at (m @ post) k n"
  by (simp add: memcpy_at_def)

lemma memcpy_at_within:
  "k + n \<le> length m \<Longrightarrow> memcpy_at (m @ post) k n = Inr (take n (drop k m))"
  by (simp add: memcpy_at_def)

lemma handle_requests_process:
  assumes "list_all short ms" and "2 \<le> length tail"
  shows "handle_requests hs (pre @ concat ms @ tail) (map (\<lambda>m. of_nat (length m)) ms) (length pre) builder a w
    = process hs ms builder a w"
  using assms(1)
proof (induction ms arbitrary: pre builder w)
  case Nil
  then show ?case by simp
next
  case (Cons m ms)
  let ?frame = "pre @ m @ concat ms @ tail"
  have len: "unat (of_nat (length m) :: 16 word) = length m"
    using Cons.prems by simp
  show ?case
  proof (cases "length m < 18")
    case True
    then show ?thesis using assms(2) by (simp add: len)
  next
    case False
    have rd: "memcpy_at ?frame (length pre + k) n = Inr (take n (drop k m))" if "k + n \<le> length m" for k n
      using that by (simp only: memcpy_at_skip memcpy_at_within)
    have heads: "hd (take 1 (drop k m)) = m ! k" if "k < 18" for k
      using False that by (simp add: hd_take hd_drop_conv_nth)
    note heads = heads [of 0] heads [of 1]
    have "handle_requests hs ((pre @ m) @ concat ms @ tail) (map (\<lambda>m. of_nat (length m)) ms)
        (length (pre @ m)) b a v = process hs ms b a v" for b v
      using Cons.prems by (intro Cons.IH) simp
    moreover have "\<not> length ?frame - 2 - length pre < length m"
      using assms(2) by simp
    ultimately show ?thesis
      using False rd [of 0 1] rd [of 1 1] rd [of 2 16] rd [of 18 "length m - 18"] heads
      by (simp add: len case_prod_unfold)
  qed
qed

lemma get_buffers_eq: "get_buffers = get_data"
  by (intro ext) (simp add: get_buffers_def)

lemma kernel_handle_frame:
  assumes "list_all short ms" and "length ms \<le> 65535"
  shows "session_kernel_handle e (Some (frame_bytes (crc_ccitt e) False ms)) a w = kernel_spec e ms a w"
proof -
  let ?body = "frame_body ms" and ?crc = "put16 (crc_ccitt e (frame_body ms))"
  let ?lens = "concat (map (\<lambda>m. put16 (of_nat (length m))) ms)"
  have n: "unat (of_nat (length ms) :: 16 word) = length ms"
    using assms(2) by (simp add: unat_of_nat)
  have frame: "frame_bytes (crc_ccitt e) False ms = ?body @ ?crc"
    by (simp add: frame_bytes_def)
  have shape: "?body @ ?crc = put16 (of_nat (length ms)) @ ?lens @ concat ms @ ?crc"
    by (simp add: frame_body_def)
  have count: "memcpy_at (?body @ ?crc) 0 2 = Inr (put16 (of_nat (length ms)))"
    unfolding shape using u16.memcpy_put [of "[]"] by simp
  have lens: "read_lengths (?body @ ?crc) (length ms) 2 =
      Inr (map (\<lambda>m. of_nat (length m)) ms, 2 + 2 * length ms)"
    unfolding shape
    using read_lengths_table [of "put16 (of_nat (length ms))" "\<lambda>m. of_nat (length m)" ms "concat ms @ ?crc"]
    by simp
  have req: "handle_requests (get_handlers e) (?body @ ?crc) (map (\<lambda>m. of_nat (length m)) ms)
      (2 + 2 * length ms) as_response a w = process (get_handlers e) ms as_response a w"
    unfolding shape
    using handle_requests_process [OF assms(1), of ?crc "get_handlers e" "put16 (of_nat (length ms)) @ ?lens"]
    by (simp add: length_length_table)
  have "memcpy_at (?body @ ?crc) 0 (length ?body) = Inr ?body"
    "memcpy_at (?body @ ?crc) (length ?body) 2 = Inr ?crc"
    by (simp_all add: memcpy_at_def)
  moreover have "\<not> length ?body - 2 < length ms * 2" "\<not> length ?body < 2"
    by (simp_all add: length_frame_body)
  ultimately show ?thesis
    unfolding frame kernel_spec_def session_kernel_handle_def
    by (simp add: count n lens req Let_def get_buffers_eq case_prod_unfold
        del: add_2_eq_Suc add_2_eq_Suc' cong: option.case_cong)
qed

section \<open>Any frame: bounds, faults and answers\<close>

lemma read_lengths_in_bounds:
  "offset + 2 * n \<le> length frame \<Longrightarrow>
   \<exists>ls. read_lengths frame n offset = Inr (ls, offset + 2 * n) \<and> length ls = n"
proof (induction n arbitrary: offset)
  case 0
  then show ?case by simp
next
  case (Suc n)
  then obtain ls where "read_lengths frame n (offset + 2) = Inr (ls, offset + 2 + 2 * n)" "length ls = n"
    using Suc.IH [of "offset + 2"] by auto
  with Suc.prems show ?case by simp
qed

text \<open>A response of some transaction.\<close>

definition is_response :: "byte list \<Rightarrow> bool" where
  "is_response r \<longleftrightarrow> 18 \<le> length r \<and> r ! 1 = response"

lemma response_to_is_response: "response_to tx r \<Longrightarrow> is_response r"
proof -
  assume r: "response_to tx r"
  have "r ! 1 = take 18 r ! 1"
    by simp
  also have "\<dots> = response"
    using r by (simp only: response_to_def) (simp add: message_header_def)
  finally show "is_response r"
    using r by (simp add: is_response_def response_to_def)
qed

lemma list_all_is_response: "list_all (response_to tx) rs \<Longrightarrow> list_all is_response rs"
  by (auto simp: list_all_iff response_to_is_response)

context handler_table
begin

lemma handle_requests_total:
  assumes "ok w" and "a < w_next w" and "2 \<le> length frame" and "offset \<le> length frame - 2"
  shows "\<exists>r w'. handle_requests table frame ls offset builder a w = Inr (r, w') \<and> ok w' \<and> rel w w' \<and>
    (case r of None \<Rightarrow> True
     | Some builder' \<Rightarrow> \<exists>rs. buffers builder' = buffers builder @ rs \<and> length rs \<le> length ls \<and>
         list_all is_response rs)"
  using assms
proof (induction ls arbitrary: offset builder w)
  case Nil
  then show ?case by (simp add: rel_refl)
next
  case (Cons l ls)
  show ?case
  proof (cases "length frame - 2 - offset < unat l \<or> unat l < 18")
    case True
    with Cons.prems show ?thesis by (auto simp: rel_refl)
  next
    case False
    let ?tx = "get_uuid (take 16 (drop (offset + 2) frame))"
    let ?payload = "take (unat l - 18) (drop (offset + 18) frame)"
    let ?op = "hd (take 1 (drop offset frame))" and ?type = "hd (take 1 (drop (offset + 1) frame))"
    obtain b1 w1 rs1 where h: "table ?op ?type builder ?tx ?payload a w = Inr (b1, w1)"
      "buffers b1 = buffers builder @ rs1" "length rs1 \<le> 1" "list_all (response_to ?tx) rs1"
      "ok w1" "rel w w1"
      using answers [OF Cons.prems(1,2)] by blast
    have next1: "a < w_next w1"
      using rel_next [OF h(6)] Cons.prems(2) by simp
    have "offset + unat l \<le> length frame - 2"
      using False Cons.prems(4) by linarith
    from Cons.IH [OF h(5) next1 Cons.prems(3) this, of b1] obtain r w2 where r:
      "handle_requests table frame ls (offset + unat l) b1 a w1 = Inr (r, w2)" "ok w2" "rel w1 w2"
      "case r of None \<Rightarrow> True
       | Some b2 \<Rightarrow> \<exists>rs. buffers b2 = buffers b1 @ rs \<and> length rs \<le> length ls \<and> list_all is_response rs"
      by blast
    have rd: "memcpy_at frame i n = Inr (take n (drop i frame))" if "i + n \<le> offset + unat l" for i n
    proof -
      have "i + n \<le> length frame"
        using that False Cons.prems(3,4) by linarith
      then show ?thesis by (simp add: memcpy_at_def)
    qed
    have reads: "memcpy_at frame offset 1 = Inr (take 1 (drop offset frame))"
      "memcpy_at frame (offset + 1) 1 = Inr (take 1 (drop (offset + 1) frame))"
      "memcpy_at frame (offset + 1 * 2) 16 = Inr (take 16 (drop (offset + 2) frame))"
      "memcpy_at frame (offset + 1 * 2 + 16) (unat l - (1 * 2 + 16)) = Inr ?payload"
      using False by (simp_all add: rd add.commute)
    have "handle_requests table frame (l # ls) offset builder a w = Inr (r, w2)"
      using False unfolding handle_requests.simps reads by (simp add: h(1)[simplified] r(1))
    moreover have "case r of None \<Rightarrow> True
      | Some b2 \<Rightarrow> \<exists>rs. buffers b2 = buffers builder @ rs \<and> length rs \<le> length (l # ls) \<and> list_all is_response rs"
    proof (cases r)
      case (Some b2)
      with r(4) obtain rs where "buffers b2 = buffers b1 @ rs" "length rs \<le> length ls" "list_all is_response rs"
        by auto
      with Some h(2,3,4) show ?thesis
        by (auto intro!: exI [of _ "rs1 @ rs"] simp: list_all_is_response)
    qed simp
    ultimately show ?thesis
      using r(2) rel_trans [OF h(6) r(3)] by blast
  qed
qed

text \<open>Responses alone get no answer.\<close>

lemma process_responses:
  assumes "ok w" and "a < w_next w" and "list_all is_response ms"
  shows "\<exists>builder' w'. process table ms builder a w = Inr (Some builder', w') \<and>
    buffers builder' = buffers builder \<and> ok w' \<and> rel w w'"
  using assms
proof (induction ms arbitrary: builder w)
  case Nil
  then show ?case by (simp add: rel_refl)
next
  case (Cons m ms)
  then have m: "18 \<le> length m" "m ! 1 = response"
    by (simp_all add: is_response_def)
  obtain b1 w1 where h: "table (m ! 0) (m ! 1) builder (get_uuid (take 16 (drop 2 m))) (drop 18 m) a w = Inr (b1, w1)"
    "buffers b1 = buffers builder" "ok w1" "rel w w1"
    using answers [OF Cons.prems(1,2), of "m ! 0" "m ! 1" builder "get_uuid (take 16 (drop 2 m))" "drop 18 m"] m(2)
    by auto
  have "a < w_next w1"
    using rel_next [OF h(4)] Cons.prems(2) by simp
  then obtain b2 w2 where "process table ms b1 a w1 = Inr (Some b2, w2)" "buffers b2 = buffers b1"
    "ok w2" "rel w1 w2"
    using Cons.IH [OF h(3), of b1] Cons.prems(3) by auto
  then show ?case
    using h m(1) rel_trans by auto
qed

end

text \<open>A frame is dropped before any message is looked at, or its messages are handled.\<close>

lemma session_kernel_handle_split:
  obtains (dropped) "session_kernel_handle e f a w = Inr (None, w)"
  | (parsed) frame ls offset where "2 \<le> length frame" "offset \<le> length frame - 2" "length ls \<le> 65535"
      "session_kernel_handle e f a w =
         chain (handle_requests (get_handlers e) frame ls offset as_response a w) (\<lambda>(r, w').
           case r of None \<Rightarrow> Inr (None, w')
           | Some b \<Rightarrow> chain (get_data (crc_ccitt e) b (get_type a w' = tcp)) (\<lambda>out. Inr (Some out, w')))"
proof (cases "session_kernel_handle e f a w = Inr (None, w)")
  case False
  then obtain frame where f: "f = Some frame"
    by (cases f) (auto simp: session_kernel_handle_def)
  let ?n = "unat (get16 (take 2 frame))"
  from False have size: "4 \<le> length frame" "?n * 2 \<le> length frame - 4"
    and crc: "crc_ccitt e (take (length frame - 2) frame) = get16 (take 2 (drop (length frame - 2) frame))"
    by (auto simp: f session_kernel_handle_def Let_def split: if_splits)
  have "2 + 2 * ?n \<le> length frame"
    using size by linarith
  then obtain ls where ls: "read_lengths frame ?n 2 = Inr (ls, 2 + 2 * ?n)" "length ls = ?n"
    using read_lengths_in_bounds [of 2 ?n frame] by blast
  have "\<not> length frame - 2 < 2" "\<not> length frame - 2 - 2 < ?n * 2" "\<not> length frame < 2"
    using size by linarith+
  then have eq: "session_kernel_handle e f a w =
      chain (handle_requests (get_handlers e) frame ls (2 + 2 * ?n) as_response a w) (\<lambda>(r, w').
        case r of None \<Rightarrow> Inr (None, w')
        | Some b \<Rightarrow> chain (get_data (crc_ccitt e) b (get_type a w' = tcp)) (\<lambda>out. Inr (Some out, w')))"
    using size crc ls(1)
    by (simp add: f session_kernel_handle_def Let_def get_buffers_eq memcpy_at_def
        del: add_2_eq_Suc add_2_eq_Suc' diff_Suc_Suc cong: option.case_cong)
  have "length ls \<le> 65535"
    using unsigned_less [where ?'a = nat and w = "get16 (take 2 frame)"] by (simp add: ls(2))
  moreover have "2 \<le> length frame" "2 + 2 * ?n \<le> length frame - 2"
    using size by linarith+
  ultimately show thesis
    using eq by (intro parsed)
qed (rule dropped)

lemma session_kernel_handle_cases:
  assumes "node_ok e w" and "a < w_next w"
  obtains (rejected) w' where "session_kernel_handle e f a w = Inr (None, w')" "node_ok e w'" "evolves w w'"
  | (answered) w' builder where "node_ok e w'" "evolves w w'"
      "length (buffers builder) \<le> 65535" "list_all is_response (buffers builder)"
      "session_kernel_handle e f a w =
         chain (get_data (crc_ccitt e) builder (get_type a w' = tcp)) (\<lambda>out. Inr (Some out, w'))"
proof (cases rule: session_kernel_handle_split [of e f a w])
  case dropped
  then show thesis using rejected assms(1) by simp
next
  case (parsed frame ls offset)
  obtain r w' where r: "handle_requests (get_handlers e) frame ls offset as_response a w = Inr (r, w')"
    "node_ok e w'" "evolves w w'"
    "case r of None \<Rightarrow> True
     | Some b \<Rightarrow> \<exists>rs. buffers b = buffers as_response @ rs \<and> length rs \<le> length ls \<and> list_all is_response rs"
    using table.handle_requests_total [OF assms parsed(1,2), of ls as_response] by blast
  show thesis
  proof (cases r)
    case None
    then show thesis using rejected r parsed(4) by simp
  next
    case (Some b)
    then have "length (buffers b) \<le> 65535" "list_all is_response (buffers b)"
      using r(4) parsed(3) by auto
    then show thesis
      using answered [OF r(2,3)] parsed(4) r(1) Some by simp
  qed
qed

end
