(* ===== verification/Fifo_Writer.thy ===== *)
theory Fifo_Writer
  imports Aurum_Prelude
begin

text \<open>
  The interface of a session's write side: a queue of messages of which the first is being written
  while the others wait.  Both session classes provide it; the lemmas are about any provider.  They
  show that messages leave in the order in which they were sent and that one write is outstanding at
  a time.
\<close>

datatype 'm action = Enqueue 'm | Finish

primrec enqueued :: "'m action list \<Rightarrow> 'm list" where
  "enqueued [] = []"
| "enqueued (x # xs) = (case x of Enqueue m \<Rightarrow> m # enqueued xs | Finish \<Rightarrow> enqueued xs)"

text \<open>
  \<open>transmit\<close> runs sends and completions in any interleaving and collects the messages whose write has
  completed; a completion with nothing outstanding cannot happen and is skipped.
\<close>

fun transmit ::
    "('w \<Rightarrow> 'm list) \<Rightarrow> ('m \<Rightarrow> 'w \<Rightarrow> 'w) \<Rightarrow> ('w \<Rightarrow> 'w) \<Rightarrow> 'm action list \<Rightarrow> 'w \<Rightarrow> 'm list \<times> 'w" where
  "transmit inflight enqueue finish [] w = ([], w)"
| "transmit inflight enqueue finish (Enqueue m # xs) w =
     transmit inflight enqueue finish xs (enqueue m w)"
| "transmit inflight enqueue finish (Finish # xs) w =
     (case inflight w of
        [] \<Rightarrow> transmit inflight enqueue finish xs w
      | m # ms \<Rightarrow> (let (sent, w') = transmit inflight enqueue finish xs (finish w) in (m # sent, w')))"

locale fifo_writer =
  fixes queue :: "'w \<Rightarrow> 'm list"
    and inflight :: "'w \<Rightarrow> 'm list"
    and enqueue :: "'m \<Rightarrow> 'w \<Rightarrow> 'w"
    and finish :: "'w \<Rightarrow> 'w"
  assumes queue_enqueue: "queue (enqueue m w) = queue w @ [m]"
    and inflight_enqueue:
      "inflight (enqueue m w) = (if queue w = [] then inflight w @ [m] else inflight w)"
    and queue_finish: "queue w = m # ms \<Longrightarrow> inflight w = [m] \<Longrightarrow> queue (finish w) = ms"
    and inflight_finish: "queue w = m # ms \<Longrightarrow> inflight w = [m] \<Longrightarrow> inflight (finish w) = take 1 ms"
begin

lemma in_order_enqueue:
  assumes "inflight w = take 1 (queue w)"
  shows "inflight (enqueue m w) = take 1 (queue (enqueue m w))"
  using assms by (cases "queue w") (simp_all add: queue_enqueue inflight_enqueue)

lemma in_order_finish:
  assumes "inflight w = take 1 (queue w)" and "inflight w = m # ms"
  shows "queue w = m # queue (finish w)" and "inflight (finish w) = take 1 (queue (finish w))"
proof -
  obtain qs where q: "queue w = m # qs"
    using assms by (cases "queue w") auto
  then have i: "inflight w = [m]"
    using assms by simp
  show "queue w = m # queue (finish w)"
    using queue_finish [OF q i] q by simp
  show "inflight (finish w) = take 1 (queue (finish w))"
    using inflight_finish [OF q i] queue_finish [OF q i] by simp
qed

lemma transmit_in_order:
  assumes "inflight w = take 1 (queue w)" and "transmit inflight enqueue finish xs w = (sent, w')"
  shows "sent @ queue w' = queue w @ enqueued xs" and "inflight w' = take 1 (queue w')"
proof -
  have "sent @ queue w' = queue w @ enqueued xs \<and> inflight w' = take 1 (queue w')"
    using assms
  proof (induction xs arbitrary: w sent)
    case Nil
    then show ?case by simp
  next
    case (Cons x xs)
    show ?case
    proof (cases x)
      case (Enqueue m)
      then show ?thesis
        using Cons.IH [of "enqueue m w" sent] Cons.prems in_order_enqueue [of w m]
        by (simp add: queue_enqueue)
    next
      case Finish
      show ?thesis
      proof (cases "inflight w")
        case none: Nil
        then have "transmit inflight enqueue finish xs w = (sent, w')"
          using Finish Cons.prems(2) by simp
        then show ?thesis
          using Cons.IH [OF Cons.prems(1)] Finish by simp
      next
        case ms: (Cons m ms)
        note q = in_order_finish [OF Cons.prems(1) ms]
        obtain rest where "transmit inflight enqueue finish xs (finish w) = (rest, w')" "sent = m # rest"
          using Cons.prems(2) Finish ms by (auto simp: Let_def split: prod.splits)
        then show ?thesis
          using Cons.IH [OF q(2)] Finish by (subst q(1)) simp
      qed
    qed
  qed
  then show "sent @ queue w' = queue w @ enqueued xs" "inflight w' = take 1 (queue w')"
    by simp_all
qed

text \<open>As many completions as there are messages drain the queue.\<close>

lemma transmit_drains:
  assumes "inflight w = take 1 (queue w)"
  shows "\<exists>w'. transmit inflight enqueue finish (replicate (length (queue w)) Finish) w = (queue w, w') \<and>
    queue w' = [] \<and> inflight w' = []"
  using assms
proof (induction "queue w" arbitrary: w)
  case Nil
  then show ?case by (metis length_0_conv replicate_0 take_Nil transmit.simps(1))
next
  case (Cons m ms)
  then have i: "inflight w = [m]" and q: "queue w = m # queue (finish w)"
    and o: "inflight (finish w) = take 1 (queue (finish w))"
    using in_order_finish [of w m "[]"] by (simp_all flip: Cons.hyps(2))
  then have "ms = queue (finish w)"
    using Cons.hyps(2) by simp
  with Cons.hyps(1) [of "finish w"] o obtain w' where
    "transmit inflight enqueue finish (replicate (length (queue (finish w))) Finish) (finish w) =
       (queue (finish w), w')" "queue w' = []" "inflight w' = []"
    by blast
  then show ?case
    using i by (subst (1 2) q) (simp add: Let_def)
qed

end

end
