(* ===== verification/Session_Io.thy ===== *)
theory Session_Io
  imports Session_Kernel Fifo_Writer
begin

text \<open>
  Asynchronous operations of the sessions: starting one, taking a completed one out, and what is
  outstanding for a session.  Shared by both session classes.
\<close>

definition start_op :: "io_op \<Rightarrow> world \<Rightarrow> world" where
  "start_op op w = w\<lparr>w_pending := w_pending w @ [op]\<rparr>"

definition finish_op :: "io_op \<Rightarrow> world \<Rightarrow> world" where
  "finish_op op w = w\<lparr>w_pending := remove1 op (w_pending w)\<rparr>"

definition get_queue :: "addr \<Rightarrow> world \<Rightarrow> byte list list" where
  "get_queue a w = s_queue (w_heap w a)"

text \<open>\<^verbatim>\<open>state_->remove_session(get_id())\<close>, the reaction of every completion handler to an error.\<close>

definition drop_session :: "env \<Rightarrow> addr \<Rightarrow> world \<Rightarrow> fault + world" where
  "drop_session e a w = chain (remove_session e (get_id a w) w) (\<lambda>(_, w'). Inr w')"

section \<open>Outstanding operations\<close>

fun tcp_write_of :: "addr \<Rightarrow> io_op \<Rightarrow> byte list option" where
  "tcp_write_of a (Write b m) = (if b = a then Some m else None)"
| "tcp_write_of a _ = None"

fun ws_write_of :: "addr \<Rightarrow> io_op \<Rightarrow> byte list option" where
  "ws_write_of a (Ws_write b m) = (if b = a then Some m else None)"
| "ws_write_of a _ = None"

fun reads_at :: "addr \<Rightarrow> io_op \<Rightarrow> bool" where
  "reads_at a (Read_header b) \<longleftrightarrow> b = a"
| "reads_at a (Read_body b n) \<longleftrightarrow> b = a"
| "reads_at a (Ws_accept b) \<longleftrightarrow> b = a"
| "reads_at a (Ws_read b) \<longleftrightarrow> b = a"
| "reads_at a _ \<longleftrightarrow> False"

definition tcp_inflight :: "addr \<Rightarrow> world \<Rightarrow> byte list list" where
  "tcp_inflight a w = List.map_filter (tcp_write_of a) (w_pending w)"

definition ws_inflight :: "addr \<Rightarrow> world \<Rightarrow> byte list list" where
  "ws_inflight a w = List.map_filter (ws_write_of a) (w_pending w)"

definition reads :: "addr \<Rightarrow> world \<Rightarrow> nat" where
  "reads a w = length (filter (reads_at a) (w_pending w))"

lemma map_filter_remove1_None: "f x = None \<Longrightarrow> List.map_filter f (remove1 x xs) = List.map_filter f xs"
  by (induction xs) (auto simp: List.map_filter_simps split: option.split)

lemma map_filter_remove1_Some:
  "x \<in> set xs \<Longrightarrow> f x = Some m \<Longrightarrow> length (List.map_filter f (remove1 x xs)) = length (List.map_filter f xs) - 1"
proof (induction xs)
  case Nil
  then show ?case by simp
next
  case (Cons y ys)
  show ?case
  proof (cases "y = x")
    case True
    then show ?thesis using Cons.prems by (simp add: List.map_filter_simps)
  next
    case False
    then have x: "x \<in> set ys" using Cons.prems by simp
    then have "List.map_filter f ys \<noteq> []"
      using Cons.prems(2) by (force simp: List.map_filter_def filter_empty_conv)
    then show ?thesis
      using False Cons.IH [OF x Cons.prems(2)]
      by (cases "f y") (auto simp: List.map_filter_simps Suc_diff_le Suc_leI)
  qed
qed

lemma map_filter_snoc:
  "List.map_filter f (xs @ [x]) = List.map_filter f xs @ (case f x of None \<Rightarrow> [] | Some y \<Rightarrow> [y])"
  by (induction xs) (auto simp: List.map_filter_simps split: option.splits)

lemma inflight_start [simp]:
  "tcp_inflight a (start_op op w) =
     tcp_inflight a w @ (case tcp_write_of a op of None \<Rightarrow> [] | Some m \<Rightarrow> [m])"
  "ws_inflight a (start_op op w) =
     ws_inflight a w @ (case ws_write_of a op of None \<Rightarrow> [] | Some m \<Rightarrow> [m])"
  "reads a (start_op op w) = reads a w + (if reads_at a op then 1 else 0)"
  by (simp_all add: tcp_inflight_def ws_inflight_def reads_def start_op_def map_filter_snoc)

lemma tcp_inflight_finish_other [simp]:
  "tcp_write_of a op = None \<Longrightarrow> tcp_inflight a (finish_op op w) = tcp_inflight a w"
  by (simp add: tcp_inflight_def finish_op_def map_filter_remove1_None)

lemma ws_inflight_finish_other [simp]:
  "ws_write_of a op = None \<Longrightarrow> ws_inflight a (finish_op op w) = ws_inflight a w"
  by (simp add: ws_inflight_def finish_op_def map_filter_remove1_None)

lemma in_map_filterD: "m \<in> set (List.map_filter f xs) \<Longrightarrow> \<exists>x \<in> set xs. f x = Some m"
  by (auto simp: List.map_filter_def)

lemma tcp_write_of_Some [simp]: "tcp_write_of a op = Some m \<longleftrightarrow> op = Write a m"
  by (cases op) auto

lemma ws_write_of_Some [simp]: "ws_write_of a op = Some m \<longleftrightarrow> op = Ws_write a m"
  by (cases op) auto

lemma tcp_inflight_member: "m \<in> set (tcp_inflight a w) \<longleftrightarrow> Write a m \<in> set (w_pending w)"
  by (force simp: tcp_inflight_def List.map_filter_def image_iff)

lemma ws_inflight_member: "m \<in> set (ws_inflight a w) \<longleftrightarrow> Ws_write a m \<in> set (w_pending w)"
  by (force simp: ws_inflight_def List.map_filter_def image_iff)

lemma tcp_inflight_finish:
  "Write a m \<in> set (w_pending w) \<Longrightarrow>
   length (tcp_inflight a (finish_op (Write a m) w)) = length (tcp_inflight a w) - 1"
  by (simp add: tcp_inflight_def finish_op_def map_filter_remove1_Some [where m = m])

lemma ws_inflight_finish:
  "Ws_write a m \<in> set (w_pending w) \<Longrightarrow>
   length (ws_inflight a (finish_op (Ws_write a m) w)) = length (ws_inflight a w) - 1"
  by (simp add: ws_inflight_def finish_op_def map_filter_remove1_Some [where m = m])

lemma reads_finish:
  "op \<in> set (w_pending w) \<Longrightarrow> reads a (finish_op op w) = reads a w - (if reads_at a op then 1 else 0)"
  by (auto simp: reads_def finish_op_def filter_remove1 length_remove1)

text \<open>An update of a session or an \<open>evolves\<close> step leaves the outstanding operations alone.\<close>

lemma inflight_cong:
  assumes "w_pending v = w_pending w"
  shows "tcp_inflight a v = tcp_inflight a w" and "ws_inflight a v = ws_inflight a w" and "reads a v = reads a w"
  using assms by (simp_all add: tcp_inflight_def ws_inflight_def reads_def)

lemma get_queue_update:
  "get_queue b (update_session a f w) = (if b = a then s_queue (f (w_heap w a)) else get_queue b w)"
  by (simp add: get_queue_def update_session_def)

lemma get_queue_snoc [simp]:
  "get_queue a (update_session a (\<lambda>s. s\<lparr>s_queue := s_queue s @ [m]\<rparr>) w) = get_queue a w @ [m]"
  by (simp add: get_queue_def update_session_def)

lemma get_queue_op [simp]:
  "get_queue a (start_op op w) = get_queue a w"
  "get_queue a (finish_op op w) = get_queue a w"
  by (simp_all add: get_queue_def start_op_def finish_op_def)

lemma inflight_update [simp]:
  "tcp_inflight a (update_session b f w) = tcp_inflight a w"
  "ws_inflight a (update_session b f w) = ws_inflight a w"
  "reads a (update_session b f w) = reads a w"
  by (rule inflight_cong; simp add: update_session_def)+

lemma drop_session_evolves:
  assumes "node_ok e w"
  obtains w' where "drop_session e a w = Inr w'" "node_ok e w'" "evolves w w'"
proof -
  obtain b w' where "remove_session e (get_id a w) w = Inr (b, w')" "node_ok e w'" "evolves w w'"
    using remove_session_evolves [OF assms] by blast
  then show thesis by (intro that) (simp_all add: drop_session_def)
qed

end
