(* ===== verification/Tcp_Session.thy ===== *)
theory Tcp_Session
  imports Session_Io
begin

text \<open>
  \<^verbatim>\<open>src/aurum/tcp_session.cpp\<close>: the write queue and the read loop of a TCP session.  The functions are
  the bodies of the strand tasks and of the completion handlers; \<^verbatim>\<open>error\<close> is the error code of the
  completion, and a read hands over the bytes its buffer holds.
\<close>

section \<open>Writing\<close>

definition tcp_on_send :: "addr \<Rightarrow> byte list \<Rightarrow> world \<Rightarrow> world" where
  "tcp_on_send a message w =
     (let w1 = update_session a (\<lambda>s. s\<lparr>s_queue := s_queue s @ [message]\<rparr>) w
      in if length (get_queue a w1) > 1 then w1
         else start_op (Write a (hd (get_queue a w1))) w1)"

definition tcp_on_write :: "env \<Rightarrow> addr \<Rightarrow> bool \<Rightarrow> world \<Rightarrow> fault + world" where
  "tcp_on_write e a error w =
     (if error then drop_session e a w
      else case get_queue a w of
          [] \<Rightarrow> Inl Out_of_bounds
        | _ # rest \<Rightarrow>
            let w1 = update_session a (\<lambda>s. s\<lparr>s_queue := rest\<rparr>) w
            in if rest \<noteq> [] then Inr (start_op (Write a (hd rest)) w1) else Inr w1)"

section \<open>Reading\<close>

definition tcp_read_header :: "addr \<Rightarrow> world \<Rightarrow> world" where
  "tcp_read_header a w = start_op (Read_header a) w"

definition tcp_read_body :: "addr \<Rightarrow> world \<Rightarrow> world" where
  "tcp_read_body a w = start_op (Read_body a (unat (s_header_length (w_heap w a)))) w"

text \<open>The completion of \<open>read_header\<close>; \<open>header\<close> is the content of \<^verbatim>\<open>header_length_\<close>.\<close>

definition tcp_on_header :: "env \<Rightarrow> addr \<Rightarrow> bool \<Rightarrow> byte list \<Rightarrow> world \<Rightarrow> fault + world" where
  "tcp_on_header e a error header w =
     (let w1 = update_session a (\<lambda>s. s\<lparr>s_header_length := get32 header\<rparr>) w
      in if \<not> error then Inr (tcp_read_body a w1) else drop_session e a w1)"

text \<open>The completion of \<open>read_body\<close>.\<close>

definition tcp_on_body :: "env \<Rightarrow> addr \<Rightarrow> bool \<Rightarrow> byte list \<Rightarrow> world \<Rightarrow> fault + world" where
  "tcp_on_body e a error body w =
     (if \<not> error
      then chain (session_kernel_handle e (Some body) a w) (\<lambda>(answer, w1).
             let w2 = (case answer of Some r \<Rightarrow> session_send a r w1 | None \<Rightarrow> w1)
             in Inr (tcp_read_header a w2))
      else drop_session e a w)"

section \<open>The write side is a FIFO writer\<close>

text \<open>A write that completes without an error.\<close>

definition tcp_write_done :: "env \<Rightarrow> addr \<Rightarrow> world \<Rightarrow> world" where
  "tcp_write_done e a w =
     (case tcp_inflight a w of
        [] \<Rightarrow> w
      | m # _ \<Rightarrow>
          (case tcp_on_write e a False (finish_op (Write a m) w) of Inl _ \<Rightarrow> w | Inr w' \<Rightarrow> w'))"

lemma tcp_inflight_finish_single:
  assumes "tcp_inflight a w = [m]"
  shows "tcp_inflight a (finish_op (Write a m) w) = []"
proof -
  have "Write a m \<in> set (w_pending w)"
    using assms tcp_inflight_member [of m a w] by simp
  then show ?thesis
    using tcp_inflight_finish assms by fastforce
qed

lemma tcp_on_write_done:
  assumes "get_queue a w = m # ms"
  shows "\<exists>w'. tcp_on_write e a False w = Inr w' \<and> get_queue a w' = ms \<and>
    tcp_inflight a w' = tcp_inflight a w @ take 1 ms"
  using assms by (cases ms) (simp_all add: tcp_on_write_def Let_def get_queue_update)

interpretation tcp_writer: fifo_writer "get_queue a" "tcp_inflight a" "tcp_on_send a" "tcp_write_done e a"
  for e a
proof unfold_locales
  fix m w ms
  show "get_queue a (tcp_on_send a m w) = get_queue a w @ [m]"
    by (simp add: tcp_on_send_def Let_def)
  show "tcp_inflight a (tcp_on_send a m w) =
      (if get_queue a w = [] then tcp_inflight a w @ [m] else tcp_inflight a w)"
    by (simp add: tcp_on_send_def Let_def)
  assume q: "get_queue a w = m # ms" and i: "tcp_inflight a w = [m]"
  have "get_queue a (finish_op (Write a m) w) = m # ms" "tcp_inflight a (finish_op (Write a m) w) = []"
    using q i by (simp_all add: tcp_inflight_finish_single)
  then show "get_queue a (tcp_write_done e a w) = ms" "tcp_inflight a (tcp_write_done e a w) = take 1 ms"
    using tcp_on_write_done [of a "finish_op (Write a m) w" m ms e] by (auto simp: tcp_write_done_def i)
qed

text \<open>
  Sends are first in, first out: from a session whose outstanding write is the head of its queue,
  whatever the interleaving of sends and completed writes, the messages written so far followed by
  those still queued are the messages queued at the start followed by those sent, in order, and the
  outstanding write is again the head of the queue, so never more than one.
\<close>

lemma tcp_send_fifo:
  assumes "tcp_inflight a w = take 1 (get_queue a w)"
    and "transmit (tcp_inflight a) (tcp_on_send a) (tcp_write_done e a) xs w = (sent, w')"
  shows "sent @ get_queue a w' = get_queue a w @ enqueued xs \<and>
    tcp_inflight a w' = take 1 (get_queue a w')"
  using tcp_writer.transmit_in_order [OF assms] by simp

text \<open>
  The queue drains: as many completed writes as there are queued messages write all of them, in
  order, and leave nothing queued or outstanding.
\<close>

lemma tcp_queue_drains:
  assumes "tcp_inflight a w = take 1 (get_queue a w)"
  shows "\<exists>w'. transmit (tcp_inflight a) (tcp_on_send a) (tcp_write_done e a)
      (replicate (length (get_queue a w)) Finish) w = (get_queue a w, w') \<and>
    get_queue a w' = [] \<and> tcp_inflight a w' = []"
  using assms by (rule tcp_writer.transmit_drains)

end
