(* ===== verification/Websocket_Session.thy ===== *)
theory Websocket_Session
  imports Tcp_Session
begin

text \<open>
  \<^verbatim>\<open>src/aurum/websocket_session.cpp\<close>: the handshake, the write queue and the read loop of a WebSocket
  session.  The completion handlers have the names of the member functions.
\<close>

section \<open>Handshake and reading\<close>

definition websocket_read_body :: "addr \<Rightarrow> world \<Rightarrow> world" where
  "websocket_read_body a w = start_op (Ws_read a) w"

definition websocket_on_accept :: "env \<Rightarrow> addr \<Rightarrow> bool \<Rightarrow> world \<Rightarrow> fault + world" where
  "websocket_on_accept e a error w =
     (if \<not> error
      then let (tx, w1) = draw_uuid e w
           in chain (get_data (crc_ccitt e) (request_add_join (get_id a w1) tx as_request) True) (\<lambda>data.
                Inr (websocket_read_body a (broadcast_to_nodes data w1)))
      else drop_session e a w)"

definition websocket_on_read :: "env \<Rightarrow> addr \<Rightarrow> bool \<Rightarrow> byte list \<Rightarrow> world \<Rightarrow> fault + world" where
  "websocket_on_read e a error payload w =
     (if \<not> error
      then chain (session_kernel_handle e (Some payload) a w) (\<lambda>(answer, w1).
             let w2 = (case answer of Some r \<Rightarrow> session_send a r w1 | None \<Rightarrow> w1)
             in Inr (websocket_read_body a w2))
      else drop_session e a w)"

section \<open>Writing\<close>

definition websocket_on_send :: "addr \<Rightarrow> byte list \<Rightarrow> world \<Rightarrow> world" where
  "websocket_on_send a message w =
     (let w1 = update_session a (\<lambda>s. s\<lparr>s_queue := s_queue s @ [message]\<rparr>) w
      in if length (get_queue a w1) > 1 then w1
         else start_op (Ws_write a (hd (get_queue a w1))) w1)"

definition websocket_on_write :: "env \<Rightarrow> addr \<Rightarrow> bool \<Rightarrow> world \<Rightarrow> fault + world" where
  "websocket_on_write e a error w =
     (if error then drop_session e a w
      else case get_queue a w of
          [] \<Rightarrow> Inl Out_of_bounds
        | _ # rest \<Rightarrow>
            let w1 = update_session a (\<lambda>s. s\<lparr>s_queue := rest\<rparr>) w
            in if rest \<noteq> [] then Inr (start_op (Ws_write a (hd rest)) w1) else Inr w1)"

definition websocket_write_done :: "env \<Rightarrow> addr \<Rightarrow> world \<Rightarrow> world" where
  "websocket_write_done e a w =
     (case ws_inflight a w of
        [] \<Rightarrow> w
      | m # _ \<Rightarrow>
          (case websocket_on_write e a False (finish_op (Ws_write a m) w) of Inl _ \<Rightarrow> w | Inr w' \<Rightarrow> w'))"

section \<open>The write side is a FIFO writer\<close>

lemma ws_inflight_finish_single:
  assumes "ws_inflight a w = [m]"
  shows "ws_inflight a (finish_op (Ws_write a m) w) = []"
proof -
  have "Ws_write a m \<in> set (w_pending w)"
    using assms ws_inflight_member [of m a w] by simp
  then show ?thesis
    using ws_inflight_finish assms by fastforce
qed

lemma websocket_on_write_done:
  assumes "get_queue a w = m # ms"
  shows "\<exists>w'. websocket_on_write e a False w = Inr w' \<and> get_queue a w' = ms \<and>
    ws_inflight a w' = ws_inflight a w @ take 1 ms"
  using assms by (cases ms) (simp_all add: websocket_on_write_def Let_def get_queue_update)

interpretation websocket_writer:
  fifo_writer "get_queue a" "ws_inflight a" "websocket_on_send a" "websocket_write_done e a" for e a
proof unfold_locales
  fix m w ms
  show "get_queue a (websocket_on_send a m w) = get_queue a w @ [m]"
    by (simp add: websocket_on_send_def Let_def)
  show "ws_inflight a (websocket_on_send a m w) =
      (if get_queue a w = [] then ws_inflight a w @ [m] else ws_inflight a w)"
    by (simp add: websocket_on_send_def Let_def)
  assume q: "get_queue a w = m # ms" and i: "ws_inflight a w = [m]"
  have "get_queue a (finish_op (Ws_write a m) w) = m # ms" "ws_inflight a (finish_op (Ws_write a m) w) = []"
    using q i by (simp_all add: ws_inflight_finish_single)
  then show "get_queue a (websocket_write_done e a w) = ms"
    "ws_inflight a (websocket_write_done e a w) = take 1 ms"
    using websocket_on_write_done [of a "finish_op (Ws_write a m) w" m ms e]
    by (auto simp: websocket_write_done_def i)
qed

text \<open>
  WebSocket sends are first in, first out, with at most one write outstanding: the statement about
  TCP sends for the WebSocket class.
\<close>

lemma websocket_send_fifo:
  assumes "ws_inflight a w = take 1 (get_queue a w)"
    and "transmit (ws_inflight a) (websocket_on_send a) (websocket_write_done e a) xs w = (sent, w')"
  shows "sent @ get_queue a w' = get_queue a w @ enqueued xs \<and>
    ws_inflight a w' = take 1 (get_queue a w')"
  using websocket_writer.transmit_in_order [OF assms] by simp

section \<open>Announcing a WebSocket client\<close>

definition join_payload :: "uuid \<Rightarrow> uuid \<Rightarrow> byte list" where
  "join_payload websocket_id tx =
     message_header (op_code_value join) request tx @ put_uuid websocket_id"

lemma get_data_join [simp]:
  "get_data crc (request_add_join i tx as_request) h = Inr (frame_bytes crc h [join_payload i tx])"
  by (subst get_data_frame_bytes)
    (simp_all add: request_add_join_def join_payload_def frame_fits_small)

lemma websocket_on_accept_eq:
  "websocket_on_accept e a False w =
     Inr (w\<lparr>w_rng := Suc (w_rng w),
            w_posted := w_posted w @ map (\<lambda>b. Run_on_send b
              (frame_bytes (crc_ccitt e) True [join_payload (get_id a w) (random_uuid e (w_rng w))]))
              (broadcast_targets w),
            w_pending := w_pending w @ [Ws_read a]\<rparr>)"
proof -
  have "broadcast_targets (w\<lparr>w_rng := Suc (w_rng w)\<rparr>) = broadcast_targets w"
    by (rule broadcast_targets_cong) simp_all
  then show ?thesis
    by (simp add: websocket_on_accept_def draw_uuid_def broadcast_eq websocket_read_body_def
        start_op_def get_id_def)
qed

end
