(* ===== verification/Node_Runtime.thy ===== *)
theory Node_Runtime
  imports Websocket_Session
begin

text \<open>
  A running node: the listeners, the entry points of \<^verbatim>\<open>node\<close>, and the step relation in which posted
  tasks run and asynchronous operations complete in any order Boost.Asio allows: the tasks of a strand
  in the order of posting, everything else interleaved freely.
\<close>

section \<open>Listeners\<close>

text \<open>\<open>bound\<close> is the port that \<^verbatim>\<open>acceptor_.local_endpoint().port()\<close> reports.\<close>

definition new_tcp_listener :: "16 word \<Rightarrow> world \<Rightarrow> world" where
  "new_tcp_listener bound w = w\<lparr>w_config := (w_config w)\<lparr>tcp_port := bound, tcp_ready := True\<rparr>\<rparr>"

definition tcp_do_accept :: "world \<Rightarrow> world" where
  "tcp_do_accept w = start_op Tcp_listen w"

definition tcp_on_accepted :: "env \<Rightarrow> bool \<Rightarrow> world \<Rightarrow> world" where
  "tcp_on_accepted e error w =
     (let w1 = (if \<not> error
                then let (a, v1) = new_tcp_session e w;
                         (_, v2) = add_session e a v1
                     in session_start a v2
                else w)
      in tcp_do_accept w1)"

definition tcp_listener_start :: "world \<Rightarrow> world" where
  "tcp_listener_start w = tcp_do_accept w"

definition new_websocket_listener :: "16 word \<Rightarrow> world \<Rightarrow> world" where
  "new_websocket_listener bound w =
     w\<lparr>w_config := (w_config w)\<lparr>websocket_port := bound, websocket_ready := True\<rparr>\<rparr>"

definition websocket_do_accept :: "world \<Rightarrow> world" where
  "websocket_do_accept w = start_op Ws_listen w"

definition websocket_on_accepted :: "env \<Rightarrow> bool \<Rightarrow> world \<Rightarrow> world" where
  "websocket_on_accepted e error w =
     (let w1 = (if \<not> error
                then let (i, v0) = draw_uuid e w;
                         (a, v1) = new_websocket_session i v0;
                         v2 = set_node_id a (state_get_node_id v1) v1;
                         (_, v3) = add_session e a v2
                     in session_start a v3
                else w)
      in websocket_do_accept w1)"

definition websocket_listener_start :: "world \<Rightarrow> world" where
  "websocket_listener_start w = websocket_do_accept w"

lemmas listener_starts [simp] = tcp_listener_start_def websocket_listener_start_def

section \<open>The node\<close>

text \<open>
  The options as Boost.Program_options hands them over: \<open>None\<close> for one not given on the command line.
\<close>

definition node_parse_args ::
    "nat option \<Rightarrow> 16 word option \<Rightarrow> 16 word option \<Rightarrow> 16 word option \<Rightarrow> world \<Rightarrow> world" where
  "node_parse_args opt_threads opt_port opt_websocket_port opt_cpn w =
     (let or_default = \<lambda>d opt. case opt of None \<Rightarrow> d | Some x \<Rightarrow> x;
          n = (case opt_threads of None \<Rightarrow> 1 | Some x \<Rightarrow> x)
      in w\<lparr>w_config := (w_config w)\<lparr>tcp_port := or_default 0 opt_port,
                                   threads := n,
                                   websocket_port := or_default 0 opt_websocket_port,
                                   connections_per_node := or_default 1 opt_cpn\<rparr>\<rparr>)"

text \<open>\<^verbatim>\<open>node::run\<close> up to the threads that run the \<^verbatim>\<open>io_context\<close>.\<close>

definition node_run :: "16 word \<Rightarrow> 16 word \<Rightarrow> world \<Rightarrow> world" where
  "node_run tcp_bound websocket_bound w =
     websocket_listener_start (new_websocket_listener websocket_bound
       (tcp_listener_start (new_tcp_listener tcp_bound w)))"

definition node_connect :: "env \<Rightarrow> string \<Rightarrow> 16 word \<Rightarrow> world \<Rightarrow> fault + (bool \<times> world)" where
  "node_connect e host port w = state_connect e host port True (connections_per_node (get_configuration w)) w"

definition node_disconnect :: "env \<Rightarrow> uuid \<Rightarrow> world \<Rightarrow> fault + world" where
  "node_disconnect e remote_node_id w = state_disconnect e remote_node_id w"

definition node_disconnect_all :: "env \<Rightarrow> world \<Rightarrow> fault + world" where
  "node_disconnect_all e w = disconnect_all e w"

section \<open>Steps\<close>

definition run_task :: "env \<Rightarrow> task \<Rightarrow> world \<Rightarrow> fault + world" where
  "run_task e t w =
     (case t of
        Run_read_header a \<Rightarrow> Inr (tcp_read_header a w)
      | Run_on_send a m \<Rightarrow>
          (case get_type a w of tcp \<Rightarrow> Inr (tcp_on_send a m w) | websocket \<Rightarrow> Inr (websocket_on_send a m w))
      | Run_ws_accept a \<Rightarrow> Inr (start_op (Ws_accept a) w)
      | Run_connect host port \<Rightarrow>
          chain (state_connect e host port False 0 w) (\<lambda>(_, w'). Inr w'))"

text \<open>
  A completion of an asynchronous operation: an operation, whether it failed, and the bytes it
  delivered (of use to reads only).  A completed WebSocket handshake leaves the stream open.
\<close>

definition complete_op :: "env \<Rightarrow> io_op \<Rightarrow> bool \<Rightarrow> byte list \<Rightarrow> world \<Rightarrow> fault + world" where
  "complete_op e op error bytes w =
     (let w1 = finish_op op w
      in case op of
           Read_header a \<Rightarrow> tcp_on_header e a error bytes w1
         | Read_body a n \<Rightarrow> tcp_on_body e a error bytes w1
         | Write a m \<Rightarrow> tcp_on_write e a error w1
         | Ws_accept a \<Rightarrow>
             websocket_on_accept e a error
               (if error then w1 else update_session a (\<lambda>s. s\<lparr>s_open := True\<rparr>) w1)
         | Ws_read a \<Rightarrow> websocket_on_read e a error bytes w1
         | Ws_write a m \<Rightarrow> websocket_on_write e a error w1
         | Tcp_listen \<Rightarrow> Inr (tcp_on_accepted e error w1)
         | Ws_listen \<Rightarrow> Inr (websocket_on_accepted e error w1))"

fun delivers :: "io_op \<Rightarrow> byte list \<Rightarrow> bool" where
  "delivers (Read_header a) bytes \<longleftrightarrow> length bytes = 4"
| "delivers (Read_body a n) bytes \<longleftrightarrow> length bytes = n"
| "delivers _ bytes \<longleftrightarrow> True"

definition next_on_strand :: "task list \<Rightarrow> task \<Rightarrow> bool" where
  "next_on_strand before t \<longleftrightarrow> strand_of t = None \<or> list_all (\<lambda>u. strand_of u \<noteq> strand_of t) before"

text \<open>
  One attempt of the runtime or of a caller, with its outcome: \<open>Inl\<close> when it ends with a fault.
\<close>

inductive node_attempt :: "env \<Rightarrow> world \<Rightarrow> fault + world \<Rightarrow> bool" for e where
  task: "w_posted w = before @ t # after \<Longrightarrow> next_on_strand before t \<Longrightarrow>
    node_attempt e w (run_task e t (w\<lparr>w_posted := before @ after\<rparr>))"
| completion: "op \<in> set (w_pending w) \<Longrightarrow> delivers op bytes \<Longrightarrow>
    node_attempt e w (complete_op e op error bytes w)"
| connect: "node_attempt e w (chain (node_connect e host port w) (\<lambda>(_, w'). Inr w'))"
| disconnect: "node_attempt e w (node_disconnect e n w)"
| disconnect_all: "node_attempt e w (node_disconnect_all e w)"
| broadcast: "node_attempt e w (Inr (broadcast_to_nodes m w))"
| send: "node_attempt e w (Inr (send_to_node e n m w))"

inductive reachable :: "env \<Rightarrow> world \<Rightarrow> bool" for e where
  start: "reachable e (node_run p q (node_parse_args th port ws cpn (new_state e)))"
| step: "reachable e w \<Longrightarrow> node_attempt e w (Inr w') \<Longrightarrow> reachable e w'"

end
