(* ===== verification/Runtime_Invariant.thy ===== *)
theory Runtime_Invariant
  imports Node_Runtime
begin

text \<open>
  The invariant of a running node: it holds in every reachable state, and no attempt in a state where it
  holds ends with a fault other than the exception for oversized answers.
\<close>

section \<open>The invariant\<close>

fun op_session :: "io_op \<Rightarrow> addr option" where
  "op_session (Read_header a) = Some a"
| "op_session (Read_body a n) = Some a"
| "op_session (Write a m) = Some a"
| "op_session (Ws_accept a) = Some a"
| "op_session (Ws_read a) = Some a"
| "op_session (Ws_write a m) = Some a"
| "op_session Tcp_listen = None"
| "op_session Ws_listen = None"

text \<open>Operations are started by the class of session they belong to.\<close>

fun op_typed :: "(addr \<Rightarrow> session) \<Rightarrow> io_op \<Rightarrow> bool" where
  "op_typed h (Read_header a) \<longleftrightarrow> s_type (h a) = tcp"
| "op_typed h (Read_body a n) \<longleftrightarrow> s_type (h a) = tcp"
| "op_typed h (Write a m) \<longleftrightarrow> s_type (h a) = tcp"
| "op_typed h (Ws_accept a) \<longleftrightarrow> s_type (h a) = websocket"
| "op_typed h (Ws_read a) \<longleftrightarrow> s_type (h a) = websocket"
| "op_typed h (Ws_write a m) \<longleftrightarrow> s_type (h a) = websocket"
| "op_typed h Tcp_listen \<longleftrightarrow> True"
| "op_typed h Ws_listen \<longleftrightarrow> True"

lemma op_typed_cong:
  assumes "\<And>a. op_session op = Some a \<Longrightarrow> s_type (h' a) = s_type (h a)"
  shows "op_typed h' op \<longleftrightarrow> op_typed h op"
  using assms by (cases op) auto

definition ops_below :: "addr \<Rightarrow> io_op list \<Rightarrow> bool" where
  "ops_below n ops \<longleftrightarrow> (\<forall>op \<in> set ops. case op_session op of None \<Rightarrow> True | Some a \<Rightarrow> a < n)"

definition outstanding_writes :: "addr \<Rightarrow> world \<Rightarrow> byte list list" where
  "outstanding_writes a w = tcp_inflight a w @ ws_inflight a w"

text \<open>How often the read side of a session is active or about to be.\<close>

definition readers :: "addr \<Rightarrow> world \<Rightarrow> nat" where
  "readers a w = reads a w + starts a (w_posted w)"

definition runtime_ok :: "env \<Rightarrow> world \<Rightarrow> bool" where
  "runtime_ok e w \<longleftrightarrow>
     node_ok e w \<and> strands_below (w_next w) (w_posted w) \<and> ops_below (w_next w) (w_pending w) \<and>
     (\<forall>a. outstanding_writes a w = [] \<or> outstanding_writes a w = take 1 (get_queue a w)) \<and>
     (\<forall>a. readers a w \<le> 1) \<and>
     list_all (task_typed (w_heap w)) (w_posted w) \<and> list_all (op_typed (w_heap w)) (w_pending w)"

definition outcome_ok :: "env \<Rightarrow> fault + world \<Rightarrow> bool" where
  "outcome_ok e r \<longleftrightarrow> (case r of Inl f \<Rightarrow> f = Frame_too_large | Inr w' \<Rightarrow> runtime_ok e w')"

lemma outcome_ok_simps [simp]:
  "outcome_ok e (Inl f) \<longleftrightarrow> f = Frame_too_large"
  "outcome_ok e (Inr w) \<longleftrightarrow> runtime_ok e w"
  by (simp_all add: outcome_ok_def)

lemma ops_below_mono: "ops_below m ops \<Longrightarrow> m \<le> n \<Longrightarrow> ops_below n ops"
  by (fastforce simp: ops_below_def split: option.splits)

lemma unallocated_idle:
  assumes "runtime_ok e w" and "w_next w \<le> a"
  shows "outstanding_writes a w = []" and "readers a w = 0"
proof -
  have ops: "op_session op \<noteq> Some a" if "op \<in> set (w_pending w)" for op
    using assms that by (fastforce simp: runtime_ok_def ops_below_def)
  have tasks: "strand_of t \<noteq> Some a" if "t \<in> set (w_posted w)" for t
    using assms that by (fastforce simp: runtime_ok_def strands_below_def)
  have "m \<notin> set (tcp_inflight a w)" "m \<notin> set (ws_inflight a w)" for m
    using ops [of "Write a m"] ops [of "Ws_write a m"]
    by (auto simp: tcp_inflight_member ws_inflight_member)
  then have "tcp_inflight a w = []" and "ws_inflight a w = []"
    by (metis last_in_set)+
  then show "outstanding_writes a w = []"
    by (simp add: outstanding_writes_def)
  have "\<not> reads_at a op" if "op \<in> set (w_pending w)" for op
    using ops [OF that] by (cases op) auto
  moreover have "\<not> starts_at a t" if "t \<in> set (w_posted w)" for t
    using tasks [OF that] by (cases t) auto
  ultimately show "readers a w = 0"
    by (simp add: readers_def reads_def starts_def)
qed

lemma runtime_ok_evolves:
  assumes "runtime_ok e w" and "evolves w w'" and "node_ok e w'"
  shows "runtime_ok e w'"
proof -
  obtain ts where ts: "w_posted w' = w_posted w @ ts" "strands_below (w_next w') ts"
    "list_all (task_typed (w_heap w')) ts"
    "\<And>a. starts a ts \<le> (if w_next w \<le> a \<and> a < w_next w' then 1 else 0)"
    using assms(2) unfolding evolves_def by blast
  have p: "w_pending w' = w_pending w" and n: "w_next w \<le> w_next w'"
    using assms(2) by (simp_all add: evolves_def)
  have "outstanding_writes a w' = [] \<or> outstanding_writes a w' = take 1 (get_queue a w')" for a
  proof (cases "a < w_next w")
    case True
    then have "get_queue a w' = get_queue a w"
      using assms(2) by (simp add: evolves_def same_core_def get_queue_def)
    then show ?thesis
      using assms(1) by (simp add: runtime_ok_def outstanding_writes_def inflight_cong [OF p])
  next
    case False
    then show ?thesis
      using unallocated_idle(1) [OF assms(1), of a]
      by (simp add: outstanding_writes_def inflight_cong [OF p])
  qed
  moreover have "readers a w' \<le> 1" for a
  proof -
    have eq: "readers a w' = readers a w + starts a ts"
      by (simp add: readers_def inflight_cong [OF p] ts(1))
    show ?thesis
    proof (cases "a < w_next w")
      case True
      then have "starts a ts = 0" using ts(4) [of a] by simp
      with assms(1) show ?thesis by (simp add: eq runtime_ok_def)
    next
      case False
      then have "readers a w = 0" using unallocated_idle(2) [OF assms(1), of a] by simp
      then show ?thesis using ts(4) [of a] by (simp add: eq split: if_splits)
    qed
  qed
  moreover have "strands_below (w_next w') (w_posted w')" "ops_below (w_next w') (w_pending w')"
    using assms(1) ts(1,2) n strands_below_mono ops_below_mono
    by (auto simp: runtime_ok_def p)
  moreover have "list_all (task_typed (w_heap w')) (w_posted w')" "list_all (op_typed (w_heap w')) (w_pending w')"
  proof -
    have same: "s_type (w_heap w' a) = s_type (w_heap w a)" if "a < w_next w" for a
      using that assms(2) by (simp add: evolves_def same_core_def)
    have "task_typed (w_heap w') t" if "t \<in> set (w_posted w)" for t
    proof -
      have "task_typed (w_heap w') t \<longleftrightarrow> task_typed (w_heap w) t"
        using that assms(1) same by (intro task_typed_cong) (auto simp: runtime_ok_def strands_below_def)
      then show ?thesis using that assms(1) by (simp add: runtime_ok_def list_all_iff)
    qed
    with ts(1,3) show "list_all (task_typed (w_heap w')) (w_posted w')"
      by (auto simp: list_all_iff)
    have "op_typed (w_heap w') op" if "op \<in> set (w_pending w)" for op
    proof -
      have "op_typed (w_heap w') op \<longleftrightarrow> op_typed (w_heap w) op"
        using that assms(1) same by (intro op_typed_cong) (auto simp: runtime_ok_def ops_below_def)
      then show ?thesis using that assms(1) by (simp add: runtime_ok_def list_all_iff)
    qed
    then show "list_all (op_typed (w_heap w')) (w_pending w')"
      by (simp add: p list_all_iff)
  qed
  ultimately show ?thesis
    using assms(3) by (simp add: runtime_ok_def)
qed

lemma readers_evolves:
  assumes "evolves w w'" and "a < w_next w"
  shows "readers a w' = readers a w"
proof -
  obtain ts where ts: "w_posted w' = w_posted w @ ts"
    "\<And>a. starts a ts \<le> (if w_next w \<le> a \<and> a < w_next w' then 1 else 0)"
    using assms(1) unfolding evolves_def by blast
  have "starts a ts = 0"
    using ts(2) [of a] assms(2) by simp
  moreover have "w_pending w' = w_pending w"
    using assms(1) by (simp add: evolves_def)
  ultimately show ?thesis
    by (simp add: readers_def reads_def ts(1))
qed

section \<open>Every attempt keeps the invariant\<close>

text \<open>Taking a task or a completed operation out.\<close>

lemma runtime_ok_take_task:
  assumes "runtime_ok e w" and "w_posted w = before @ t # after"
  shows "runtime_ok e (w\<lparr>w_posted := before @ after\<rparr>)"
    and "\<And>a. starts_at a t \<Longrightarrow> readers a (w\<lparr>w_posted := before @ after\<rparr>) = 0"
    and "\<And>a. strand_of t = Some a \<Longrightarrow> a < w_next w"
    and "task_typed (w_heap w) t"
proof -
  let ?w = "w\<lparr>w_posted := before @ after\<rparr>"
  have same: "w_pending ?w = w_pending w"
    by simp
  have r: "readers a w = readers a ?w + (if starts_at a t then 1 else 0)" for a
    by (simp add: readers_def assms(2) reads_def)
  have le: "readers a w \<le> 1" for a
    using assms(1) by (simp add: runtime_ok_def)
  have "readers a ?w \<le> 1" for a
    using r [of a] le [of a] by (simp split: if_splits)
  moreover have "node_ok e ?w"
    using assms(1) by (simp add: runtime_ok_def node_ok_def container_wf_def)
  moreover have "outstanding_writes a ?w = outstanding_writes a w" "get_queue a ?w = get_queue a w" for a
    by (simp_all add: outstanding_writes_def inflight_cong [OF same] get_queue_def)
  ultimately show "runtime_ok e ?w"
    using assms by (simp add: runtime_ok_def)
  show "readers a ?w = 0" if "starts_at a t" for a
    using that r [of a] le [of a] by simp
  show "a < w_next w" if "strand_of t = Some a" for a
    using that assms by (simp add: runtime_ok_def)
  show "task_typed (w_heap w) t"
    using assms by (simp add: runtime_ok_def)
qed

lemma runtime_ok_finish:
  assumes "runtime_ok e w" and "op \<in> set (w_pending w)"
  shows "runtime_ok e (finish_op op w)"
    and "\<And>a. reads_at a op \<Longrightarrow> readers a (finish_op op w) = 0"
    and "\<And>a. op_session op = Some a \<Longrightarrow> a < w_next w"
    and "\<And>a m. op = Write a m \<or> op = Ws_write a m \<Longrightarrow>
      outstanding_writes a (finish_op op w) = [] \<and> get_queue a w \<noteq> []"
    and "op_typed (w_heap w) op"
proof -
  let ?w = "finish_op op w"
  have le: "readers a w \<le> 1" and out: "outstanding_writes a w = [] \<or> outstanding_writes a w = take 1 (get_queue a w)" for a
    using assms(1) by (simp_all add: runtime_ok_def)
  have r: "readers a ?w = readers a w - (if reads_at a op then 1 else 0)" for a
  proof -
    have "reads_at a op \<Longrightarrow> reads a w \<ge> 1"
      using assms(2) by (auto simp: reads_def filter_empty_conv Suc_le_eq)
    then show ?thesis
      using reads_finish [OF assms(2), of a] by (simp add: readers_def finish_op_def)
  qed
  show "readers a ?w = 0" if "reads_at a op" for a
    using that r [of a] le [of a] by simp
  show "a < w_next w" if "op_session op = Some a" for a
    using assms that by (fastforce simp: runtime_ok_def ops_below_def)
  have single: "outstanding_writes a ?w = [] \<and> get_queue a w \<noteq> []" if "op = Write a m \<or> op = Ws_write a m" for a m
  proof -
    have m: "m \<in> set (outstanding_writes a w)"
      using that assms(2) by (auto simp: outstanding_writes_def tcp_inflight_member ws_inflight_member)
    then have l: "length (outstanding_writes a w) \<le> 1" and q: "get_queue a w \<noteq> []"
      using out [of a] by auto
    have "length (outstanding_writes a ?w) = length (outstanding_writes a w) - 1"
      using that
    proof
      assume op: "op = Write a m"
      then have "Write a m \<in> set (w_pending w)" "tcp_inflight a w \<noteq> []"
        using assms(2) tcp_inflight_member [of m a w] by auto
      then show ?thesis
        by (simp add: outstanding_writes_def op tcp_inflight_finish Suc_leI)
    next
      assume op: "op = Ws_write a m"
      then have "Ws_write a m \<in> set (w_pending w)" "ws_inflight a w \<noteq> []"
        using assms(2) ws_inflight_member [of m a w] by auto
      then show ?thesis
        by (simp add: outstanding_writes_def op ws_inflight_finish Suc_leI)
    qed
    with l q show ?thesis by simp
  qed
  show "outstanding_writes a ?w = [] \<and> get_queue a w \<noteq> []" if "op = Write a m \<or> op = Ws_write a m" for a m
    using that single by blast
  have "outstanding_writes a ?w = [] \<or> outstanding_writes a ?w = take 1 (get_queue a ?w)" for a
  proof (cases "\<exists>m. op = Write a m \<or> op = Ws_write a m")
    case True
    then show ?thesis using single by blast
  next
    case False
    then have "tcp_write_of a op = None" "ws_write_of a op = None"
      by (cases op; auto)+
    then show ?thesis using out [of a] by (simp add: outstanding_writes_def)
  qed
  moreover have "readers a ?w \<le> 1" for a
    using r [of a] le [of a] by simp
  moreover have "node_ok e ?w" "strands_below (w_next w) (w_posted w)"
    using assms(1) by (simp_all add: runtime_ok_def node_ok_def container_wf_def finish_op_def)
  moreover have "list_all (op_typed (w_heap w)) (remove1 op (w_pending w))"
    using assms(1) set_remove1_subset [of op "w_pending w"] by (auto simp: runtime_ok_def list_all_iff)
  moreover have "list_all (task_typed (w_heap w)) (w_posted w)"
    using assms(1) by (simp add: runtime_ok_def)
  moreover have "ops_below (w_next w) (remove1 op (w_pending w))"
    using assms(1) set_remove1_subset [of op "w_pending w"] by (fastforce simp: runtime_ok_def ops_below_def)
  ultimately show "runtime_ok e ?w"
    by (simp add: runtime_ok_def) (simp add: finish_op_def)
  show "op_typed (w_heap w) op"
    using assms by (simp add: runtime_ok_def list_all_iff)
qed

text \<open>Starting an operation.\<close>

lemma start_op_fields [simp]:
  "w_sessions (start_op op w) = w_sessions w" "w_next (start_op op w) = w_next w"
  "w_posted (start_op op w) = w_posted w" "w_heap (start_op op w) = w_heap w"
  "w_pending (start_op op w) = w_pending w @ [op]" "w_config (start_op op w) = w_config w"
  "w_node_id (start_op op w) = w_node_id w"
  by (simp_all add: start_op_def)

lemma finish_op_fields [simp]:
  "w_sessions (finish_op op w) = w_sessions w" "w_next (finish_op op w) = w_next w"
  "w_posted (finish_op op w) = w_posted w" "w_heap (finish_op op w) = w_heap w"
  by (simp_all add: finish_op_def)

lemma node_ok_start_op [simp]: "node_ok e (start_op op w) \<longleftrightarrow> node_ok e w"
  by (simp add: node_ok_def container_wf_def)

lemma readers_start_op: "readers a (start_op op w) = readers a w + (if reads_at a op then 1 else 0)"
  by (simp add: readers_def)

lemma runtime_ok_start_idle:
  assumes "runtime_ok e w" and "op_session op = None"
  shows "runtime_ok e (start_op op w)"
proof -
  have "tcp_write_of a op = None" "ws_write_of a op = None" "\<not> reads_at a op" for a
    using assms(2) by (cases op; simp)+
  moreover have "op_typed (w_heap w) op"
    using assms(2) by (cases op) simp_all
  ultimately show ?thesis
    using assms by (simp add: runtime_ok_def ops_below_def outstanding_writes_def readers_start_op)
qed

lemma runtime_ok_start_read:
  assumes "runtime_ok e w" and "readers a w = 0" and "a < w_next w"
    and "op \<in> {Read_header a, Read_body a n, Ws_accept a, Ws_read a}" and "op_typed (w_heap w) op"
  shows "runtime_ok e (start_op op w)"
proof -
  have "tcp_write_of b op = None" "ws_write_of b op = None" "reads_at b op \<longleftrightarrow> b = a" for b
    using assms(4) by auto
  moreover have "op_session op = Some a"
    using assms(4) by auto
  ultimately show ?thesis
    using assms(1-3,5) by (simp add: runtime_ok_def ops_below_def outstanding_writes_def readers_start_op)
qed

text \<open>
  The write queue of one session replaced by \<open>q\<close>, with the write of its first message started when
  there was no write outstanding.
\<close>

lemma runtime_ok_requeue:
  assumes "runtime_ok e w" and "a < w_next w"
    and "v = update_session a (\<lambda>s. s\<lparr>s_queue := f (s_queue s)\<rparr>) w" and "f (get_queue a w) = q"
  shows "outstanding_writes a w = [] \<or> outstanding_writes a w = take 1 q \<Longrightarrow> runtime_ok e v"
    and "outstanding_writes a w = [] \<Longrightarrow> q \<noteq> [] \<Longrightarrow> op \<in> {Write a (hd q), Ws_write a (hd q)} \<Longrightarrow>
      op_typed (w_heap w) op \<Longrightarrow> runtime_ok e (start_op op v)"
proof -
  have core: "w_pending v = w_pending w" "w_posted v = w_posted w" "w_next v = w_next w"
    "w_sessions v = w_sessions w"
    by (simp_all add: assms(3) update_session_def)
  have node: "node_ok e v"
  proof -
    have "container_wf v = container_wf w"
      using assms(3) by (intro container_wf_cong) (auto simp: update_session_def)
    then show ?thesis
      using assms(1) core by (simp add: runtime_ok_def node_ok_def)
  qed
  have q: "get_queue b v = (if b = a then q else get_queue b w)" for b
    using assms(3,4) by (simp add: get_queue_def update_session_def)
  have types: "task_typed (w_heap v) = task_typed (w_heap w)" "op_typed (w_heap v) = op_typed (w_heap w)"
    using assms(3) by (auto intro!: ext task_typed_cong op_typed_cong simp: update_session_def)
  have out: "outstanding_writes b v = outstanding_writes b w" and rd: "readers b v = readers b w" for b
    by (simp_all add: outstanding_writes_def readers_def core inflight_cong [OF core(1)])
  show "runtime_ok e v" if "outstanding_writes a w = [] \<or> outstanding_writes a w = take 1 q"
    using assms(1) node that by (simp add: runtime_ok_def core types q out rd)
  show "runtime_ok e (start_op op v)"
    if empty: "outstanding_writes a w = []" and ne: "q \<noteq> []" and op: "op \<in> {Write a (hd q), Ws_write a (hd q)}"
      and typed: "op_typed (w_heap w) op"
  proof -
    have "outstanding_writes b (start_op op v) = (if b = a then [hd q] else outstanding_writes b w)" for b
      using op empty out [of b] by (auto simp: outstanding_writes_def)
    moreover have "\<not> reads_at b op" "op_session op = Some a" for b
      using op by auto
    moreover have "take 1 q = [hd q]"
      using ne by (cases q) auto
    ultimately show ?thesis
      using assms(1,2) node typed by (simp add: runtime_ok_def core types q rd readers_start_op ops_below_def)
  qed
qed

lemma runtime_ok_on_send:
  assumes "runtime_ok e w" and "a < w_next w"
  shows "s_type (w_heap w a) = tcp \<Longrightarrow> runtime_ok e (tcp_on_send a m w)"
    and "s_type (w_heap w a) = websocket \<Longrightarrow> runtime_ok e (websocket_on_send a m w)"
proof -
  let ?v = "update_session a (\<lambda>s. s\<lparr>s_queue := s_queue s @ [m]\<rparr>) w"
  note re = runtime_ok_requeue [OF assms refl [of ?v] refl]
  have out: "outstanding_writes a w = [] \<or> outstanding_writes a w = take 1 (get_queue a w)"
    using assms(1) by (simp add: runtime_ok_def)
  show "runtime_ok e (tcp_on_send a m w)" if "s_type (w_heap w a) = tcp"
    using re(1) re(2) [of "Write a m"] out that
    by (cases "get_queue a w") (auto simp: tcp_on_send_def Let_def)
  show "runtime_ok e (websocket_on_send a m w)" if "s_type (w_heap w a) = websocket"
    using re(1) re(2) [of "Ws_write a m"] out that
    by (cases "get_queue a w") (auto simp: websocket_on_send_def Let_def)
qed

lemma outcome_drop_session: "runtime_ok e w \<Longrightarrow> outcome_ok e (drop_session e a w)"
  by (rule drop_session_evolves [of e w a]) (simp add: runtime_ok_def, simp add: runtime_ok_evolves)

lemma outcome_on_write:
  assumes "runtime_ok e w" and "a < w_next w" and "outstanding_writes a w = []" and "get_queue a w \<noteq> []"
  shows "s_type (w_heap w a) = tcp \<Longrightarrow> outcome_ok e (tcp_on_write e a error w)"
    and "s_type (w_heap w a) = websocket \<Longrightarrow> outcome_ok e (websocket_on_write e a error w)"
proof -
  obtain m ms where q: "get_queue a w = m # ms"
    using assms(4) by (cases "get_queue a w") auto
  note re = runtime_ok_requeue [OF assms(1,2) refl, of "\<lambda>_. ms", OF refl]
  show "outcome_ok e (tcp_on_write e a error w)" if "s_type (w_heap w a) = tcp"
    using that re assms(3) outcome_drop_session [OF assms(1)] by (auto simp: tcp_on_write_def q Let_def)
  show "outcome_ok e (websocket_on_write e a error w)" if "s_type (w_heap w a) = websocket"
    using that re assms(3) outcome_drop_session [OF assms(1)] by (auto simp: websocket_on_write_def q Let_def)
qed

text \<open>Handling a frame, answering it, and going on to read.\<close>

definition answer_and :: "(world \<Rightarrow> world) \<Rightarrow> env \<Rightarrow> byte list \<Rightarrow> addr \<Rightarrow> world \<Rightarrow> fault + world" where
  "answer_and k e frame a w =
     chain (session_kernel_handle e (Some frame) a w) (\<lambda>(answer, w1).
       Inr (k (case answer of Some r \<Rightarrow> session_send a r w1 | None \<Rightarrow> w1)))"

lemma on_body_answer_and:
  "tcp_on_body e a False body w = answer_and (tcp_read_header a) e body a w"
  "websocket_on_read e a False body w = answer_and (websocket_read_body a) e body a w"
  by (simp_all add: tcp_on_body_def websocket_on_read_def answer_and_def Let_def)

lemma evolves_session_send:
  assumes "a < w_next w"
  shows "evolves w (session_send a m w)"
  using assms by (auto simp: evolves_def session_send_eq)

lemma node_ok_session_send [simp]: "node_ok e (session_send a m w) \<longleftrightarrow> node_ok e w"
  by (simp add: node_ok_def session_send_eq container_wf_def)

lemma answer_and_cases:
  assumes "node_ok e w" and "a < w_next w"
  obtains (fault) "answer_and k e frame a w = Inl Frame_too_large"
  | (goes_on) v where "answer_and k e frame a w = Inr (k v)" "node_ok e v" "evolves w v"
proof (cases rule: session_kernel_handle_cases [OF assms, of "Some frame"])
  case (1 w')
  then show thesis by (intro goes_on [of w']) (simp_all add: answer_and_def)
next
  case (2 w' builder)
  let ?data = "get_data (crc_ccitt e) builder (get_type a w' = tcp)"
  have n: "a < w_next w'"
    using evolves_next [OF 2(2)] assms(2) by simp
  have data: "?data = Inl Frame_too_large \<or> (\<exists>out. ?data = Inr out)"
    using 2(3) by (cases rule: get_data_cases [of builder "crc_ccitt e" "get_type a w' = tcp"])
      (auto simp: max_requests_per_frame_def get_data_fits)
  then show thesis
  proof
    assume "?data = Inl Frame_too_large"
    then show thesis by (intro fault) (simp add: answer_and_def 2(5))
  next
    assume "\<exists>out. ?data = Inr out"
    then obtain out where "?data = Inr out" by blast
    then show thesis
      using 2(1,2) evolves_trans [OF 2(2) evolves_session_send [OF n]]
      by (intro goes_on [of "session_send a out w'"]) (simp_all add: answer_and_def 2(5))
  qed
qed

lemma outcome_answer_and:
  assumes "runtime_ok e w" and "readers a w = 0" and "a < w_next w"
    and "op \<in> {Read_header a, Ws_read a}" and "op_typed (w_heap w) op"
  shows "outcome_ok e (answer_and (start_op op) e frame a w)"
proof -
  have "node_ok e w" using assms(1) by (simp add: runtime_ok_def)
  then show ?thesis
    using assms(3)
  proof (cases rule: answer_and_cases [of e w a "start_op op" frame])
    case (goes_on v)
    have "s_type (w_heap v a) = s_type (w_heap w a)"
      using goes_on(3) assms(3) by (simp add: evolves_def same_core_def)
    then have "op_typed (w_heap v) op"
      using assms(4,5) by auto
    then have "runtime_ok e (start_op op v)"
      using assms goes_on evolves_next [OF goes_on(3)] readers_evolves [OF goes_on(3)]
      by (intro runtime_ok_start_read [of e v a op 0] runtime_ok_evolves [OF assms(1)]) auto
    then show ?thesis by (simp add: goes_on(1))
  qed simp
qed

text \<open>New sessions of the listeners.\<close>

lemma add_session_fields:
  assumes "add_session e a w = (b, v)" and "container_law e"
  shows "w_heap v = w_heap w" "w_next v = w_next w" "w_posted v = w_posted w" "w_pending v = w_pending w"
    "w_node_id v = w_node_id w" "w_config v = w_config w" "set (w_sessions v) \<subseteq> insert a (set (w_sessions w))"
  using assms by (auto simp: add_session_def container_insert_def split: option.splits)

lemma new_session_evolves:
  assumes "node_ok e w" and "a = w_next w" and "s_queue s = []"
    and "w1 = w\<lparr>w_rng := r, w_heap := (w_heap w)(a := s), w_next := Suc a\<rparr>"
    and "add_session e a w1 = (b, w2)"
  shows "node_ok e (session_start a w2)" and "evolves w (session_start a w2)"
proof -
  have ok: "container_law e" "container_wf w" "set (w_sessions w) \<subseteq> {..<w_next w}"
    using assms(1) by (simp_all add: node_ok_def)
  note f = add_session_fields [OF assms(5) ok(1)]
  have w1: "w_heap w1 = (w_heap w)(a := s)" "w_next w1 = Suc a" "w_posted w1 = w_posted w"
    "w_pending w1 = w_pending w" "w_node_id w1 = w_node_id w" "w_config w1 = w_config w"
    "w_sessions w1 = w_sessions w"
    by (simp_all add: assms(4))
  have "container_wf w1 = container_wf w"
    using ok(3) assms(2) by (intro container_wf_cong) (auto simp: w1)
  then have "container_wf w2"
    using reg.invar_ins [of e w1 a] ok assms(5) by (simp add: add_session_def)
  moreover have "set (w_sessions w2) \<subseteq> {..<Suc a}"
    using f(7) ok(3) assms(2) by (auto simp: w1)
  ultimately show "node_ok e (session_start a w2)"
    using ok(1) f(2) w1 by (simp add: node_ok_def session_start_eq container_wf_def split: session_type.split)
  show "evolves w (session_start a w2)"
    using assms(2,3) unfolding evolves_def session_start_eq
    by (auto simp: f w1 get_type_def split: session_type.split)
qed

lemma tcp_on_accepted_eq:
  "tcp_on_accepted e False w =
     start_op Tcp_listen (session_start (w_next w)
       (snd (add_session e (w_next w)
         (w\<lparr>w_rng := Suc (w_rng w), w_heap := (w_heap w)(w_next w := dialled_session e w),
            w_next := Suc (w_next w)\<rparr>))))"
  by (simp add: tcp_on_accepted_def tcp_do_accept_def new_tcp_session_def draw_uuid_def allocate_def
      dialled_session_def Let_def split_beta)

text \<open>The session of an accepted WebSocket client, which belongs to the local node.\<close>

definition local_websocket :: "env \<Rightarrow> world \<Rightarrow> session" where
  "local_websocket e w =
     \<lparr>s_type = websocket, s_id = random_uuid e (w_rng w), s_node_id = w_node_id w, s_port = 0,
      s_host = [], s_open = False, s_header_length = 0, s_queue = []\<rparr>"

lemma next_after_heap: "w\<lparr>w_next := n, w_heap := h\<rparr> = w\<lparr>w_heap := h, w_next := n\<rparr>"
  by (rule world.equality) simp_all

lemma websocket_on_accepted_eq:
  "websocket_on_accepted e False w =
     start_op Ws_listen (session_start (w_next w)
       (snd (add_session e (w_next w)
         (w\<lparr>w_rng := Suc (w_rng w), w_heap := (w_heap w)(w_next w := local_websocket e w),
            w_next := Suc (w_next w)\<rparr>))))"
  by (simp add: websocket_on_accepted_def websocket_do_accept_def new_websocket_session_def draw_uuid_def
      allocate_def set_node_id_def update_session_def local_websocket_def Let_def split_beta
      next_after_heap)

lemma outcome_accepted:
  assumes "runtime_ok e w"
  shows "runtime_ok e (tcp_on_accepted e error w)" and "runtime_ok e (websocket_on_accepted e error w)"
proof -
  have ok: "node_ok e w" using assms by (simp add: runtime_ok_def)
  have started: "runtime_ok e (session_start (w_next w) (snd (add_session e (w_next w)
      (w\<lparr>w_rng := Suc (w_rng w), w_heap := (w_heap w)(w_next w := s), w_next := Suc (w_next w)\<rparr>))))"
    if "s_queue s = []" for s
    using new_session_evolves [OF ok refl that refl prod.collapse [symmetric]]
    by (intro runtime_ok_evolves [OF assms]) blast+
  have listen: "runtime_ok e (start_op Tcp_listen v)" "runtime_ok e (start_op Ws_listen v)"
    if "runtime_ok e v" for v
    using that by (simp_all add: runtime_ok_start_idle)
  show "runtime_ok e (tcp_on_accepted e error w)"
    using listen(1) [OF started, of "dialled_session e w"] listen(1) [OF assms]
    by (cases error) (simp_all add: tcp_on_accepted_eq dialled_session_def,
        simp add: tcp_on_accepted_def tcp_do_accept_def)
  show "runtime_ok e (websocket_on_accepted e error w)"
    using listen(2) [OF started, of "local_websocket e w"] listen(2) [OF assms]
    by (cases error) (simp_all add: websocket_on_accepted_eq local_websocket_def,
        simp add: websocket_on_accepted_def websocket_do_accept_def)
qed

text \<open>Tasks, completions, calls.\<close>

lemma remove_sessions_evolves:
  "node_ok e w \<Longrightarrow> \<exists>w'. remove_sessions e ids w = Inr w' \<and> node_ok e w' \<and> evolves w w'"
proof (induction ids arbitrary: w)
  case Nil
  then show ?case by simp
next
  case (Cons i ids)
  obtain b v where v: "remove_session e i w = Inr (b, v)" "node_ok e v" "evolves w v"
    using remove_session_evolves [OF Cons.prems] by blast
  with Cons.IH [OF v(2)] show ?case
    using evolves_trans [OF v(3)] by auto
qed

lemma outcome_evolves:
  "runtime_ok e w \<Longrightarrow> \<exists>w'. r = Inr w' \<and> node_ok e w' \<and> evolves w w' \<Longrightarrow> outcome_ok e r"
  by (auto intro: runtime_ok_evolves)

lemma outcome_connect:
  assumes "runtime_ok e w"
  shows "outcome_ok e (chain (state_connect e host port d cpn w) (\<lambda>(_, w'). Inr w'))"
proof -
  have "node_ok e w" using assms by (simp add: runtime_ok_def)
  then obtain r w' where "state_connect e host port d cpn w = Inr (r, w')" "node_ok e w'" "evolves w w'"
    by (rule state_connect_evolves)
  then show ?thesis using assms by (auto intro: runtime_ok_evolves)
qed

lemma outcome_run_task:
  assumes "runtime_ok e w" and "w_posted w = before @ t # after"
  shows "outcome_ok e (run_task e t (w\<lparr>w_posted := before @ after\<rparr>))"
proof -
  let ?w = "w\<lparr>w_posted := before @ after\<rparr>"
  note take = runtime_ok_take_task [OF assms]
  show ?thesis
  proof (cases t)
    case (Run_read_header a)
    then have "runtime_ok e (start_op (Read_header a) ?w)"
      using take by (intro runtime_ok_start_read [of e ?w a _ 0]) simp_all
    then show ?thesis by (simp add: run_task_def Run_read_header tcp_read_header_def)
  next
    case (Run_on_send a m)
    then show ?thesis
      using take runtime_ok_on_send [of e ?w a m]
      by (simp add: run_task_def get_type_def split: session_type.split)
  next
    case (Run_ws_accept a)
    then have "runtime_ok e (start_op (Ws_accept a) ?w)"
      using take by (intro runtime_ok_start_read [of e ?w a _ 0]) simp_all
    then show ?thesis by (simp add: run_task_def Run_ws_accept)
  next
    case (Run_connect host port)
    then show ?thesis using outcome_connect [OF take(1)] by (simp add: run_task_def)
  qed
qed

lemma runtime_ok_update_session:
  assumes "\<And>s. same_core s (f s)" and "runtime_ok e w"
  shows "runtime_ok e (update_session a f w)" and "readers b (update_session a f w) = readers b w"
proof -
  have "node_ok e w" using assms(2) by (simp add: runtime_ok_def)
  then show "runtime_ok e (update_session a f w)"
    using assms by (intro runtime_ok_evolves [OF assms(2)] evolves_update_session node_ok_update_session)
  show "readers b (update_session a f w) = readers b w"
    by (simp add: readers_def) (simp add: update_session_def)
qed

lemma outcome_complete_op:
  assumes "runtime_ok e w" and "op \<in> set (w_pending w)"
  shows "outcome_ok e (complete_op e op error bytes w)"
proof -
  let ?w = "finish_op op w"
  note fin = runtime_ok_finish [OF assms]
  show ?thesis
  proof (cases op)
    case (Read_header a)
    let ?v = "update_session a (\<lambda>s. s\<lparr>s_header_length := get32 bytes\<rparr>) ?w"
    have v: "runtime_ok e ?v" "readers a ?v = 0" "a < w_next ?v"
      using runtime_ok_update_session [OF same_core_updates(5) fin(1)] fin(2) [of a] fin(3) [of a]
      by (simp_all add: Read_header) (simp add: update_session_def)
    have "s_type (w_heap ?v a) = tcp"
      using fin(5) by (simp add: Read_header update_session_def)
    then have "runtime_ok e (start_op (Read_body a n) ?v)" for n
      using v by (intro runtime_ok_start_read [of e ?v a _ n]) simp_all
    then show ?thesis
      using outcome_drop_session [OF v(1), of a]
      by (simp add: complete_op_def Read_header tcp_on_header_def tcp_read_body_def Let_def)
  next
    case (Read_body a n)
    then show ?thesis
      using fin outcome_drop_session [OF fin(1), of a]
        outcome_answer_and [of e ?w a "Read_header a" bytes]
      by (cases error) (simp_all add: complete_op_def on_body_answer_and tcp_read_header_def [abs_def],
          simp add: tcp_on_body_def)
  next
    case (Write a m)
    then show ?thesis
      using fin outcome_on_write(1) [of e ?w a error] by (simp add: complete_op_def)
  next
    case (Ws_accept a)
    let ?v = "update_session a (\<lambda>s. s\<lparr>s_open := True\<rparr>) ?w"
    have v: "runtime_ok e ?v" "readers a ?v = 0" "a < w_next ?v"
      using runtime_ok_update_session [OF same_core_updates(4) fin(1)] fin(2) [of a] fin(3) [of a]
      by (simp_all add: Ws_accept) (simp add: update_session_def)
    show ?thesis
    proof (cases error)
      case True
      then show ?thesis
        using outcome_drop_session [OF fin(1), of a]
        by (simp add: complete_op_def Ws_accept websocket_on_accept_def)
    next
      case False
      let ?u = "broadcast_to_nodes (frame_bytes (crc_ccitt e) True
          [join_payload (get_id a ?v) (random_uuid e (w_rng ?v))]) (?v\<lparr>w_rng := Suc (w_rng ?v)\<rparr>)"
      have nv: "node_ok e (?v\<lparr>w_rng := Suc (w_rng ?v)\<rparr>)"
        using v(1) by (simp add: runtime_ok_def node_ok_def container_wf_def)
      have ev: "evolves ?v ?u"
        using nv by (intro evolves_trans [OF _ evolves_broadcast]) (auto simp: evolves_def node_ok_def)
      have "node_ok e ?u"
        using nv by (simp add: node_ok_def broadcast_eq container_wf_def)
      moreover have "s_type (w_heap ?u a) = websocket"
        using fin(5) by (simp add: Ws_accept update_session_def broadcast_eq)
      ultimately have "runtime_ok e (start_op (Ws_read a) ?u)"
        using v ev evolves_next [OF ev] readers_evolves [OF ev v(3)]
        by (intro runtime_ok_start_read [of e ?u a _ 0] runtime_ok_evolves [OF v(1)]) auto
      then show ?thesis
        using False by (simp add: complete_op_def Ws_accept websocket_on_accept_def draw_uuid_def
            websocket_read_body_def get_id_def Let_def)
    qed
  next
    case (Ws_read a)
    then show ?thesis
      using fin outcome_drop_session [OF fin(1), of a]
        outcome_answer_and [of e ?w a "Ws_read a" bytes]
      by (cases error) (simp_all add: complete_op_def on_body_answer_and websocket_read_body_def [abs_def],
          simp add: websocket_on_read_def)
  next
    case (Ws_write a m)
    then show ?thesis
      using fin outcome_on_write(2) [of e ?w a error] by (simp add: complete_op_def)
  qed (use fin(1) outcome_accepted in \<open>simp_all add: complete_op_def\<close>)
qed

lemma send_to_node_evolves:
  assumes "node_ok e w" and "index_law e"
  shows "evolves w (send_to_node e n m w)" and "node_ok e (send_to_node e n m w)"
proof -
  let ?r = "node_type_range e (w_sessions w) (w_filed w) (w_heap w) n tcp"
  have "evolves w (send_to_node e n m w) \<and> node_ok e (send_to_node e n m w)"
  proof (cases "?r = []")
    case True
    then show ?thesis using assms(1) by (simp add: send_to_node_def Let_def)
  next
    case False
    have "set ?r \<subseteq> set (w_sessions w)"
      using assms(2) by (simp add: index_law_def)
    moreover have "?r ! (unat (w_round_robin w n) mod length ?r) \<in> set ?r"
      using False by simp
    ultimately have "?r ! (unat (w_round_robin w n) mod length ?r) < w_next w"
      using assms(1) by (auto simp: node_ok_def)
    then show ?thesis
      using assms(1) by (auto simp: send_to_node_eq [OF refl False] evolves_def node_ok_def container_wf_def)
  qed
  then show "evolves w (send_to_node e n m w)" "node_ok e (send_to_node e n m w)"
    by blast+
qed

lemma outcome_attempt:
  assumes "node_attempt e w r" and "runtime_ok e w" and "index_law e"
  shows "outcome_ok e r"
  using assms(1)
proof (cases rule: node_attempt.cases)
  case (task before t "after")
  then show ?thesis using outcome_run_task [OF assms(2)] by simp
next
  case (completion op bytes error)
  then show ?thesis using outcome_complete_op [OF assms(2)] by simp
next
  case (connect host port)
  then show ?thesis using outcome_connect [OF assms(2)] by (simp add: node_connect_def)
next
  case (disconnect n)
  have "node_ok e w" using assms(2) by (simp add: runtime_ok_def)
  then show ?thesis
    using outcome_evolves [OF assms(2) remove_sessions_evolves]
    by (simp add: disconnect node_disconnect_def state_disconnect_def)
next
  case disconnect_all
  have "node_ok e w" using assms(2) by (simp add: runtime_ok_def)
  then show ?thesis
    using outcome_evolves [OF assms(2) remove_sessions_evolves]
    by (simp add: disconnect_all node_disconnect_all_def disconnect_all_def)
next
  case (broadcast m)
  have ok: "node_ok e w" using assms(2) by (simp add: runtime_ok_def)
  then have "evolves w (broadcast_to_nodes m w)" "node_ok e (broadcast_to_nodes m w)"
    by (auto simp: node_ok_def broadcast_eq container_wf_def intro: evolves_broadcast [simplified broadcast_eq])
  then show ?thesis
    using runtime_ok_evolves [OF assms(2)] by (simp add: broadcast)
next
  case (send n m)
  have "node_ok e w" using assms(2) by (simp add: runtime_ok_def)
  then show ?thesis
    using runtime_ok_evolves [OF assms(2)] send_to_node_evolves assms(3) by (simp add: send)
qed

lemma runtime_ok_start:
  assumes "container_law e"
  shows "runtime_ok e (node_run p q (node_parse_args th port ws cpn (new_state e)))"
proof -
  have "runtime_ok e (new_websocket_listener q (tcp_do_accept (new_tcp_listener p
      (node_parse_args th port ws cpn (new_state e)))))"
    using assms
    by (simp add: runtime_ok_def node_ok_def container_wf_def new_websocket_listener_def tcp_do_accept_def
        start_op_def new_tcp_listener_def node_parse_args_def new_state_def ops_below_def
        outstanding_writes_def tcp_inflight_def ws_inflight_def readers_def reads_def List.map_filter_simps
        Let_def)
  then show ?thesis
    by (simp add: node_run_def websocket_do_accept_def runtime_ok_start_idle)
qed

lemma reachable_runtime_ok:
  assumes "reachable e w" and "container_law e" and "index_law e"
  shows "runtime_ok e w"
  using assms(1)
proof induction
  case (start p q th port ws cpn)
  then show ?case by (rule runtime_ok_start [OF assms(2)])
next
  case (step w w')
  then show ?case using outcome_attempt [OF step.hyps(2) step.IH assms(3)] by simp
qed

text \<open>
  C7. In every reachable state of the node, whatever the network, the peers and the order of completions
  did, each session has at most one write outstanding, which is the head of its queue, and at most one
  read loop (counting a read loop about to start), and no two registered sessions share an id.
\<close>

theorem reachable_sessions_safe:
  assumes "reachable e w" and "container_law e" and "index_law e"
  shows "(outstanding_writes a w = [] \<or> outstanding_writes a w = take 1 (get_queue a w)) \<and>
    readers a w \<le> 1 \<and> container_wf w \<and> set (w_sessions w) \<subseteq> {..<w_next w}"
  using reachable_runtime_ok [OF assms] by (simp add: runtime_ok_def node_ok_def)

text \<open>
  C6. Memory safety of a running node: no task, completion or call attempted in a reachable state reads
  outside a buffer or pops an empty queue, whatever bytes the peers sent; the one fault possible is the
  \<^verbatim>\<open>std::overflow_error\<close> of a response frame that would exceed 4 GiB.
\<close>

theorem reachable_no_out_of_bounds:
  assumes "reachable e w" and "container_law e" and "index_law e" and "node_attempt e w r"
  shows "case r of Inl f \<Rightarrow> f = Frame_too_large | Inr w' \<Rightarrow> reachable e w'"
  using outcome_attempt [OF assms(4) reachable_runtime_ok [OF assms(1-3)] assms(3)] reachable.step [OF assms(1)] assms(4)
  by (auto split: sum.split)

text \<open>
  C13. Type safety of the asynchronous operations: in every reachable state each task and each outstanding
  operation belongs to an allocated session, and the operations of a TCP stream (reading a header or a
  body, writing) to a TCP session, the handshake, reads and writes of a WebSocket stream to a WebSocket
  session.
\<close>

theorem reachable_operations_typed:
  assumes "reachable e w" and "container_law e" and "index_law e"
  shows "list_all (task_typed (w_heap w)) (w_posted w) \<and> strands_below (w_next w) (w_posted w) \<and>
    list_all (op_typed (w_heap w)) (w_pending w) \<and> ops_below (w_next w) (w_pending w)"
  using reachable_runtime_ok [OF assms] by (simp add: runtime_ok_def)

section \<open>A reachable state\<close>

definition demo_started :: world where
  "demo_started = node_run 7000 7001 (node_parse_args (Some 2) None None (Some 3) (new_state demo_env))"

lemma demo_started_reachable: "reachable demo_env demo_started"
  unfolding demo_started_def by (rule reachable.start)

text \<open>The node after a first TCP connection was accepted.\<close>

definition demo_accepted :: world where
  "demo_accepted = tcp_on_accepted demo_env False (finish_op Tcp_listen demo_started)"

lemma demo_accept_attempt: "node_attempt demo_env demo_started (Inr demo_accepted)"
proof -
  have "node_attempt demo_env demo_started (complete_op demo_env Tcp_listen False [] demo_started)"
    by (rule node_attempt.completion)
      (simp_all add: demo_started_def node_run_def websocket_do_accept_def tcp_do_accept_def start_op_def
        new_websocket_listener_def)
  then show ?thesis by (simp add: complete_op_def demo_accepted_def)
qed

lemma demo_accepted_reachable: "reachable demo_env demo_accepted"
  using demo_started_reachable demo_accept_attempt by (rule reachable.step)

lemma demo_accepted_posted: "w_posted demo_accepted = [Run_read_header 0]"
  by (simp add: demo_accepted_def tcp_on_accepted_eq demo_started_def node_run_def websocket_do_accept_def
      tcp_do_accept_def start_op_def new_websocket_listener_def new_tcp_listener_def node_parse_args_def
      new_state_def add_session_def container_insert_def find_by_id_def session_start_eq get_type_def
      dialled_session_def finish_op_def Let_def)

lemma demo_accepted_eq:
  "w_sessions demo_accepted = [0]" "w_next demo_accepted = 1" "w_pending demo_accepted = [Ws_listen, Tcp_listen]"
  "s_type (w_heap demo_accepted 0) = tcp" "s_queue (w_heap demo_accepted 0) = []"
  "s_id (w_heap demo_accepted 0) = 2" "s_node_id (w_heap demo_accepted 0) = nil_uuid"
  by (simp_all add: demo_accepted_def tcp_on_accepted_eq demo_started_def node_run_def websocket_do_accept_def
      tcp_do_accept_def start_op_def new_websocket_listener_def new_tcp_listener_def node_parse_args_def
      new_state_def add_session_def container_insert_def find_by_id_def session_start_eq get_type_def
      dialled_session_def finish_op_def Let_def)

text \<open>The same node after a second TCP connection was accepted.\<close>

definition demo_two :: world where
  "demo_two = tcp_on_accepted demo_env False (finish_op Tcp_listen demo_accepted)"

lemma demo_two_reachable: "reachable demo_env demo_two"
proof -
  have "node_attempt demo_env demo_accepted (complete_op demo_env Tcp_listen False [] demo_accepted)"
    by (rule node_attempt.completion) (simp_all add: demo_accepted_eq)
  then have "node_attempt demo_env demo_accepted (Inr demo_two)"
    by (simp add: complete_op_def demo_two_def)
  then show ?thesis by (rule reachable.step [OF demo_accepted_reachable])
qed

section \<open>Round-robin sending\<close>

text \<open>
  C31. Round-robin sending is fair.  Let \<open>rs\<close> be the sessions the index on node id and type yields for a
  node.  Then \<open>k\<close> times as many messages as there are such sessions are handed over one by one, in order, each
  to one registered session, and every session of \<open>rs\<close> is handed exactly \<open>k\<close> of them, as long as the 64 bit
  counter does not wrap.  Which sessions the index yields is another matter: sessions are filed under the nil
  id, and \<open>identify_makes_index_stale\<close> is why a session of an identified peer need not be found.
\<close>

theorem send_to_node_fair:
  assumes "index_law e"
    and "rs = node_type_range e (w_sessions w) (w_filed w) (w_heap w) n tcp"
    and "length ms = k * length rs"
    and "unat (w_round_robin w n) + length ms < 2 ^ 64"
  shows "\<exists>as. w_posted (send_all_to_node e n ms w) = w_posted w @ map2 Run_on_send as ms \<and>
    length as = length ms \<and> set as \<subseteq> set (w_sessions w) \<and> mset as = repeat_mset k (mset rs)"
proof (cases "rs = []")
  case True
  then show ?thesis using assms(3) by simp
next
  case False
  let ?as = "map (\<lambda>i. rs ! ((unat (w_round_robin w n) + i) mod length rs)) [0..<k * length rs]"
  have all: "mset ?as = repeat_mset k (mset rs)"
    by (rule mset_rounds [OF False])
  then have "set ?as \<subseteq> set rs"
    by (metis count_eq_zero_iff count_repeat_mset mult_eq_0_iff set_mset_mset subsetI)
  moreover have "set rs \<subseteq> set (w_sessions w)"
    using assms(1,2) by (simp add: index_law_def)
  moreover have "map2 Run_on_send ?as ms =
      map (\<lambda>i. Run_on_send (rs ! ((unat (w_round_robin w n) + i) mod length rs)) (ms ! i)) [0..<length ms]"
    by (rule nth_equalityI) (simp_all add: assms(3))
  ultimately show ?thesis
    using send_all_to_node_eq [OF assms(2) False assms(4)] all assms(3)
    by (intro exI [of _ ?as]) auto
qed

text \<open>Four messages for the peers that have not identified themselves: each of the two sessions gets two.\<close>

theorem send_to_node_fair_witness:
  "reachable demo_env demo_two \<and>
   (\<exists>as. w_posted (send_all_to_node demo_env nil_uuid [[1], [2], [3], [4]] demo_two) =
      w_posted demo_two @ map2 Run_on_send as [[1], [2], [3], [4]] \<and> mset as = {#0, 0, 1, 1#})"
proof -
  have range: "[0, 1] = node_type_range demo_env (w_sessions demo_two) (w_filed demo_two) (w_heap demo_two) nil_uuid tcp"
    and start: "w_round_robin demo_two nil_uuid = 0"
    by (simp_all add: demo_two_def demo_accepted_def tcp_on_accepted_eq demo_started_def node_run_def
        websocket_do_accept_def tcp_do_accept_def start_op_def new_websocket_listener_def new_tcp_listener_def
        node_parse_args_def new_state_def add_session_def container_insert_def find_by_id_def session_start_eq
        get_type_def get_id_def dialled_session_def finish_op_def Let_def)
  have "\<exists>as. w_posted (send_all_to_node demo_env nil_uuid [[1], [2], [3], [4]] demo_two) =
      w_posted demo_two @ map2 Run_on_send as [[1], [2], [3], [4]] \<and> length as = length [[1], [2], [3], [4 :: byte]] \<and>
      set as \<subseteq> set (w_sessions demo_two) \<and> mset as = repeat_mset 2 (mset [0, 1])"
    by (rule send_to_node_fair [OF demo_index_law range]) (simp_all add: start)
  moreover have "repeat_mset 2 (mset [0, 1]) = {#0, 0, 1, 1 :: nat#}"
    by (rule multiset_eqI) simp
  ultimately show ?thesis
    using demo_two_reachable by metis
qed

lemma demo_accepted_rng: "w_rng demo_accepted = 2"
  by (simp add: demo_accepted_def tcp_on_accepted_eq demo_started_def node_run_def websocket_do_accept_def
      tcp_do_accept_def start_op_def new_websocket_listener_def new_tcp_listener_def node_parse_args_def
      new_state_def add_session_def container_insert_def find_by_id_def session_start_eq get_type_def
      dialled_session_def finish_op_def Let_def)

text \<open>A session of the demo node that has read the header of a frame and waits for its \<open>n\<close> bytes.\<close>

definition demo_reading :: "nat \<Rightarrow> world" where
  "demo_reading n =
     start_op (Read_body 0 n) (update_session 0 (\<lambda>s. s\<lparr>s_header_length := of_nat n\<rparr>)
       (finish_op (Read_header 0) (start_op (Read_header 0) (demo_accepted\<lparr>w_posted := []\<rparr>))))"

lemma demo_reading_attempts:
  shows "node_attempt demo_env demo_accepted (Inr (start_op (Read_header 0) (demo_accepted\<lparr>w_posted := []\<rparr>)))"
    and "n < 2 ^ 32 \<Longrightarrow>
      node_attempt demo_env (start_op (Read_header 0) (demo_accepted\<lparr>w_posted := []\<rparr>)) (Inr (demo_reading n))"
proof -
  let ?w = "start_op (Read_header 0) (demo_accepted\<lparr>w_posted := []\<rparr>)"
  have "node_attempt demo_env demo_accepted (run_task demo_env (Run_read_header 0) (demo_accepted\<lparr>w_posted := [] @ []\<rparr>))"
    by (rule node_attempt.task) (simp_all add: demo_accepted_posted next_on_strand_def)
  then show "node_attempt demo_env demo_accepted (Inr ?w)"
    by (simp add: run_task_def tcp_read_header_def)
  assume n: "n < 2 ^ 32"
  have "node_attempt demo_env ?w (complete_op demo_env (Read_header 0) False (put32 (of_nat n)) ?w)"
    by (rule node_attempt.completion) (simp_all add: start_op_def)
  moreover have "complete_op demo_env (Read_header 0) False (put32 (of_nat n)) ?w = Inr (demo_reading n)"
    using n by (simp add: complete_op_def tcp_on_header_def tcp_read_body_def demo_reading_def Let_def
        update_session_def unat_of_nat)
  ultimately show "node_attempt demo_env ?w (Inr (demo_reading n))" by simp
qed

lemma demo_reading_reachable:
  assumes "n < 2 ^ 32"
  shows "reachable demo_env (demo_reading n)"
  using demo_reading_attempts assms demo_accepted_reachable reachable.step by metis

theorem reachable_sessions_safe_witness:
  "(outstanding_writes 0 (demo_reading 40) = [] \<or>
    outstanding_writes 0 (demo_reading 40) = take 1 (get_queue 0 (demo_reading 40))) \<and>
   readers 0 (demo_reading 40) \<le> 1 \<and> 0 < readers 0 (demo_reading 40) \<and> container_wf (demo_reading 40)"
  using reachable_sessions_safe [OF demo_reading_reachable demo_container_law demo_index_law, of 40 0]
  by (simp add: demo_reading_def readers_def reads_def)

theorem reachable_no_out_of_bounds_witness: "reachable demo_env demo_accepted"
  using reachable_no_out_of_bounds [OF demo_started_reachable demo_container_law demo_index_law
      demo_accept_attempt] by simp

theorem reachable_operations_typed_witness: "s_type (w_heap demo_accepted 0) = tcp"
  using reachable_operations_typed [OF demo_accepted_reachable demo_container_law demo_index_law]
  by (simp add: demo_accepted_posted)

end
