(* ===== verification/Clients.thy ===== *)
theory Clients
  imports Runtime_Invariant
begin

text \<open>
  \<^verbatim>\<open>src/aurum/tcp_client.cpp\<close>: the blocking TCP client, over the byte stream of its socket, and the framing
  that it and the read loop of a TCP session share: a four byte length, then that many bytes.
\<close>

section \<open>Connecting\<close>

text \<open>
  What the network answers: whether a host and a service resolve, whether the endpoints found accept a
  connection, and whether the server completes a WebSocket handshake for a \<^verbatim>\<open>Host\<close> header and a target.
\<close>

record network =
  net_resolves :: "string \<Rightarrow> string \<Rightarrow> bool"
  net_connects :: "string \<Rightarrow> string \<Rightarrow> bool"
  net_handshakes :: "string \<Rightarrow> string \<Rightarrow> bool"

text \<open>\<^verbatim>\<open>std::to_string\<close> of an unsigned number: its decimal digits.\<close>

fun decimal :: "nat \<Rightarrow> string" where
  "decimal n = (if n < 10 then [char_of (48 + n)] else decimal (n div 10) @ [char_of (48 + n mod 10)])"

declare decimal.simps [simp del]

definition to_string :: "16 word \<Rightarrow> string" where
  "to_string port = decimal (unat port)"

text \<open>What the blocking calls of both clients throw.\<close>

datatype client_error = Resolve_failed | Connect_failed | Write_failed | Read_failed

section \<open>The blocking TCP client\<close>

text \<open>
  \<open>tc_open\<close> is what \<^verbatim>\<open>socket_.is_open()\<close> answers; \<open>tc_incoming\<close> are the bytes of the connection that have
  arrived and are not read yet, \<open>tc_outgoing\<close> those handed to the socket.
\<close>

record tcp_client =
  tc_open :: bool
  tc_builder :: base_builder
  tc_incoming :: "byte list"
  tc_outgoing :: "byte list"

definition new_tcp_client :: tcp_client where
  "new_tcp_client = \<lparr>tc_open = False, tc_builder = as_request, tc_incoming = [], tc_outgoing = []\<rparr>"

definition tcp_client_connect ::
    "network \<Rightarrow> string \<Rightarrow> 16 word \<Rightarrow> tcp_client \<Rightarrow> client_error + tcp_client" where
  "tcp_client_connect net host port c =
     (if \<not> net_resolves net host (to_string port) then Inl Resolve_failed
      else if \<not> net_connects net host (to_string port) then Inl Connect_failed
      else Inr (c\<lparr>tc_open := True, tc_incoming := [], tc_outgoing := []\<rparr>))"

definition tcp_client_get_builder :: "tcp_client \<Rightarrow> base_builder" where
  "tcp_client_get_builder c = tc_builder c"

text \<open>\<^verbatim>\<open>boost::asio::write\<close> sends all bytes or throws.\<close>

definition tcp_client_send :: "bool \<Rightarrow> byte list \<Rightarrow> tcp_client \<Rightarrow> client_error + tcp_client" where
  "tcp_client_send error data c =
     (if error then Inl Write_failed else Inr (c\<lparr>tc_outgoing := tc_outgoing c @ data\<rparr>))"

text \<open>\<^verbatim>\<open>boost::asio::read\<close> into a buffer of \<open>n\<close> bytes; it throws when the stream ends before.\<close>

definition asio_read :: "nat \<Rightarrow> tcp_client \<Rightarrow> client_error + (byte list \<times> tcp_client)" where
  "asio_read n c =
     (if n \<le> length (tc_incoming c)
      then Inr (take n (tc_incoming c), c\<lparr>tc_incoming := drop n (tc_incoming c)\<rparr>) else Inl Read_failed)"

definition tcp_client_read :: "tcp_client \<Rightarrow> client_error + (byte list \<times> tcp_client)" where
  "tcp_client_read c =
     chain (asio_read 4 c) (\<lambda>(header, c1).
       let response_header_length = get32 header
       in chain (asio_read (unat response_header_length) c1) (\<lambda>(response_body, c2).
            Inr (put32 response_header_length @ response_body, c2)))"

definition tcp_client_disconnect :: "tcp_client \<Rightarrow> tcp_client" where
  "tcp_client_disconnect c = (if tc_open c then c\<lparr>tc_open := False\<rparr> else c)"

text \<open>The destructor.\<close>

definition destroy_tcp_client :: "tcp_client \<Rightarrow> tcp_client" where
  "destroy_tcp_client c = tcp_client_disconnect c"

text \<open>Sending and reading several times.\<close>

fun tcp_client_sends :: "byte list list \<Rightarrow> tcp_client \<Rightarrow> client_error + tcp_client" where
  "tcp_client_sends [] c = Inr c"
| "tcp_client_sends (f # fs) c = chain (tcp_client_send False f c) (tcp_client_sends fs)"

fun tcp_client_reads :: "nat \<Rightarrow> tcp_client \<Rightarrow> client_error + (byte list list \<times> tcp_client)" where
  "tcp_client_reads 0 c = Inr ([], c)"
| "tcp_client_reads (Suc n) c =
     chain (tcp_client_read c) (\<lambda>(frame, c1).
       chain (tcp_client_reads n c1) (\<lambda>(frames, c2). Inr (frame # frames, c2)))"

section \<open>Framing\<close>

definition is_frame :: "byte list \<Rightarrow> bool" where
  "is_frame f \<longleftrightarrow> 4 \<le> length f \<and> unat (get32 (take 4 f)) + 4 = length f"

lemma get_data_is_frame: "buffers b \<noteq> [] \<Longrightarrow> get_data crc b True = Inr f \<Longrightarrow> is_frame f"
  using get_data_header(1) [of b crc f] by (auto simp: is_frame_def)

lemma tcp_client_read_frame:
  assumes "is_frame f" and "tc_incoming c = f @ rest"
  shows "tcp_client_read c = Inr (f, c\<lparr>tc_incoming := rest\<rparr>)"
proof -
  let ?n = "unat (get32 (take 4 f))"
  have f: "4 \<le> length f" "?n = length f - 4"
    using assms(1) by (auto simp: is_frame_def)
  have "put32 (get32 (take 4 f)) @ drop 4 f = f"
    using f(1) by (rule u32.split_get)
  then show ?thesis
    using f assms(2) by (simp add: tcp_client_read_def asio_read_def Let_def)
qed

lemma tcp_client_reads_frames:
  "list_all is_frame fs \<Longrightarrow> tc_incoming c = concat fs @ rest \<Longrightarrow>
   tcp_client_reads (length fs) c = Inr (fs, c\<lparr>tc_incoming := rest\<rparr>)"
proof (induction fs arbitrary: c)
  case (Cons f fs)
  then have "tcp_client_read c = Inr (f, c\<lparr>tc_incoming := concat fs @ rest\<rparr>)"
    by (intro tcp_client_read_frame) simp_all
  then show ?case
    using Cons.IH [of "c\<lparr>tc_incoming := concat fs @ rest\<rparr>"] Cons.prems by simp
qed simp

lemma tcp_client_sends_eq: "tcp_client_sends fs c = Inr (c\<lparr>tc_outgoing := tc_outgoing c @ concat fs\<rparr>)"
  by (induction fs arbitrary: c) (simp_all add: tcp_client_send_def)

text \<open>
  Framing: frames written back to back on a stream, each made by \<^verbatim>\<open>get_data\<close> of a builder with
  something queued, are read back one by one, bytes unchanged, and what follows them is left unread.
\<close>

lemma client_reads_frames:
  assumes "list_all (\<lambda>b. buffers b \<noteq> []) bs"
    and "list_all2 (\<lambda>b f. get_data crc b True = Inr f) bs fs"
    and "tcp_client_sends fs c = Inr c'" and "tc_outgoing c = []"
    and "tc_incoming d = tc_outgoing c' @ rest"
  shows "tcp_client_reads (length bs) d = Inr (fs, d\<lparr>tc_incoming := rest\<rparr>)"
proof -
  have "list_all is_frame fs"
    using assms(2,1) by (induction rule: list_all2_induct) (auto intro: get_data_is_frame)
  moreover have "length bs = length fs"
    using assms(2) by (rule list_all2_lengthD)
  moreover have "tc_incoming d = concat fs @ rest"
    using assms(3-5) by (auto simp: tcp_client_sends_eq)
  ultimately show ?thesis
    using tcp_client_reads_frames [of fs d rest] by simp
qed

section \<open>The read loop over a stream\<close>

text \<open>
  The read loop of a TCP session fed with a byte stream: whenever the outstanding read has its bytes, it
  completes.  \<open>handle_frames\<close> is what this should amount to: the parser on each frame in turn, each
  answer sent; the length of the current frame is left in the session.
\<close>

function tcp_receive :: "env \<Rightarrow> addr \<Rightarrow> byte list \<Rightarrow> world \<Rightarrow> fault + world" where
  "tcp_receive e a stream w =
     (if length stream < 4 then Inr w
      else chain (complete_op e (Read_header a) False (take 4 stream) w) (\<lambda>w1.
        let n = unat (s_header_length (w_heap w1 a)); rest = drop 4 stream
        in if length rest < n then Inr w1
           else chain (complete_op e (Read_body a n) False (take n rest) w1)
                  (tcp_receive e a (drop n rest))))"
  by pat_completeness auto
termination by (relation "measure (\<lambda>(e, a, stream, w). length stream)") auto

declare tcp_receive.simps [simp del]

definition answer_frame :: "env \<Rightarrow> addr \<Rightarrow> byte list \<Rightarrow> world \<Rightarrow> fault + world" where
  "answer_frame e a f w =
     answer_and (\<lambda>v. v) e (drop 4 f) a
       (update_session a (\<lambda>s. s\<lparr>s_header_length := get32 (take 4 f)\<rparr>) w)"

fun handle_frames :: "env \<Rightarrow> addr \<Rightarrow> byte list list \<Rightarrow> world \<Rightarrow> fault + world" where
  "handle_frames e a [] w = Inr w"
| "handle_frames e a (f # fs) w = chain (answer_frame e a f w) (handle_frames e a fs)"

lemma finish_start:
  assumes "reads a w = 0" and "reads_at a op"
  shows "finish_op op (start_op op w) = w"
proof -
  have "op \<notin> set (w_pending w)"
    using assms by (auto simp: reads_def filter_empty_conv)
  then show ?thesis
    by (simp add: finish_op_def start_op_def remove1_append)
qed

lemma answer_and_split:
  "answer_and k e frame a w = chain (answer_and (\<lambda>v. v) e frame a w) (\<lambda>v. Inr (k v))"
  by (cases "session_kernel_handle e (Some frame) a w") (auto simp: answer_and_def)

lemma tcp_receive_frame:
  assumes "reads a w = 0" and "is_frame f"
  shows "tcp_receive e a (f @ rest) (tcp_read_header a w) =
    chain (answer_frame e a f w) (\<lambda>v. tcp_receive e a rest (tcp_read_header a v))"
proof -
  let ?w1 = "update_session a (\<lambda>s. s\<lparr>s_header_length := get32 (take 4 f)\<rparr>) w"
  let ?n = "unat (get32 (take 4 f))"
  have f: "4 \<le> length f" "length (drop 4 f) = ?n"
    using assms(2) by (auto simp: is_frame_def)
  have header: "complete_op e (Read_header a) False (take 4 (f @ rest)) (tcp_read_header a w) =
      Inr (start_op (Read_body a ?n) ?w1)"
    using f(1) finish_start [OF assms(1), of "Read_header a"]
    by (simp add: complete_op_def tcp_read_header_def tcp_on_header_def tcp_read_body_def)
      (simp add: update_session_def)
  have body: "complete_op e (Read_body a ?n) False (drop 4 f) (start_op (Read_body a ?n) ?w1) =
      chain (answer_frame e a f w) (\<lambda>v. Inr (tcp_read_header a v))"
    using finish_start [of a ?w1 "Read_body a ?n"] assms(1)
    by (simp add: complete_op_def on_body_answer_and answer_frame_def)
      (subst answer_and_split, simp)
  have n: "unat (s_header_length (w_heap (start_op (Read_body a ?n) ?w1) a)) = ?n"
    by (simp add: update_session_def)
  have parts: "\<not> length (f @ rest) < 4" "take ?n (drop 4 (f @ rest)) = drop 4 f"
    "drop ?n (drop 4 (f @ rest)) = rest" "\<not> length (drop 4 (f @ rest)) < ?n"
    using f by simp_all
  have "tcp_receive e a (f @ rest) (tcp_read_header a w) =
      chain (chain (answer_frame e a f w) (\<lambda>v. Inr (tcp_read_header a v))) (tcp_receive e a rest)"
    by (subst tcp_receive.simps) (simp only: parts if_False header chain_simps Let_def n body)
  then show ?thesis
    by (cases "answer_frame e a f w") simp_all
qed

lemma answer_frame_cases:
  assumes "node_ok e w" and "a < w_next w"
  obtains "answer_frame e a f w = Inl Frame_too_large"
  | v where "answer_frame e a f w = Inr v" "node_ok e v" "a < w_next v" "w_pending v = w_pending w"
proof -
  let ?w1 = "update_session a (\<lambda>s. s\<lparr>s_header_length := get32 (take 4 f)\<rparr>) w"
  have ok1: "node_ok e ?w1" and ev1: "evolves w ?w1"
    using assms(1) by (simp_all add: node_ok_update_session evolves_update_session)
  have n1: "a < w_next ?w1"
    using assms(2) evolves_next [OF ev1] by simp
  from ok1 n1 show thesis
  proof (cases rule: answer_and_cases [of e ?w1 a "\<lambda>v. v" "drop 4 f"])
    case fault
    then show thesis using that(1) by (simp add: answer_frame_def)
  next
    case (goes_on v)
    have "w_pending v = w_pending w" "a < w_next v"
      using goes_on(3) n1 evolves_next [OF goes_on(3)] by (simp_all add: evolves_def update_session_def)
    then show thesis using that(2) goes_on(1,2) by (simp add: answer_frame_def)
  qed
qed

lemma tcp_receive_handle_frames:
  assumes "list_all is_frame fs" and "node_ok e w" and "a < w_next w" and "reads a w = 0"
  shows "tcp_receive e a (concat fs) (tcp_read_header a w) =
    chain (handle_frames e a fs w) (\<lambda>v. Inr (tcp_read_header a v))"
  using assms
proof (induction fs arbitrary: w)
  case Nil
  then show ?case by (subst tcp_receive.simps) simp
next
  case (Cons f fs)
  from Cons.prems have step: "tcp_receive e a (f @ concat fs) (tcp_read_header a w) =
      chain (answer_frame e a f w) (\<lambda>v. tcp_receive e a (concat fs) (tcp_read_header a v))"
    by (intro tcp_receive_frame) simp_all
  from Cons.prems(2,3) show ?case
  proof (cases rule: answer_frame_cases [of e w a f])
    case 1
    then show ?thesis using step by simp
  next
    case (2 v)
    have "reads a v = 0"
      using inflight_cong(3) [OF 2(4)] Cons.prems(4) by simp
    then show ?thesis
      using Cons.IH [OF _ 2(2,3)] Cons.prems(1) step 2(1) by simp
  qed
qed

text \<open>
  C5. The read loop over a whole stream: fed with frames back to back, each made by \<^verbatim>\<open>get_data\<close> of a
  builder with something queued, a TCP session waiting for a header parses exactly these frames, without
  their headers, one after the other and in order, sends each answer before it reads on, and ends waiting
  for the next header.
\<close>

theorem tcp_stream_handled:
  assumes "node_ok e w" and "a < w_next w" and "reads a w = 0"
    and "list_all (\<lambda>b. buffers b \<noteq> []) bs"
    and "list_all2 (\<lambda>b f. get_data (crc_ccitt e) b True = Inr f) bs fs"
  shows "tcp_receive e a (concat fs) (tcp_read_header a w) =
    chain (handle_frames e a fs w) (\<lambda>v. Inr (tcp_read_header a v)) \<and>
    list_all2 (\<lambda>b f. get_data (crc_ccitt e) b False = Inr (drop 4 f)) bs fs"
proof -
  have "list_all is_frame fs \<and> list_all2 (\<lambda>b f. get_data (crc_ccitt e) b False = Inr (drop 4 f)) bs fs"
    using assms(5,4) by (induction rule: list_all2_induct) (auto intro: get_data_is_frame get_data_header(2))
  then show ?thesis
    using tcp_receive_handle_frames [OF _ assms(1-3)] by simp
qed

theorem tcp_stream_handled_witness:
  "\<exists>f g. get_data crc_16_ccitt (request_add_ping 1 as_request) True = Inr f \<and>
     get_data crc_16_ccitt (response_add_join 2 1 as_response) True = Inr g \<and>
     tcp_receive demo_env 0 (f @ g) (tcp_read_header 0 demo_world) =
       chain (handle_frames demo_env 0 [f, g] demo_world) (\<lambda>v. Inr (tcp_read_header 0 v))"
proof -
  let ?bs = "[request_add_ping 1 as_request, response_add_join 2 1 as_response]"
  obtain f g where f: "get_data crc_16_ccitt (request_add_ping 1 as_request) True = Inr f"
    and g: "get_data crc_16_ccitt (response_add_join 2 1 as_response) True = Inr g"
    using get_data_frame_bytes [of "request_add_ping 1 as_request" crc_16_ccitt True]
      get_data_frame_bytes [of "response_add_join 2 1 as_response" crc_16_ccitt True]
    by (simp add: request_add_ping_def response_add_join_def frame_fits_small)
  have idle: "reads 0 demo_world = 0"
    by (simp add: reads_def)
  have ne: "list_all (\<lambda>b. buffers b \<noteq> []) ?bs"
    by (simp add: request_add_ping_def response_add_join_def)
  have built: "list_all2 (\<lambda>b f. get_data (crc_ccitt demo_env) b True = Inr f) ?bs [f, g]"
    using f g by simp
  have "tcp_receive demo_env 0 (concat [f, g]) (tcp_read_header 0 demo_world) =
      chain (handle_frames demo_env 0 [f, g] demo_world) (\<lambda>v. Inr (tcp_read_header 0 v))"
    using tcp_stream_handled [OF demo_node_ok _ idle ne built] by (simp del: handle_frames.simps)
  then show ?thesis using f g by (simp del: handle_frames.simps)
qed

end
