(* ===== verification/Node_Properties.thy ===== *)
theory Node_Properties
  imports Clients
begin

text \<open>
  Properties of the sessions and listeners as parts of a running node: accepting, the WebSocket
  handshake, failed operations, and what a node knows of the peers it dialled.
\<close>

section \<open>Accepting\<close>

text \<open>
  Accepting a TCP connection registers one new session under its drawn id (when that is free), with
  no node identity yet, starts its read loop once and listens again; a failed accept only listens again.
\<close>

lemma tcp_accept_spec:
  assumes "node_ok e w" and "find_by_id w (random_uuid e (w_rng w)) = None"
  shows "tcp_on_accepted e True w = tcp_do_accept w \<and>
    (let w' = tcp_on_accepted e False w; a = w_next w
     in find_by_id w' = (find_by_id w)(random_uuid e (w_rng w) \<mapsto> a) \<and>
        w_heap w' = (w_heap w)(a := dialled_session e w) \<and>
        w_posted w' = w_posted w @ [Run_read_header a] \<and>
        w_pending w' = w_pending w @ [Tcp_listen] \<and> node_ok e w')"
proof -
  let ?a = "w_next w" and ?i = "random_uuid e (w_rng w)"
  let ?v = "w\<lparr>w_rng := Suc (w_rng w), w_heap := (w_heap w)(?a := dialled_session e w), w_next := Suc ?a\<rparr>"
  have ok: "container_law e" "container_wf w" "set (w_sessions w) \<subseteq> {..<w_next w}"
    using assms(1) by (simp_all add: node_ok_def)
  have na: "?a \<notin> set (w_sessions w)"
    using ok(3) by auto
  have find: "find_by_id ?v = find_by_id w" and "container_wf ?v = container_wf w"
    using na by (intro find_by_id_cong container_wf_cong; auto)+
  then have wf: "container_wf ?v"
    using ok(2) by simp
  have i: "get_id ?a ?v = ?i"
    by (simp add: get_id_def dialled_session_def)
  have "find_by_id ?v (get_id ?a ?v) = None"
    using assms(2) by (simp only: find i)
  then have added: "find_by_id (snd (add_session e ?a ?v)) = (find_by_id w)(?i \<mapsto> ?a)"
    using reg.ins_free [of e ?v ?a] ok(1) wf by (simp only: add_session_def find i simp_thms)
  note f = add_session_fields [OF prod.collapse [symmetric] ok(1), of ?a ?v]
  let ?u = "snd (add_session e ?a ?v)"
  have start: "session_start ?a ?u = ?u\<lparr>w_posted := w_posted w @ [Run_read_header ?a]\<rparr>"
    using f(1,3) by (simp add: session_start_eq get_type_def dialled_session_def)
  have cong: "find_by_id (start_op op (?u\<lparr>w_posted := ts\<rparr>)) = find_by_id ?u" for op ts
    by (rule find_by_id_cong) simp_all
  have "node_ok e (session_start ?a ?u)"
    by (rule new_session_evolves(1) [OF assms(1) refl _ refl prod.collapse [symmetric]])
      (simp add: dialled_session_def)
  then show ?thesis
    using f(1,2,4) added
    by (simp add: Let_def tcp_on_accepted_eq start cong) (simp add: tcp_on_accepted_def start_op_def tcp_do_accept_def)
qed

section \<open>Failures\<close>

text \<open>
  Any failed operation of a registered session, reading a header or a body or writing over TCP, or
  the handshake, reading or writing over WebSocket, takes the session out of the registry and closes it,
  and starts no further operation.
\<close>

lemma failed_operation_drops_session:
  assumes "node_ok e w" and "find_by_id w (get_id a w) = Some a"
    and "r \<in> {tcp_on_header e a True bytes w, tcp_on_body e a True bytes w, tcp_on_write e a True w,
             websocket_on_accept e a True w, websocket_on_read e a True bytes w, websocket_on_write e a True w}"
  shows "\<exists>w'. r = Inr w' \<and> find_by_id w' = (find_by_id w)(get_id a w := None) \<and>
    \<not> s_open (w_heap w' a) \<and> w_pending w' = w_pending w"
proof -
  have dropped: "\<exists>w'. drop_session e a v = Inr w' \<and> find_by_id w' = (find_by_id v)(get_id a v := None) \<and>
      \<not> s_open (w_heap w' a) \<and> w_pending w' = w_pending v"
    if wf: "container_wf v" and f: "find_by_id v (get_id a v) = Some a" for v
    using wf
  proof (cases rule: remove_session_cases [of v "get_id a v" e])
    case absent
    then show ?thesis using f by simp
  next
    case (present b w')
    have "find_by_id w' = find_by_id (container_erase b v)"
      using present(3) removal_frame_heap(1) [OF present(4)]
      by (intro find_by_id_cong) (simp_all add: container_erase_def)
    then have "find_by_id w' = (find_by_id v)(get_id a v := None)"
      using find_by_id_erase [OF wf present(1)] by simp
    then show ?thesis
      using present f by (simp add: drop_session_def removal_frame_def)
  qed
  have wf: "container_wf w"
    using assms(1) by (simp add: node_ok_def)
  let ?v = "update_session a (\<lambda>s. s\<lparr>s_header_length := get32 bytes\<rparr>) w"
  have v: "find_by_id ?v = find_by_id w" "container_wf ?v = container_wf w" "get_id a ?v = get_id a w"
    "w_pending ?v = w_pending w"
    by (auto simp: update_session_def get_id_def intro!: find_by_id_cong container_wf_cong)
  have "r = drop_session e a w \<or> r = drop_session e a ?v"
    using assms(3)
    by (auto simp: tcp_on_header_def tcp_on_body_def tcp_on_write_def websocket_on_accept_def
        websocket_on_read_def websocket_on_write_def Let_def)
  then show ?thesis
    using dropped [OF wf assms(2)] dropped [of ?v] wf assms(2) by (auto simp: v)
qed

section \<open>WebSocket handshake\<close>

text \<open>
  A WebSocket client whose handshake fails is announced as leaving although no join was ever sent: a
  leave request with its id is posted to one TCP session of every connected node.
\<close>

lemma failed_handshake_announces_leave:
  assumes "find_by_id w (get_id a w) = Some a" and "get_type a w = websocket"
  shows "\<exists>w'. websocket_on_accept e a True w = Inr w' \<and>
    w_posted w' = w_posted w @ map (\<lambda>b. Run_on_send b
      (frame_bytes (crc_ccitt e) True [leave_payload (get_id a w) (random_uuid e (w_rng w))]))
      (broadcast_targets (container_erase a w))"
  using assms
  by (simp add: websocket_on_accept_def drop_session_def remove_session_def session_disconnect_eq
      leave_tasks_def container_erase_def get_type_def get_id_def)

section \<open>Known peers\<close>

text \<open>
  A node does not recognise the peers it dialled: after a successful outbound connection, and after
  the peer's identify response, discovery knows exactly the addresses it knew before, because neither
  step records host and port on the new session; an announcement of the same peer is dialled again.
\<close>

lemma dialled_peer_not_recognised:
  assumes "node_ok e w" and "state_connect e host port d cpn w = Inr (True, w1)"
    and "identify_handler response builder tx payload (w_next w) w1 = Inr (builder', w2)"
    and "h \<noteq> []"
  shows "already_connected h p w2 \<longleftrightarrow> already_connected h p w"
proof -
  let ?a = "w_next w"
  have ok: "container_law e" "container_wf w" "set (w_sessions w) \<subseteq> {..<w_next w}"
    using assms(1) by (simp_all add: node_ok_def)
  from state_connect_effect [OF ok(1,2) refl refl ok(3), of host port d cpn] assms(2)
  have w1: "w_heap w1 = (w_heap w)(?a := dialled_session e w)"
    "set (w_sessions w1) = insert ?a (set (w_sessions w))"
    by (auto split: if_splits)
  have w2: "w_sessions w2 = w_sessions w1" "s_host (w_heap w2 b) = s_host (w_heap w1 b)"
    "s_port (w_heap w2 b) = s_port (w_heap w1 b)" for b
    using assms(3)
    by (auto simp: identify_handler_eq identified_def set_node_id_def update_session_def split: if_splits)
  have "already_connected h p w2 \<longleftrightarrow>
      (\<exists>b \<in> set (w_sessions w1). s_host (w_heap w1 b) = h \<and> s_port (w_heap w1 b) = p)"
    by (simp add: already_connected_def list_ex_iff get_host_def get_port_def w2)
  also have "\<dots> \<longleftrightarrow> (\<exists>b \<in> set (w_sessions w). s_host (w_heap w b) = h \<and> s_port (w_heap w b) = p)"
  proof -
    have "b \<noteq> ?a" if "b \<in> set (w_sessions w)" for b
      using that ok(3) by auto
    then show ?thesis
      using assms(4) by (simp add: w1 dialled_session_def)
  qed
  also have "\<dots> \<longleftrightarrow> already_connected h p w"
    by (simp add: already_connected_def list_ex_iff get_host_def get_port_def)
  finally show ?thesis .
qed

end
