(* ===== verification/Websocket_Client.thy ===== *)
theory Websocket_Client
  imports Clients
begin

text \<open>
  \<^verbatim>\<open>src/aurum/websocket_client.cpp\<close>: the blocking WebSocket client.  Boost.Beast delivers whole messages, in
  order; a message is text unless the stream was switched to binary before.
\<close>

section \<open>Operations\<close>

text \<open>
  \<open>wc_open\<close> is what \<^verbatim>\<open>ws_.is_open()\<close> answers, \<open>wc_binary\<close> the message type that is sent, \<open>wc_user_agent\<close> whether
  the decorator that names the client in the handshake is installed.  \<open>wc_incoming\<close> are the messages that have
  arrived and are not read yet; \<open>wc_outgoing\<close> those sent, each with its type.
\<close>

record websocket_client =
  wc_open :: bool
  wc_binary :: bool
  wc_user_agent :: bool
  wc_incoming :: "byte list list"
  wc_outgoing :: "(bool \<times> byte list) list"

definition new_websocket_client :: websocket_client where
  "new_websocket_client =
     \<lparr>wc_open = False, wc_binary = False, wc_user_agent = False, wc_incoming = [], wc_outgoing = []\<rparr>"

text \<open>
  Every failure is reported by the result: the resolver and \<^verbatim>\<open>connect\<close> are called with an error code, the
  exception of the handshake is caught.
\<close>

definition websocket_client_connect ::
    "network \<Rightarrow> string \<Rightarrow> 16 word \<Rightarrow> websocket_client \<Rightarrow> bool \<times> websocket_client" where
  "websocket_client_connect net host port c =
     (if \<not> net_resolves net host (to_string port) then (False, c)
      else if \<not> net_connects net host (to_string port) then (False, c)
      else
        let c1 = c\<lparr>wc_user_agent := True\<rparr>
        in if \<not> net_handshakes net (host @ '':'' @ to_string port) ''/''
           then (False, c1\<lparr>wc_open := False\<rparr>)
           else (True, c1\<lparr>wc_open := True, wc_incoming := [], wc_outgoing := [], wc_binary := True\<rparr>))"

definition websocket_client_send ::
    "bool \<Rightarrow> byte list \<Rightarrow> websocket_client \<Rightarrow> client_error + websocket_client" where
  "websocket_client_send error message c =
     (if error then Inl Write_failed
      else Inr (c\<lparr>wc_outgoing := wc_outgoing c @ [(wc_binary c, message)]\<rparr>))"

text \<open>
  The next message, whole.  When none is left to come the call waits until the stream fails.
\<close>

definition websocket_client_read ::
    "bool \<Rightarrow> websocket_client \<Rightarrow> client_error + (byte list \<times> websocket_client)" where
  "websocket_client_read error c =
     (if error then Inl Read_failed
      else case wc_incoming c of
          [] \<Rightarrow> Inl Read_failed
        | payload # rest \<Rightarrow> Inr (payload, c\<lparr>wc_incoming := rest\<rparr>))"

definition websocket_client_disconnect :: "websocket_client \<Rightarrow> websocket_client" where
  "websocket_client_disconnect c = (if wc_open c then c\<lparr>wc_open := False\<rparr> else c)"

section \<open>Connecting\<close>

text \<open>The digits of a port can be read back, so different ports are different services.\<close>

lemma decimal_value: "foldl (\<lambda>n c. 10 * n + (of_char c - 48)) 0 (decimal n) = (n :: nat)"
proof (induction n rule: decimal.induct)
  case (1 n)
  show ?case
  proof (cases "n < 10")
    case True
    then show ?thesis by (subst decimal.simps) simp
  next
    case False
    have "48 + n mod 10 < 256" by (simp add: trans_less_add2)
    then show ?thesis
      using False 1 by (subst decimal.simps) simp
  qed
qed

lemma to_string_inject [simp]: "to_string p = to_string q \<longleftrightarrow> p = q"
  unfolding to_string_def by (metis decimal_value word_unat_eq_iff)

text \<open>
  Connecting a WebSocket client reports every failure by its result and raises nothing: it answers
  true exactly when the host and the port resolve, accept the connection and complete the handshake for
  \<^verbatim>\<open>host:port\<close> and \<^verbatim>\<open>/\<close>; then the stream is open and what is sent leaves as one binary message.  Otherwise a
  client that was not open still is not; the TCP client throws in the first two cases.  Disconnecting
  closes the stream.
\<close>

lemma websocket_connect_outcome:
  assumes "websocket_client_connect net host port c = (ok, c')"
  shows "(ok \<longleftrightarrow> net_resolves net host (to_string port) \<and> net_connects net host (to_string port) \<and>
      net_handshakes net (host @ '':'' @ to_string port) ''/'') \<and>
    (ok \<longrightarrow> wc_open c' \<and> websocket_client_send False m c' = Inr (c'\<lparr>wc_outgoing := [(True, m)]\<rparr>)) \<and>
    (\<not> ok \<longrightarrow> \<not> wc_open c \<longrightarrow> \<not> wc_open c') \<and>
    (tcp_client_connect net host port t \<in> {Inl Resolve_failed, Inl Connect_failed} \<longleftrightarrow>
      \<not> net_resolves net host (to_string port) \<or> \<not> net_connects net host (to_string port)) \<and>
    \<not> wc_open (websocket_client_disconnect c')"
  using assms
  by (auto simp: websocket_client_connect_def tcp_client_connect_def websocket_client_send_def
      websocket_client_disconnect_def Let_def split: if_splits)

text \<open>A network in which one server, a WebSocket server at port 8080 of one host, is up.\<close>

definition demo_network :: network where
  "demo_network =
     \<lparr>net_resolves = (\<lambda>h s. h = ''node''), net_connects = (\<lambda>h s. s = to_string 8080),
      net_handshakes = (\<lambda>a t. a = ''node:'' @ to_string 8080)\<rparr>"

end
