(* ===== verification/Handler_Properties.thy ===== *)
theory Handler_Properties
  imports Handlers
begin

text \<open>
  Properties of the operation handlers: what identify, join, leave and discovery do to the node, and
  what a peer reads of what the other end wrote.
\<close>

section \<open>WebSocket clients are not nodes\<close>

text \<open>
  A WebSocket client is not a node: its identify, join and leave messages neither change the node nor
  get a response.
\<close>

lemma websocket_cannot_peer:
  assumes "get_type a w = websocket"
  shows "identify_handler type builder tx payload a w = Inr (builder, w)"
    and "join_handler e type builder tx payload a w = Inr (builder, w)"
    and "leave_handler type builder tx payload a w = Inr (builder, w)"
  using assms by (simp_all add: identify_handler_def join_handler_def leave_handler_def)

lemma websocket_handler_harmless:
  assumes "get_type a w = websocket" and "opcode \<noteq> 3"
  shows "\<exists>builder'. get_handlers e opcode type builder tx payload a w = Inr (builder', w)"
  using assms
  by (auto simp: get_handlers_def websocket_cannot_peer ping_handler_def whoami_handler_def
      non_implemented_handler_def)

section \<open>Identify\<close>

lemma identify_request_effect:
  assumes "get_type a w = tcp" and "20 < length payload"
  shows "\<exists>w'. identify_handler request builder tx payload a w =
      Inr (response_add_identify tx (w_node_id w) builder, w') \<and>
    w_heap w' = (w_heap w)(a := (w_heap w a)\<lparr>s_node_id := get_uuid (take 16 payload),
      s_port := identify_port payload, s_host := identify_host payload\<rparr>) \<and>
    w_sessions w' = w_sessions w \<and> w_filed w' = w_filed w \<and> w_node_id w' = w_node_id w \<and>
    w_posted w' = w_posted w @
      (if identify_port payload = 0 then []
       else replicate (unat (identify_cpn payload) - 1)
              (Run_connect (identify_host payload) (identify_port payload)))"
proof -
  have ne: "identify_host payload \<noteq> []"
    using assms(2) by (simp add: identify_host_eq_Nil)
  have small: "\<not> 1 < identify_cpn payload \<Longrightarrow> unat (identify_cpn payload) - 1 = 0"
    by (simp add: word_less_nat_alt)
  show ?thesis
    using assms ne small
    by (auto simp: identify_handler_eq post_connects_eq announced_def identified_def Let_def
        set_node_id_def set_port_def set_host_def update_session_def)
qed

text \<open>
  C28. Identification: when a TCP session receives the identify request another node built with its node
  id, connection count, port and host, the session takes on that identity, the answer carries the local
  node id, no other session changes, and as many further connections back are posted as the count asks
  for beyond the existing one (none when the peer gave port 0).
\<close>

theorem identify_roundtrip:
  assumes "get_type a w = tcp" and "host \<noteq> []"
    and "buffers (request_add_identify n cpn tx port host as_request) = [m]"
  shows "\<exists>w'. identify_handler request builder tx (drop 18 m) a w =
      Inr (response_add_identify tx (w_node_id w) builder, w') \<and>
    w_heap w' = (w_heap w)(a := (w_heap w a)\<lparr>s_node_id := n, s_port := port, s_host := host\<rparr>) \<and>
    w_sessions w' = w_sessions w \<and>
    w_posted w' = w_posted w @ (if port = 0 then [] else replicate (unat cpn - 1) (Run_connect host port))"
proof -
  have m: "drop 18 m = put_uuid n @ put16 cpn @ put16 port @ string_bytes host"
    using assms(2,3) by (auto simp: request_add_identify_def Let_def)
  have "get_uuid (take 16 (drop 18 m)) = n"
    unfolding m by (rule uuid.get_take_put)
  moreover have "identify_cpn (drop 18 m) = cpn" "identify_port (drop 18 m) = port"
    "identify_host (drop 18 m) = host"
    by (simp_all add: m identify_cpn_def identify_port_def identify_host_def)
  moreover have "20 < length (drop 18 m)"
    using assms(2) by (simp add: m)
  ultimately show ?thesis
    using identify_request_effect [OF assms(1), of "drop 18 m" builder tx] by auto
qed

theorem identify_roundtrip_witness:
  "\<exists>m w'. identify_handler request as_response 5 m 0 demo_world =
      Inr (response_add_identify 5 1 as_response, w') \<and>
    get_node_id 0 w' = 42 \<and> get_host 0 w' = ''peer'' \<and> w_posted w' = replicate 2 (Run_connect ''peer'' 7000)"
proof -
  have "get_type 0 demo_world = tcp"
    by (simp add: get_type_def)
  moreover have "\<exists>m. buffers (request_add_identify 42 3 5 7000 ''peer'' as_request) = [m]"
    by (simp add: request_add_identify_def)
  ultimately show ?thesis
    using identify_roundtrip [of 0 demo_world "''peer''" 42 3 5 7000 _ as_response]
    by (fastforce simp: get_node_id_def get_host_def)
qed

text \<open>
  C35. The node index goes stale: an identify message from a registered session that changes its node id
  rewrites, behind the container's back, the key under which the container filed the session, so
  that lookups by node id can no longer rely on it.
\<close>

theorem identify_makes_index_stale:
  assumes "a \<in> set (w_sessions w)" and "get_type a w = tcp" and "16 \<le> length payload"
    and "keys_fresh w" and "get_uuid (take 16 payload) \<noteq> get_node_id a w"
  shows "\<exists>builder' w'. identify_handler type builder tx payload a w = Inr (builder', w') \<and> \<not> keys_fresh w'"
proof -
  let ?n = "get_uuid (take 16 payload)"
  obtain b' w' where h: "identify_handler type builder tx payload a w = Inr (b', w')"
    by (metis identify_handler_eq surj_pair)
  have "s_node_id (w_heap w' a) = ?n" "w_sessions w' = w_sessions w" "w_filed w' = w_filed w"
    using h assms(2,3)
    by (auto simp: identify_handler_eq post_connects_eq announced_def identified_def Let_def
        set_node_id_def set_port_def set_host_def update_session_def split: if_splits)
  moreover have "w_filed w a = get_node_id a w"
    using assms(1,4) by (simp add: keys_fresh_def get_node_id_def)
  ultimately have "\<not> keys_fresh w'"
    using assms(1,5) unfolding keys_fresh_def by metis
  with h show ?thesis by blast
qed

theorem identify_makes_index_stale_witness:
  "\<exists>builder' w'. identify_handler response as_response 1 (put_uuid 42) 0 demo_world = Inr (builder', w') \<and>
     \<not> keys_fresh w'"
  using identify_makes_index_stale [of 0 demo_world "put_uuid 42" response as_response 1] demo_world_ok(2)
  by (simp add: get_type_def get_node_id_def)

section \<open>Join and leave\<close>

text \<open>
  C32. Joining: a request from a node session registers under the given id, unless it is taken, a new
  stand-in WebSocket session that belongs to the node of the sender; the count in the answer is always
  1; every session that was registered stays so.
\<close>

theorem join_spec:
  assumes "node_ok e w" and "a < w_next w" and "get_type a w = tcp"
    and "type \<noteq> response" and "16 \<le> length payload" and "i = get_uuid (take 16 payload)"
  shows "\<exists>w'. join_handler e type builder tx payload a w = Inr (response_add_join tx 1 builder, w') \<and>
    find_by_id w' = (if find_by_id w i = None then (find_by_id w)(i \<mapsto> w_next w) else find_by_id w) \<and>
    w_heap w' = (w_heap w)(w_next w := stand_in i (get_node_id a w)) \<and> node_ok e w'"
proof -
  let ?w = "joined e i a w"
  have "container_law e"
    using assms(1) by (simp add: node_ok_def)
  then have "w_heap ?w = (w_heap w)(w_next w := stand_in i (get_node_id a w))"
    by (simp add: joined_def add_session_def container_insert_def with_stand_in_def split: option.split)
  moreover have "join_handler e type builder tx payload a w = Inr (response_add_join tx 1 builder, ?w)"
    using assms(3-6) joined_count [OF assms(1), of i a] by (simp add: join_handler_eq [OF assms(2)])
  ultimately show ?thesis
    using joined_registry [OF assms(1), of i a] by (auto split: option.splits)
qed

theorem join_spec_witness:
  "\<exists>w'. join_handler demo_env request as_response 6 (put_uuid 77) 0 demo_world =
      Inr (response_add_join 6 1 as_response, w') \<and>
    find_by_id w' 77 = Some 3 \<and> get_type 3 w' = websocket \<and> get_node_id 3 w' = 100"
proof -
  have "find_by_id demo_world 77 = None"
    by (simp add: find_by_id_def)
  then show ?thesis
    using join_spec [OF demo_node_ok, of 0 request "put_uuid 77" 77 as_response 6]
    by (auto simp: get_type_def get_node_id_def stand_in_def)
qed

text \<open>
  C33. Leaving: a request from a node session erases the session with the given id from the registry,
  whatever its type, and answers how many there were (1 or 0); every other id is looked up as before, and
  no session object changes, so that in particular no socket is closed.
\<close>

theorem leave_spec:
  assumes "node_ok e w" and "get_type a w = tcp"
    and "type \<noteq> response" and "16 \<le> length payload" and "i = get_uuid (take 16 payload)"
  shows "\<exists>w'. leave_handler type builder tx payload a w =
      Inr (response_add_leave tx (if find_by_id w i = None then 0 else 1) builder, w') \<and>
    find_by_id w' = (find_by_id w)(i := None) \<and> w_heap w' = w_heap w \<and> w_posted w' = w_posted w \<and>
    node_ok e w'"
proof -
  have wf: "container_wf w"
    using assms(1) by (simp add: node_ok_def)
  have "leave_handler type builder tx payload a w =
      Inr (response_add_leave tx (if find_by_id w i = None then 0 else 1) builder, left_by i w)"
    using assms(2-5) wf by (simp add: leave_handler_eq count_by_id_eq split: option.split)
  moreover have "w_heap (left_by i w) = w_heap w" "w_posted (left_by i w) = w_posted w"
    by (simp_all add: left_by_def container_erase_def split: option.split)
  ultimately show ?thesis
    using left_registry [OF assms(1), of i] by blast
qed

theorem leave_spec_witness:
  "\<exists>w'. leave_handler request as_response 6 (put_uuid 12) 0 demo_world =
      Inr (response_add_leave 6 1 as_response, w') \<and>
    find_by_id w' 12 = None \<and> find_by_id w' 11 = Some 1 \<and> w_heap w' = demo_heap"
proof -
  have f: "find_by_id demo_world 12 = Some 2" "find_by_id demo_world 11 = Some 1"
    by (simp_all add: find_by_id_def)
  have "get_type 0 demo_world = tcp"
    by (simp add: get_type_def)
  from leave_spec [OF demo_node_ok this, of request "put_uuid 12" 12 as_response 6] f
  show ?thesis by (auto simp del: fun_upd_apply) (auto simp: f)
qed

text \<open>
  Leave undoes join: when a node announces a WebSocket client that was not registered and later
  announces that it left, every id is looked up as before the join.
\<close>

lemma join_leave_restores:
  assumes "node_ok e w" and "a < w_next w" and "get_type a w = tcp" and "16 \<le> length payload"
    and "find_by_id w (get_uuid (take 16 payload)) = None"
    and "join_handler e request b1 tx1 payload a w = Inr (b1', w1)"
    and "leave_handler request b2 tx2 payload a w1 = Inr (b2', w2)"
  shows "find_by_id w2 = find_by_id w"
proof -
  let ?i = "get_uuid (take 16 payload)"
  have w1: "w1 = joined e ?i a w"
    using assms(3,4,6) by (simp add: join_handler_eq [OF assms(2)])
  have reg1: "find_by_id w1 = (find_by_id w)(?i \<mapsto> w_next w)" "node_ok e w1" "evolves w w1"
    using joined_registry [OF assms(1), of ?i a] assms(5) by (simp_all add: w1)
  have "get_type a w1 = tcp"
    using reg1(3) assms(2,3) by (simp add: evolves_def same_core_def get_type_def)
  then have "w2 = left_by ?i w1"
    using assms(4,7) reg1(2) by (simp add: leave_handler_eq node_ok_def)
  then show ?thesis
    using left_registry(1) [OF reg1(2), of ?i] reg1(1) assms(5) by (simp add: fun_upd_idem)
qed

section \<open>Discovery\<close>

text \<open>
  The nodes the loop of the response handler reads, apart from what it does with them, and the
  connections it then tries.
\<close>

fun read_nodes :: "byte list \<Rightarrow> nat \<Rightarrow> nat \<Rightarrow> (string \<times> 16 word) list" where
  "read_nodes payload 0 offset = []"
| "read_nodes payload (Suc k) offset =
     (if offset + 4 > length payload then []
      else let port = get16 (take 2 (drop offset payload));
               host_size = unat (get16 (take 2 (drop (offset + 2) payload)))
           in if offset + 4 + host_size > length payload then []
              else (bytes_string (take host_size (drop (offset + 4) payload)), port)
                   # read_nodes payload k (offset + 4 + host_size))"

fun connect_unknown :: "env \<Rightarrow> (string \<times> 16 word) list \<Rightarrow> world \<Rightarrow> fault + world" where
  "connect_unknown e [] w = Inr w"
| "connect_unknown e ((host, port) # nodes) w =
     chain (if already_connected host port w then Inr w
            else chain (state_connect e host port False 0 w) (\<lambda>(_, w'). Inr w'))
       (connect_unknown e nodes)"

lemma discovery_loop_read_nodes:
  "discovery_loop e payload k offset w = connect_unknown e (read_nodes payload k offset) w"
proof (induction k arbitrary: offset w)
  case 0
  then show ?case by simp
next
  case (Suc k)
  have "discovery_loop e payload k i = connect_unknown e (read_nodes payload k i)" for i
    by (rule ext) (rule Suc.IH)
  then show ?case by (simp add: Let_def)
qed

text \<open>
  Handling a discovery response is to read the announced nodes and to connect, in order, to each that
  no registered session is known under; a payload too short to hold the count is ignored.
\<close>

lemma discovery_response_connects:
  "discovery_handler e response builder tx payload a w =
    (if length payload < 4 then Inr (builder, w)
     else chain (connect_unknown e (read_nodes payload (unat (get32 (take 4 payload))) 4) w)
            (\<lambda>w'. Inr (builder, w')))"
  by (simp add: discovery_handler_def discovery_loop_read_nodes)

text \<open>
  The work a discovery response can cause is bounded by its length, whatever count it announces:
  every node read takes four bytes and its host.
\<close>

lemma discovery_response_bounded:
  assumes "offset \<le> length payload"
  shows "offset + 4 * length (read_nodes payload k offset)
    + sum_list (map (\<lambda>(host, port). length host) (read_nodes payload k offset)) \<le> length payload"
  using assms
proof (induction k arbitrary: offset)
  case 0
  then show ?case by simp
next
  case (Suc k)
  let ?n = "unat (get16 (take 2 (drop (offset + 2) payload)))"
  show ?case
  proof (cases "offset + 4 \<le> length payload \<and> offset + 4 + ?n \<le> length payload")
    case True
    then show ?thesis
      using Suc.IH [of "offset + 4 + ?n"] by (simp add: Let_def)
  next
    case False
    then show ?thesis using Suc.prems by (auto simp: Let_def)
  qed
qed

lemma read_nodes_at:
  assumes "off = length pre" and "length h = unat n"
  shows "read_nodes (pre @ put16 p @ put16 n @ h @ rest) (Suc k) off =
    (bytes_string h, p) # read_nodes (pre @ put16 p @ put16 n @ h @ rest) k (off + 4 + unat n)"
  using assms by (simp add: Let_def)

text \<open>
  A discovery answer about one node is understood: when the answering node knows one other node, under
  a host of at most 65535 characters, the asking node reads exactly this host and port from the payload.
\<close>

lemma discovery_single_roundtrip:
  assumes "discovered_nodes a w = [(host, port)]" and "length host < 65536"
    and "discovery_handler e request as_response tx payload a w = Inr (b, w')"
    and "buffers b = [m]"
  shows "read_nodes (drop 18 m) (unat (get32 (take 4 (drop 18 m)))) 4 = [(host, port)]"
proof -
  have m: "drop 18 m = put32 1 @ put16 port @ put16 (of_nat (length host)) @ string_bytes host @ []"
    using assms(1,3,4) by (auto simp: discovery_handler_def response_add_discovery_def Let_def discovery_payload_def)
  have "unat (get32 (take 4 (drop 18 m))) = Suc 0"
    unfolding m u32.get_take_put by simp
  moreover have "read_nodes (drop 18 m) (Suc 0) 4 = [(host, port)]"
    unfolding m using assms(2) by (subst read_nodes_at) (simp_all add: unat_of_nat)
  ultimately show ?thesis by simp
qed

text \<open>The handler of the same payload: one node read at the start, then the rest of the loop.\<close>

lemma discovery_loop_at:
  assumes "off = length pre" and "length h = unat n"
  shows "discovery_loop e (pre @ put16 p @ put16 n @ h @ rest) (Suc k) off w =
    chain (if already_connected (bytes_string h) p w then Inr w
           else chain (state_connect e (bytes_string h) p False 0 w) (\<lambda>(_, w'). Inr w'))
      (discovery_loop e (pre @ put16 p @ put16 n @ h @ rest) k (off + 4 + unat n))"
  using assms by (simp add: Let_def del: discovery_loop.simps(1))

lemma discovery_handler_at:
  assumes "unat c = Suc k" and "length h = unat n"
  shows "discovery_handler e response builder tx (put32 c @ put16 p @ put16 n @ h @ rest) a w =
    chain (if already_connected (bytes_string h) p w then Inr w
           else chain (state_connect e (bytes_string h) p False 0 w) (\<lambda>(_, w'). Inr w')) (\<lambda>w'.
      chain (discovery_loop e (put32 c @ put16 p @ put16 n @ h @ rest) k (8 + unat n) w') (\<lambda>w''. Inr (builder, w'')))"
proof -
  let ?d = "put32 c @ put16 p @ put16 n @ h @ rest"
  have "discovery_handler e response builder tx ?d a w =
    chain (discovery_loop e ?d (unat c) 4 w) (\<lambda>w'. Inr (builder, w'))"
    unfolding discovery_handler_def by (simp del: discovery_loop.simps)
  also have "discovery_loop e ?d (unat c) 4 w = discovery_loop e ?d (Suc k) 4 w"
    by (simp only: assms(1))
  also have "\<dots> = chain (if already_connected (bytes_string h) p w then Inr w
           else chain (state_connect e (bytes_string h) p False 0 w) (\<lambda>(_, w'). Inr w'))
      (discovery_loop e ?d k (4 + 4 + unat n))"
    by (rule discovery_loop_at) (simp_all add: assms(2))
  finally show ?thesis
    by (simp only: chain_assoc) simp
qed

text \<open>
  C34. A discovery answer about two or more nodes is misread.  The writer puts all ports and host lengths
  before all hosts, the reader expects each host after its port and length.  When the first node has a host
  (of less than 65536 characters), the peer that handles the answer looks for a session to that node's port at a
  host of the right length that starts with the low byte of the second node's port, and dials this host if there
  is none, before it goes on reading behind it.
\<close>

theorem discovery_many_misread:
  assumes "nodes = (h1, p1) # (h2, p2) # rest" and "h1 \<noteq> []" and "length h1 < 65536" and "length nodes < 2 ^ 32"
  shows "\<exists>r host. buffers (response_add_discovery tx nodes as_response) = [r] \<and>
    length host = length h1 \<and> hd host = char_of (unat p2 mod 256) \<and>
    (\<forall>e builder tx' a w. discovery_handler e response builder tx' (drop 18 r) a w =
       chain (if already_connected host p1 w then Inr w
              else chain (state_connect e host p1 False 0 w) (\<lambda>(_, w'). Inr w')) (\<lambda>w'.
         chain (discovery_loop e (drop 18 r) (Suc (length rest)) (8 + length h1) w') (\<lambda>w''. Inr (builder, w''))))"
proof -
  define tail where "tail = put16 p2 @ put16 (of_nat (length h2))
    @ concat (map (\<lambda>(host, port). put16 port @ put16 (of_nat (length host))) rest)
    @ string_bytes h1 @ string_bytes h2 @ concat (map (\<lambda>(host, port). string_bytes host) rest)"
  define host where "host = bytes_string (take (length h1) tail)"
  let ?n = "of_nat (length h1) :: 16 word" and ?count = "of_nat (length nodes) :: 32 word"
  let ?d = "discovery_payload nodes"
  let ?r = "message_header (op_code_value discovery) response tx @ ?d"
  have n: "unat ?n = length h1"
    using assms(3) by (simp add: unat_of_nat)
  have count: "unat ?count = Suc (Suc (length rest))"
    using assms(1,4) by (simp only: unat_of_nat) simp
  have d: "?d = put32 ?count @ put16 p1 @ put16 ?n @ take (length h1) tail @ drop (length h1) tail"
    by (simp only: append_take_drop_id) (simp add: assms(1) discovery_payload_def tail_def)
  have long: "length h1 \<le> length tail"
    by (simp add: tail_def)
  then have first: "length (take (length h1) tail) = unat ?n"
    by (simp add: n)
  have built: "buffers (response_add_discovery tx nodes as_response) = [?r]"
    by (simp add: response_add_discovery_def Let_def)
  have same_length: "length host = length h1"
    using long by (simp add: host_def)
  have first_char: "hd host = char_of (unat p2 mod 256)"
  proof -
    have "put16 p2 = of_nat (unat p2) # of_nat (unat p2 div 256) # []"
      by (simp add: put16_def numeral_2_eq_2)
    then show ?thesis
      using assms(2) unat_byte_of_nat [of "unat p2"] by (cases h1) (simp_all add: host_def tail_def bytes_string_def)
  qed
  have "drop 18 ?r = ?d"
    by simp
  then have "discovery_handler e response builder tx' (drop 18 ?r) a w =
       chain (if already_connected host p1 w then Inr w
              else chain (state_connect e host p1 False 0 w) (\<lambda>(_, w'). Inr w')) (\<lambda>w'.
         chain (discovery_loop e (drop 18 ?r) (Suc (length rest)) (8 + length h1) w') (\<lambda>w''. Inr (builder, w'')))"
    for e builder tx' a w
    using discovery_handler_at [OF count first, of e builder tx' p1 "drop (length h1) tail" a w, folded d host_def, unfolded n]
    by (simp only:)
  then show ?thesis
    using built same_length first_char by blast
qed

text \<open>Told of \<open>10.0.0.1:7001\<close> and \<open>10.0.0.2:7002\<close>, a peer that knows neither first dials port 7001 of another host.\<close>

theorem discovery_many_misread_witness:
  "\<exists>r host. buffers (response_add_discovery 6 [(''10.0.0.1'', 7001), (''10.0.0.2'', 7002)] as_response) = [r] \<and>
    host \<noteq> ''10.0.0.1'' \<and>
    discovery_handler demo_env response as_response 6 (drop 18 r) 0 demo_world =
      chain (chain (state_connect demo_env host 7001 False 0 demo_world) (\<lambda>(_, w'). Inr w')) (\<lambda>w'.
        chain (discovery_loop demo_env (drop 18 r) 1 16 w') (\<lambda>w''. Inr (as_response, w'')))"
proof -
  let ?nodes = "[(''10.0.0.1'', 7001), (''10.0.0.2'', 7002)] :: (string \<times> 16 word) list"
  have few: "length ?nodes < 2 ^ 32" and ports: "length ''10.0.0.1'' < 65536" "''10.0.0.1'' \<noteq> []"
    by simp_all
  obtain r host where r: "buffers (response_add_discovery 6 ?nodes as_response) = [r]"
    "hd host = char_of (unat (7002 :: 16 word) mod 256)"
    and read: "\<And>e builder tx' a w. discovery_handler e response builder tx' (drop 18 r) a w =
       chain (if already_connected host 7001 w then Inr w
              else chain (state_connect e host 7001 False 0 w) (\<lambda>(_, w'). Inr w')) (\<lambda>w'.
         chain (discovery_loop e (drop 18 r) (Suc (length ([] :: (string \<times> 16 word) list))) (8 + length ''10.0.0.1'') w')
           (\<lambda>w''. Inr (builder, w'')))"
    using discovery_many_misread [OF refl ports(2,1) few] by blast
  have "char_of (unat (7002 :: 16 word) mod 256) \<noteq> CHR ''1''"
    by (simp add: char_of_def)
  then have "host \<noteq> ''10.0.0.1''" using r(2) by auto
  moreover have "\<not> already_connected host 7001 demo_world"
    by (simp add: already_connected_def get_port_def demo_session_def)
  ultimately show ?thesis
    using r(1) read [of demo_env as_response 6 0 demo_world]
    by (intro exI [of _ r] exI [of _ host] conjI) (simp_all del: discovery_loop.simps)
qed

end
