(* ===== verification/Kernel_Properties.thy ===== *)
theory Kernel_Properties
  imports Session_Kernel Handler_Properties
begin

text \<open>
  Properties of the frame parser \<^verbatim>\<open>session_kernel::handle\<close>: it inverts the builder, is safe on any bytes,
  answers requests with responses and responses with nothing.
\<close>

section \<open>Frames of the builder\<close>

text \<open>
  C3. Parser and builder fit together: for up to 65535 payloads of less than 65536 bytes each, handling
  the frame \<^verbatim>\<open>get_data\<close> makes of them is to run the handlers over these payloads one after the other, in
  order, and to send the responses they queue as one frame; no cursor, length or checksum is left.
\<close>

theorem kernel_refines_messages:
  assumes "buffers b \<noteq> []" and "list_all short (buffers b)"
    and "get_data (crc_ccitt e) b False = Inr frame"
  shows "session_kernel_handle e (Some frame) a w = kernel_spec e (buffers b) a w"
proof -
  have fits: "frame_fits (buffers b)"
    using assms(1,3) by (cases rule: get_data_cases [of b "crc_ccitt e" False]) auto
  then have "frame = frame_bytes (crc_ccitt e) False (buffers b)"
    using assms(1,3) by (simp add: get_data_frame_bytes)
  moreover have "length (buffers b) \<le> 65535"
    using fits by (simp add: frame_fits_def max_requests_per_frame_def)
  ultimately show ?thesis
    using kernel_handle_frame [OF assms(2)] by simp
qed

theorem kernel_refines_messages_witness:
  "\<exists>frame. get_data crc_16_ccitt (request_add_whoami 8 (request_add_ping 5 as_request)) False = Inr frame \<and>
    session_kernel_handle demo_env (Some frame) 0 demo_world =
    kernel_spec demo_env (buffers (request_add_whoami 8 (request_add_ping 5 as_request))) 0 demo_world"
proof -
  let ?b = "request_add_whoami 8 (request_add_ping 5 as_request)"
  have ne: "buffers ?b \<noteq> []" and short: "list_all short (buffers ?b)" and fits: "frame_fits (buffers ?b)"
    by (simp_all add: request_builder_defs short_def frame_fits_small)
  obtain frame where "get_data (crc_ccitt demo_env) ?b False = Inr frame"
    using get_data_frame_bytes [OF ne fits] by blast
  then show ?thesis
    using kernel_refines_messages [OF ne short] by auto
qed

text \<open>
  C36. A payload of 65536 bytes or more is not transmitted: its length field is truncated to 16 bits, and
  the parser handles, in its place, the prefix of that many bytes (or gives up when that is shorter than
  a message header).
\<close>

theorem long_payload_truncated:
  assumes "65536 \<le> length m" and "length m \<le> max_frame_payload_size"
    and "get_data (crc_ccitt e) (push_payload m n as_response) False = Inr frame"
  shows "session_kernel_handle e (Some frame) a w = kernel_spec e [take (length m mod 65536) m] a w"
proof -
  let ?l = "of_nat (length m) :: 16 word" and ?m = "take (length m mod 65536) m"
  let ?crc = "put16 (crc_ccitt e (frame_body [m]))"
  have l: "unat ?l = length m mod 65536"
    by (simp add: unat_of_nat)
  have "frame_fits [m]"
    using assms(2) by (simp add: frame_fits_def max_requests_per_frame_def)
  then have frame: "frame = frame_body [m] @ ?crc"
    using assms(3) by (simp add: get_data_fits)
  have shape: "frame_body [m] @ ?crc = put16 1 @ put16 ?l @ ?m @ drop (length m mod 65536) m @ ?crc"
    by (simp add: frame_body_def)
  have table: "map (\<lambda>m. of_nat (length m)) [?m] = [?l]"
  proof -
    have "length ?m = length m mod 65536"
      using assms(1) by simp
    then show ?thesis using l by (simp add: word_unat_eq_iff unat_of_nat)
  qed
  have "short ?m"
    by (simp add: short_def)
  then have req: "handle_requests (get_handlers e) (frame_body [m] @ ?crc) [?l] 4 as_response a w =
      process (get_handlers e) [?m] as_response a w"
    unfolding shape table [symmetric]
    using handle_requests_process [of "[?m]" "drop (length m mod 65536) m @ ?crc" "get_handlers e" "put16 1 @ put16 ?l"]
    by simp
  have count: "memcpy_at (frame_body [m] @ ?crc) 0 2 = Inr (put16 1)"
    unfolding shape using u16.memcpy_put [of "[]"] by simp
  have lens: "read_lengths (frame_body [m] @ ?crc) 1 2 = Inr ([?l], 4)"
    unfolding shape using read_lengths_table [of "put16 1" "\<lambda>m. of_nat (length m)" "[m]"] by simp
  have "memcpy_at (frame_body [m] @ ?crc) 0 (length (frame_body [m])) = Inr (frame_body [m])"
    "memcpy_at (frame_body [m] @ ?crc) (length (frame_body [m])) 2 = Inr ?crc"
    by (simp_all add: memcpy_at_def)
  moreover have "\<not> length (frame_body [m]) - 2 < 1 * 2" "\<not> length (frame_body [m]) < 2"
    by (simp_all add: length_frame_body)
  moreover have "unat (1 :: 16 word) = 1"
    by simp
  ultimately show ?thesis
    unfolding frame kernel_spec_def session_kernel_handle_def
    by (simp add: count lens req Let_def get_buffers_eq case_prod_unfold
        del: add_2_eq_Suc add_2_eq_Suc' One_nat_def process.simps handle_requests.simps cong: option.case_cong)
qed

theorem long_payload_truncated_witness:
  "\<exists>frame. get_data crc_16_ccitt (push_payload (replicate 65540 0) 65540 as_response) False = Inr frame \<and>
    session_kernel_handle demo_env (Some frame) 0 demo_world = Inr (None, demo_world)"
proof -
  let ?m = "replicate 65540 (0 :: byte)"
  have fits: "frame_fits (buffers (push_payload ?m 65540 as_response))"
    by (simp add: frame_fits_def max_requests_per_frame_def max_frame_payload_size_def)
  obtain frame where f: "get_data (crc_ccitt demo_env) (push_payload ?m 65540 as_response) False = Inr frame"
    using get_data_frame_bytes [OF _ fits] by fastforce
  have "session_kernel_handle demo_env (Some frame) 0 demo_world =
      kernel_spec demo_env [take (length ?m mod 65536) ?m] 0 demo_world"
    by (rule long_payload_truncated [OF _ _ f]) (simp_all add: max_frame_payload_size_def)
  then show ?thesis
    using f by (simp add: kernel_spec_def)
qed

section \<open>Any bytes\<close>

lemma kernel_outcomes:
  assumes "node_ok e w" and "a < w_next w"
  shows "session_kernel_handle e f a w = Inl Frame_too_large \<or>
    (\<exists>w'. session_kernel_handle e f a w = Inr (None, w') \<and> node_ok e w' \<and> evolves w w') \<or>
    (\<exists>rs w'. session_kernel_handle e f a w =
        Inr (Some (if rs = [] then [] else frame_bytes (crc_ccitt e) (get_type a w = tcp) rs), w') \<and>
      list_all is_response rs \<and> node_ok e w' \<and> evolves w w')"
proof (cases rule: session_kernel_handle_cases [OF assms, of f])
  case (1 w')
  then show ?thesis by blast
next
  case (2 w' b)
  have t: "get_type a w' = get_type a w"
    using 2(2) assms(2) by (simp add: evolves_def same_core_def get_type_def)
  show ?thesis
  proof (cases rule: get_data_cases [of b "crc_ccitt e" "get_type a w = tcp"])
    case empty
    then have "session_kernel_handle e f a w = Inr (Some (if [] = [] then [] else frame_bytes (crc_ccitt e) (get_type a w = tcp) []), w')"
      using 2(5) by (simp add: t)
    then show ?thesis using 2(1,2) by (intro disjI2 exI [of _ "[]"] exI [of _ w']) simp
  next
    case many
    then show ?thesis using 2(3) by (simp add: max_requests_per_frame_def)
  next
    case large
    then show ?thesis using 2(5) by (simp add: t)
  next
    case fits
    then have "session_kernel_handle e f a w =
        Inr (Some (if buffers b = [] then [] else frame_bytes (crc_ccitt e) (get_type a w = tcp) (buffers b)), w')"
      using 2(5) by (simp add: t get_data_frame_bytes)
    then show ?thesis using 2(1,2,4) by blast
  qed
qed

text \<open>
  C4. The parser is safe on any bytes: it never reads outside the frame (nor outside a payload, in any
  handler) and never queues more responses than a frame can count; it either drops the frame, or answers
  with nothing or with a frame that holds responses only; and the only fault possible is the exception
  for responses that together exceed the 4 GiB a length header can say.
\<close>

theorem kernel_safe:
  assumes "node_ok e w" and "a < w_next w"
  shows "case session_kernel_handle e frame a w of
      Inl f \<Rightarrow> f = Frame_too_large
    | Inr (None, w') \<Rightarrow> node_ok e w'
    | Inr (Some out, w') \<Rightarrow> node_ok e w' \<and>
        (out = [] \<or> (\<exists>rs. out = frame_bytes (crc_ccitt e) (get_type a w = tcp) rs \<and> list_all is_response rs))"
proof -
  consider "session_kernel_handle e frame a w = Inl Frame_too_large"
    | w' where "session_kernel_handle e frame a w = Inr (None, w')" "node_ok e w'"
    | rs w' where "session_kernel_handle e frame a w =
        Inr (Some (if rs = [] then [] else frame_bytes (crc_ccitt e) (get_type a w = tcp) rs), w')"
      "list_all is_response rs" "node_ok e w'"
    using kernel_outcomes [OF assms, of frame] by blast
  then show ?thesis by cases auto
qed

theorem kernel_safe_witness:
  "case session_kernel_handle demo_env (Some [1, 2, 3, 4, 5, 6, 7]) 0 demo_world of
      Inl f \<Rightarrow> f = Frame_too_large
    | Inr (None, w') \<Rightarrow> node_ok demo_env w'
    | Inr (Some out, w') \<Rightarrow> node_ok demo_env w' \<and>
        (out = [] \<or> (\<exists>rs. out = frame_bytes (crc_ccitt demo_env) (get_type 0 demo_world = tcp) rs \<and>
          list_all is_response rs))"
  by (rule kernel_safe [OF demo_node_ok]) simp

text \<open>
  A damaged frame is dropped: no frame, fewer than four bytes, a checksum that does not match, or a
  count whose length table does not fit, gives no answer and changes nothing.
\<close>

lemma damaged_frame_dropped:
  assumes "frame = [] \<or> length frame < 4 \<or>
    crc_ccitt e (take (length frame - 2) frame) \<noteq> get16 (drop (length frame - 2) frame) \<or>
    length frame - 4 < 2 * unat (get16 (take 2 frame))"
  shows "session_kernel_handle e None a w = Inr (None, w) \<and>
    session_kernel_handle e (Some frame) a w = Inr (None, w)"
proof (cases "length frame < 4")
  case True
  then show ?thesis by (auto simp: session_kernel_handle_def memcpy_at_def)
next
  case False
  have table: "length frame - 2 - 2 < k * 2 \<longleftrightarrow> length frame - 4 < 2 * k" for k
    by linarith
  have "\<not> length frame < 2" "\<not> length frame - 2 < 2" "length frame - 2 + 2 \<le> length frame"
    using False by linarith+
  then show ?thesis
    using assms False
    by (auto simp: session_kernel_handle_def memcpy_at_def table Let_def
        simp del: add_2_eq_Suc add_2_eq_Suc' diff_Suc_Suc)
qed

section \<open>Requests and their answers\<close>

text \<open>The frame of a builder whose payloads are short, handled.\<close>

lemma kernel_of_built:
  assumes "get_data (crc_ccitt e) b False = Inr frame" and "buffers b \<noteq> []" and "list_all short (buffers b)"
    and "process (get_handlers e) (buffers b) as_response a w = Inr (Some b', w')"
    and "get_type a w' = get_type a w"
  shows "session_kernel_handle e (Some frame) a w =
    chain (get_data (crc_ccitt e) b' (get_type a w = tcp)) (\<lambda>out. Inr (Some out, w'))"
proof -
  have fits: "frame_fits (buffers b)"
    using assms(1,2) by (cases rule: get_data_cases [of b "crc_ccitt e" False]) auto
  then have "frame = frame_bytes (crc_ccitt e) False (buffers b)" "length (buffers b) \<le> 65535"
    using assms(1,2) by (simp_all add: get_data_frame_bytes, simp add: frame_fits_def max_requests_per_frame_def)
  then show ?thesis
    using kernel_handle_frame [OF assms(3)] assms(4,5) by (simp add: kernel_spec_def)
qed

lemma header_fields:
  "(message_header op type tx @ rest) ! 0 = op" "(message_header op type tx @ rest) ! Suc 0 = type"
  "take 16 (drop 2 (message_header op type tx @ rest)) = put_uuid tx"
  "drop 18 (message_header op type tx @ rest) = rest"
  by (simp_all add: message_header_def)

lemma process_message:
  "process hs ((message_header op type tx @ rest) # ms) b a w =
     chain (hs op type b tx rest a w) (\<lambda>(b', w'). process hs ms b' a w')"
  using header_fields [of op type tx rest] by (simp del: drop_append take_append)

lemma process_one:
  "process hs [message_header op type tx @ rest] b a w =
     chain (hs op type b tx rest a w) (\<lambda>(b', w'). Inr (Some b', w'))"
  unfolding process_message by (simp add: case_prod_unfold)

definition ping_all :: "uuid list \<Rightarrow> base_builder" where
  "ping_all txs = foldl (\<lambda>b tx. request_add_ping tx b) as_request txs"

definition pong_all :: "uuid list \<Rightarrow> base_builder" where
  "pong_all txs = foldl (\<lambda>b tx. response_add_ping tx (exit_code_value success) b) as_response txs"

lemma buffers_ping_all: "buffers (ping_all txs) = map (\<lambda>tx. message_header 1 request tx) txs"
proof -
  have "buffers (foldl (\<lambda>b tx. request_add_ping tx b) b txs) =
      buffers b @ map (\<lambda>tx. message_header 1 request tx) txs" for b
    by (induction txs arbitrary: b) (simp_all add: request_add_ping_def)
  then show ?thesis by (simp add: ping_all_def)
qed

lemma buffers_pong_all: "buffers (pong_all txs) = map (\<lambda>tx. message_header 1 response tx @ [200]) txs"
proof -
  have "buffers (foldl (\<lambda>b tx. response_add_ping tx (exit_code_value success) b) b txs) =
      buffers b @ map (\<lambda>tx. message_header 1 response tx @ [200]) txs" for b
    by (induction txs arbitrary: b) (simp_all add: response_add_ping_def)
  then show ?thesis by (simp add: pong_all_def)
qed

lemma process_pings:
  "process (get_handlers e) (map (\<lambda>tx. message_header 1 request tx) txs) b a w =
     Inr (Some (foldl (\<lambda>b tx. response_add_ping tx (exit_code_value success) b) b txs), w)"
proof (induction txs arbitrary: b)
  case Nil
  then show ?case by simp
next
  case (Cons tx txs)
  then show ?case
    using header_fields [of 1 request tx "[]"]
    by (simp add: get_handlers_def ping_handler_def)
qed

text \<open>A frame of pings, through the parser and the handlers: the node does not change.\<close>

lemma kernel_answers_pings:
  assumes "txs \<noteq> []" and "get_data (crc_ccitt e) (ping_all txs) False = Inr frame"
  shows "\<exists>out. get_data (crc_ccitt e) (pong_all txs) (get_type a w = tcp) = Inr out \<and>
    session_kernel_handle e (Some frame) a w = Inr (Some out, w)"
proof -
  have ne: "buffers (ping_all txs) \<noteq> []" "buffers (pong_all txs) \<noteq> []"
    using assms(1) by (simp_all add: buffers_ping_all buffers_pong_all)
  have "length txs \<le> 65535"
    using assms(2) ne(1) by (cases rule: get_data_cases [of "ping_all txs" "crc_ccitt e" False])
      (auto simp: buffers_ping_all frame_fits_def max_requests_per_frame_def)
  moreover have "payload_sum (map (\<lambda>tx. message_header 1 response tx @ [200]) txs) = 19 * length txs"
    by (induction txs) simp_all
  ultimately have fits: "frame_fits (buffers (pong_all txs))"
    by (simp add: frame_fits_def buffers_pong_all max_requests_per_frame_def max_frame_payload_size_def)
  have "list_all short (buffers (ping_all txs))"
    by (simp add: buffers_ping_all list_all_iff short_def)
  moreover have "process (get_handlers e) (buffers (ping_all txs)) as_response a w = Inr (Some (pong_all txs), w)"
    by (simp add: buffers_ping_all process_pings pong_all_def)
  ultimately show ?thesis
    using kernel_of_built [OF assms(2) ne(1)] get_data_frame_bytes [OF ne(2) fits] by simp
qed

lemma one_response_fits:
  assumes "length (buffers b) = 1" and "payload_sum (buffers b) \<le> 1000"
  shows "\<exists>out. get_data crc b h = Inr out"
proof -
  have "buffers b \<noteq> []" "frame_fits (buffers b)"
    using assms by (auto intro: frame_fits_small)
  then show ?thesis using get_data_frame_bytes by blast
qed

text \<open>
  The node tells a client who it is: a whoami request is answered with the id of the client's
  session, the id of the node and the transport of the session, and nothing changes.
\<close>

lemma whoami_answered:
  assumes "get_data (crc_ccitt e) (request_add_whoami tx as_request) False = Inr frame"
  shows "\<exists>out. get_data (crc_ccitt e)
      (response_add_whoami tx (get_id a w) (w_node_id w) (get_type a w) as_response) (get_type a w = tcp) = Inr out \<and>
    session_kernel_handle e (Some frame) a w = Inr (Some out, w)"
proof -
  let ?r = "response_add_whoami tx (get_id a w) (w_node_id w) (get_type a w) as_response"
  have b: "buffers (request_add_whoami tx as_request) = [message_header 6 request tx @ []]"
    by (simp add: request_add_whoami_def)
  have "process (get_handlers e) [message_header 6 request tx @ []] as_response a w = Inr (Some ?r, w)"
    unfolding process_one by (simp add: get_handlers_def whoami_handler_def)
  then have "session_kernel_handle e (Some frame) a w =
      chain (get_data (crc_ccitt e) ?r (get_type a w = tcp)) (\<lambda>out. Inr (Some out, w))"
    using kernel_of_built [OF assms] by (simp add: b short_def)
  moreover have "\<exists>out. get_data (crc_ccitt e) ?r (get_type a w = tcp) = Inr out"
    by (rule one_response_fits) (simp_all add: response_add_whoami_def)
  ultimately show ?thesis by auto
qed

text \<open>
  A message with an opcode the protocol does not have (0 or above 6) that is not a response gets the
  non-implemented answer for its transaction, whatever its payload, and the node does not change.
\<close>

lemma unknown_opcode_answered:
  assumes "opcode \<notin> {1, 2, 3, 4, 5, 6}" and "type \<noteq> response" and "length payload < 65518"
    and "get_data (crc_ccitt e) (push_payload (message_header opcode type tx @ payload) n as_request) False = Inr frame"
  shows "\<exists>out. get_data (crc_ccitt e) (response_add_non_implemented 0 tx as_response) (get_type a w = tcp) = Inr out \<and>
    session_kernel_handle e (Some frame) a w = Inr (Some out, w)"
proof -
  let ?r = "response_add_non_implemented 0 tx as_response"
  have "process (get_handlers e) [message_header opcode type tx @ payload] as_response a w = Inr (Some ?r, w)"
    unfolding process_one using assms(1,2) by (simp add: get_handlers_def non_implemented_handler_def)
  then have "session_kernel_handle e (Some frame) a w =
      chain (get_data (crc_ccitt e) ?r (get_type a w = tcp)) (\<lambda>out. Inr (Some out, w))"
    using kernel_of_built [OF assms(4)] assms(3) by (simp add: short_def)
  moreover have "\<exists>out. get_data (crc_ccitt e) ?r (get_type a w = tcp) = Inr out"
    by (rule one_response_fits) (simp_all add: response_add_non_implemented_def)
  ultimately show ?thesis by auto
qed

text \<open>
  A frame that holds responses only, of any opcode and content, is handled
  without queueing an answer; the result is the empty frame.
\<close>

lemma responses_not_answered:
  assumes "node_ok e w" and "a < w_next w" and "buffers b \<noteq> []" and "list_all is_response (buffers b)"
    and "list_all short (buffers b)" and "get_data (crc_ccitt e) b False = Inr frame"
  shows "\<exists>w'. session_kernel_handle e (Some frame) a w = Inr (Some [], w') \<and> node_ok e w'"
proof -
  obtain b' w' where p: "process (get_handlers e) (buffers b) as_response a w = Inr (Some b', w')"
    "buffers b' = []" "node_ok e w'" "evolves w w'"
    using table.process_responses [OF assms(1,2,4), of as_response] by auto
  have "get_type a w' = get_type a w"
    using p(4) assms(2) by (simp add: evolves_def same_core_def get_type_def)
  from kernel_of_built [OF assms(6,3,5) p(1) this] p(2,3) show ?thesis
    by (simp add: get_data_empty)
qed

lemma built_frame_short:
  assumes "get_data crc b h = Inr r" and "length r < 65536" and "buffers b \<noteq> []"
  shows "list_all short (buffers b)"
proof -
  have "frame_fits (buffers b)"
    using assms(1,3) by (cases rule: get_data_cases [of b crc h]) auto
  then have "payload_sum (buffers b) \<le> length r"
    using assms(1,3) by (auto simp: get_data_frame_bytes frame_bytes_def length_frame_body)
  moreover have "length m \<le> payload_sum ms" if "m \<in> set ms" for m ms
    using that by (auto simp: payload_sum_def intro: member_le_sum_list)
  ultimately show ?thesis
    using assms(2) by (fastforce simp: list_all_iff short_def)
qed

section \<open>WebSocket clients\<close>

lemma process_websocket:
  assumes "get_type a w = websocket" and "list_all (\<lambda>m. m ! 0 \<noteq> 3) ms"
  shows "\<exists>r. process (get_handlers e) ms builder a w = Inr (r, w)"
  using assms(2)
proof (induction ms arbitrary: builder)
  case Nil
  then show ?case by simp
next
  case (Cons m ms)
  then obtain b where "get_handlers e (m ! 0) (m ! 1) builder (get_uuid (take 16 (drop 2 m))) (drop 18 m) a w = Inr (b, w)"
    using websocket_handler_harmless [OF assms(1)] by fastforce
  then show ?case
    using Cons.IH [of b] Cons.prems by simp
qed

text \<open>
  C37. A WebSocket client cannot act as a node: a frame of its messages, of any opcodes but discovery, any
  types and any payloads, never changes the node, be it answered or not.
\<close>

theorem websocket_frames_harmless:
  assumes "get_type a w = websocket" and "buffers b \<noteq> []" and "list_all short (buffers b)"
    and "list_all (\<lambda>m. m ! 0 \<noteq> op_code_value discovery) (buffers b)"
    and "get_data (crc_ccitt e) b False = Inr frame"
    and "session_kernel_handle e (Some frame) a w = Inr (answer, w')"
  shows "w' = w"
proof -
  have fits: "frame_fits (buffers b)"
    using assms(2,5) by (cases rule: get_data_cases [of b "crc_ccitt e" False]) auto
  have "frame = frame_bytes (crc_ccitt e) False (buffers b)"
    using assms(2,5) get_data_frame_bytes [OF assms(2) fits, of "crc_ccitt e" False] by simp
  moreover have "length (buffers b) \<le> 65535"
    using fits by (simp add: frame_fits_def max_requests_per_frame_def)
  ultimately have k: "kernel_spec e (buffers b) a w = Inr (answer, w')"
    using kernel_handle_frame [OF assms(3)] assms(6) by simp
  obtain r where "process (get_handlers e) (buffers b) as_response a w = Inr (r, w)"
    using process_websocket [OF assms(1), of "buffers b" e as_response] assms(4) by auto
  then show ?thesis
    using k by (auto simp: kernel_spec_def chain_eq_Inr split: option.splits)
qed

theorem websocket_frames_harmless_witness:
  "\<exists>frame answer. get_data crc_16_ccitt (request_add_whoami 4 (request_add_join 77 3 as_request)) False = Inr frame \<and>
     session_kernel_handle demo_env (Some frame) 2 demo_world = Inr (answer, demo_world)"
proof -
  let ?b = "request_add_whoami 4 (request_add_join 77 3 as_request)"
  have t: "get_type 2 demo_world = websocket"
    by (simp add: get_type_def)
  have b: "buffers ?b \<noteq> []" "list_all short (buffers ?b)" "frame_fits (buffers ?b)"
    "list_all (\<lambda>m. m ! 0 \<noteq> op_code_value discovery) (buffers ?b)"
    by (simp_all add: request_builder_defs short_def frame_fits_small message_header_def)
  obtain frame where f: "get_data (crc_ccitt demo_env) ?b False = Inr frame"
    using get_data_frame_bytes [OF b(1,3)] by blast
  obtain b' where p: "process (get_handlers demo_env) (buffers ?b) as_response 2 demo_world = Inr (Some b', demo_world)"
    "length (buffers b') = 1" "payload_sum (buffers b') \<le> 1000"
    using header_fields [of 4 request 3 "put_uuid 77"] header_fields [of 6 request 4 "[]"]
    by (simp add: request_builder_defs get_handlers_def websocket_cannot_peer(2) [OF t] whoami_handler_def
        response_add_whoami_def del: drop_append take_append)
  obtain out where "get_data (crc_ccitt demo_env) b' (get_type 2 demo_world = tcp) = Inr out"
    using one_response_fits [OF p(2,3)] by blast
  then have "session_kernel_handle demo_env (Some frame) 2 demo_world = Inr (Some out, demo_world)"
    using kernel_of_built [OF f b(1,2) p(1) refl] by simp
  with websocket_frames_harmless [OF t b(1,2,4) f this] f show ?thesis by auto
qed

text \<open>
  C38. Any session, a WebSocket client's too, can make the node dial: a discovery response that nobody asked
  for, about a host and port no registered session is known under, has exactly the effect of an
  outbound connection to them, and no answer.
\<close>

theorem unsolicited_discovery_dials:
  assumes "length host < 65000" and "\<not> already_connected host port w"
    and "state_connect e host port False 0 w = Inr (r, w')" and "node_ok e w" and "a < w_next w"
    and "get_data (crc_ccitt e) (response_add_discovery tx [(host, port)] as_response) False = Inr frame"
  shows "session_kernel_handle e (Some frame) a w = Inr (Some [], w')"
proof -
  let ?d = "discovery_payload [(host, port)]"
  have d: "?d = put32 1 @ put16 port @ put16 (of_nat (length host)) @ string_bytes host @ []"
    by (simp add: discovery_payload_def)
  have "read_nodes ?d (Suc 0) 4 = [(host, port)]"
    unfolding d using assms(1) by (subst read_nodes_at) (simp_all add: unat_of_nat)
  moreover have "get32 (take 4 ?d) = 1"
    unfolding d by (rule u32.get_take_put)
  moreover have "4 \<le> length ?d"
    by (simp add: d)
  ultimately have "discovery_handler e response as_response tx ?d a w = Inr (as_response, w')"
    using assms(2,3) by (simp add: discovery_response_connects)
  then have p: "process (get_handlers e) [message_header 3 response tx @ ?d] as_response a w = Inr (Some as_response, w')"
    unfolding process_one by (simp add: get_handlers_def)
  obtain r' v where "state_connect e host port False 0 w = Inr (r', v)" "evolves w v"
    using state_connect_evolves [OF assms(4)] by blast
  then have "get_type a w' = get_type a w"
    using assms(3,5) by (simp add: evolves_def same_core_def get_type_def)
  moreover have "short (message_header 3 response tx @ ?d)"
    using assms(1) by (simp add: short_def d)
  ultimately show ?thesis
    using kernel_of_built [OF assms(6)] p
    by (simp add: response_add_discovery_def get_data_empty del: process.simps)
qed

theorem unsolicited_discovery_dials_witness:
  "\<exists>frame w'. get_data crc_16_ccitt (response_add_discovery 5 [(''10.0.0.9'', 22)] as_response) False = Inr frame \<and>
     session_kernel_handle demo_env (Some frame) 2 demo_world = Inr (Some [], w') \<and> w_dials w' = 1"
proof -
  let ?b = "response_add_discovery 5 [(''10.0.0.9'', 22)] as_response"
  have new: "\<not> already_connected ''10.0.0.9'' 22 demo_world"
    by (simp add: already_connected_def get_host_def demo_session_def)
  obtain w' where c: "state_connect demo_env ''10.0.0.9'' 22 False 0 demo_world = Inr (True, w')" "w_dials w' = 1"
    by (simp add: state_connect_def Let_def new_tcp_session_def draw_uuid_def allocate_def add_session_def
        container_insert_def find_by_id_def get_id_def session_start_eq session_send_eq get_type_def
        get_data_identify [of _ demo_world, simplified])
  have "\<exists>frame. get_data (crc_ccitt demo_env) ?b False = Inr frame"
    by (rule one_response_fits) (simp_all add: response_add_discovery_def discovery_payload_def)
  then obtain frame where f: "get_data (crc_ccitt demo_env) ?b False = Inr frame"
    by blast
  show ?thesis
    using unsolicited_discovery_dials [OF _ new c(1) demo_node_ok _ f, of 2] f c(2) by auto
qed

end
