(* ===== verification/Client_Exchange.thy ===== *)
theory Client_Exchange
  imports Websocket_Client Kernel_Properties
begin

text \<open>
  Clients and nodes together: a request that goes from a client through the read loop, the parser, the
  handlers and the write queue of a session and back, over both transports, and the frames that one node
  sends to another.
\<close>

section \<open>The write side of an idle session\<close>

lemma requeue_back:
  assumes "get_queue a w = []"
  shows "update_session a (\<lambda>s. s\<lparr>s_queue := []\<rparr>) (update_session a (\<lambda>s. s\<lparr>s_queue := s_queue s @ [m]\<rparr>) w) = w"
proof -
  have "(w_heap w a)\<lparr>s_queue := []\<rparr> = w_heap w a"
    using assms by (simp add: get_queue_def)
  then show ?thesis by (simp add: update_session_def)
qed

text \<open>A message sent by an idle session is written and leaves no trace.\<close>

lemma idle_send:
  assumes "get_queue a w = []"
  shows "Write a m \<notin> set (w_pending w) \<Longrightarrow>
      tcp_on_write e a False (finish_op (Write a m) (tcp_on_send a m w)) = Inr w"
    and "Ws_write a m \<notin> set (w_pending w) \<Longrightarrow>
      websocket_on_write e a False (finish_op (Ws_write a m) (websocket_on_send a m w)) = Inr w"
    and "Write a m \<in> set (w_pending (tcp_on_send a m w))"
    and "Ws_write a m \<in> set (w_pending (websocket_on_send a m w))"
proof -
  let ?q = "update_session a (\<lambda>s. s\<lparr>s_queue := s_queue s @ [m]\<rparr>) w"
  have p: "w_pending ?q = w_pending w" by (simp add: update_session_def)
  have fin: "finish_op op (start_op op ?q) = ?q" if "op \<notin> set (w_pending w)" for op
    using that by (simp add: finish_op_def start_op_def remove1_append p)
  have on: "tcp_on_send a m w = start_op (Write a m) ?q" "websocket_on_send a m w = start_op (Ws_write a m) ?q"
    using assms(1) by (simp_all add: tcp_on_send_def websocket_on_send_def Let_def)
  show "tcp_on_write e a False (finish_op (Write a m) (tcp_on_send a m w)) = Inr w"
    if "Write a m \<notin> set (w_pending w)"
    using that assms requeue_back [OF assms(1)] by (simp add: on fin tcp_on_write_def)
  show "websocket_on_write e a False (finish_op (Ws_write a m) (websocket_on_send a m w)) = Inr w"
    if "Ws_write a m \<notin> set (w_pending w)"
    using that assms requeue_back [OF assms(1)] by (simp add: on fin websocket_on_write_def)
  show "Write a m \<in> set (w_pending (tcp_on_send a m w))"
    "Ws_write a m \<in> set (w_pending (websocket_on_send a m w))"
    by (simp_all add: on)
qed

section \<open>Pinging a node\<close>

text \<open>The session after it handled the length header of a frame of \<open>n\<close> bytes.\<close>

definition header_read :: "addr \<Rightarrow> byte list \<Rightarrow> world \<Rightarrow> world" where
  "header_read a f w = update_session a (\<lambda>s. s\<lparr>s_header_length := get32 (take 4 f)\<rparr>) w"

text \<open>
  C12. Pinging a node over TCP, end to end: the bytes a client sends, a frame of any number of pings, make a
  session that waits for a header queue one message; once it is written, what the client reads is exactly
  the frame of as many successful pongs with the same transaction ids in the same order.  The session is
  back where it was, waiting for the next header, and nothing else of the node has changed.
\<close>

theorem tcp_client_pings:
  assumes "get_type a w = tcp" and "reads a w = 0" and "get_queue a w = []"
    and "tcp_inflight a w = []" and "txs \<noteq> []" and "get_data (crc_ccitt e) (ping_all txs) True = Inr f"
    and "tcp_client_send False f c = Inr c'" and "tc_outgoing c = []"
  shows "\<exists>out v u. get_data (crc_ccitt e) (pong_all txs) True = Inr out \<and>
    tcp_receive e a (tc_outgoing c') (tcp_read_header a w) = Inr v \<and>
    w_posted v = w_posted w @ [Run_on_send a out] \<and>
    run_task e (Run_on_send a out) (v\<lparr>w_posted := w_posted w\<rparr>) = Inr u \<and>
    Write a out \<in> set (w_pending u) \<and>
    complete_op e (Write a out) False [] u = Inr (tcp_read_header a (header_read a f w)) \<and>
    tcp_client_read (c'\<lparr>tc_incoming := out\<rparr>) = Inr (out, c'\<lparr>tc_incoming := []\<rparr>)"
proof -
  let ?w = "header_read a f w"
  have ne: "buffers (ping_all txs) \<noteq> []" "buffers (pong_all txs) \<noteq> []"
    using assms(5) by (simp_all add: buffers_ping_all buffers_pong_all)
  have f: "is_frame f" "get_data (crc_ccitt e) (ping_all txs) False = Inr (drop 4 f)"
    using get_data_is_frame [OF ne(1) assms(6)] get_data_header(2) [OF ne(1) assms(6)] by simp_all
  have type: "get_type a ?w = tcp"
    using assms(1) by (simp add: header_read_def update_session_def get_type_def)
  obtain out where out: "get_data (crc_ccitt e) (pong_all txs) True = Inr out"
    "session_kernel_handle e (Some (drop 4 f)) a ?w = Inr (Some out, ?w)"
    using kernel_answers_pings [OF assms(5) f(2), of a ?w] type by auto
  have answer: "answer_frame e a f w = Inr (session_send a out ?w)"
    by (simp add: answer_frame_def answer_and_def out(2) flip: header_read_def)
  let ?v = "tcp_read_header a (session_send a out ?w)" and ?u = "tcp_on_send a out (tcp_read_header a ?w)"
  have received: "tcp_receive e a (tc_outgoing c') (tcp_read_header a w) = Inr ?v"
    using tcp_receive_frame [OF assms(2) f(1), of e "[]"] assms(7,8)
    by (auto simp: tcp_client_send_def answer) (subst tcp_receive.simps, simp)
  have fields: "w_posted ?w = w_posted w" "get_queue a (tcp_read_header a ?w) = []"
    "w_pending (tcp_read_header a ?w) = w_pending w @ [Read_header a]"
    using assms(3) by (simp_all add: header_read_def update_session_def get_queue_def tcp_read_header_def)
  have again: "?v\<lparr>w_posted := w_posted w\<rparr> = tcp_read_header a ?w"
    using fields(1) by (simp add: tcp_read_header_def start_op_def session_send_eq)
  have run: "run_task e (Run_on_send a out) (?v\<lparr>w_posted := w_posted w\<rparr>) = Inr ?u"
    using type by (simp add: run_task_def again) (simp add: get_type_def tcp_read_header_def)
  have "Write a out \<notin> set (w_pending (tcp_read_header a ?w))"
    using assms(4) tcp_inflight_member [of out a w] by (simp add: fields(3))
  then have written: "complete_op e (Write a out) False [] ?u = Inr (tcp_read_header a ?w)"
    using idle_send(1) [OF fields(2)] by (simp add: complete_op_def)
  have read: "tcp_client_read (c'\<lparr>tc_incoming := out\<rparr>) = Inr (out, c'\<lparr>tc_incoming := []\<rparr>)"
    using tcp_client_read_frame [OF get_data_is_frame [OF ne(2) out(1)], of "c'\<lparr>tc_incoming := out\<rparr>" "[]"] by simp
  have "w_posted ?v = w_posted w @ [Run_on_send a out]"
    using fields(1) by (simp add: tcp_read_header_def session_send_eq)
  then show ?thesis
    using out(1) received run written read idle_send(3) [OF fields(2)] by blast
qed

text \<open>
  C25. Pinging a node over WebSocket, end to end: a client whose connect succeeded sends a frame of any number
  of pings as one binary message; a session that waits for a message queues one in return; once it is
  written, what the client reads is the frame of as many successful pongs, without a length header, and
  the node is exactly as before.
\<close>

theorem websocket_client_pings:
  assumes "get_type a w = websocket" and "reads a w = 0" and "get_queue a w = []"
    and "ws_inflight a w = []" and "txs \<noteq> []" and "get_data (crc_ccitt e) (ping_all txs) False = Inr f"
    and "websocket_client_connect net host port c0 = (True, c)" and "websocket_client_send False f c = Inr c'"
  shows "\<exists>out v u. get_data (crc_ccitt e) (pong_all txs) False = Inr out \<and>
    wc_outgoing c' = [(True, f)] \<and>
    complete_op e (Ws_read a) False f (websocket_read_body a w) = Inr v \<and>
    w_posted v = w_posted w @ [Run_on_send a out] \<and>
    run_task e (Run_on_send a out) (v\<lparr>w_posted := w_posted w\<rparr>) = Inr u \<and>
    Ws_write a out \<in> set (w_pending u) \<and>
    complete_op e (Ws_write a out) False [] u = Inr (websocket_read_body a w) \<and>
    websocket_client_read False (c'\<lparr>wc_incoming := [out]\<rparr>) = Inr (out, c'\<lparr>wc_incoming := []\<rparr>)"
proof -
  obtain out where out: "get_data (crc_ccitt e) (pong_all txs) False = Inr out"
    "session_kernel_handle e (Some f) a w = Inr (Some out, w)"
    using kernel_answers_pings [OF assms(5,6), of a w] assms(1) by auto
  let ?v = "websocket_read_body a (session_send a out w)"
    and ?u = "websocket_on_send a out (websocket_read_body a w)"
  have finish: "finish_op (Ws_read a) (websocket_read_body a w) = w"
    using finish_start [OF assms(2), of "Ws_read a"] by (simp add: websocket_read_body_def)
  have received: "complete_op e (Ws_read a) False f (websocket_read_body a w) = Inr ?v"
    by (simp add: complete_op_def finish on_body_answer_and answer_and_def out(2))
  have fields: "get_queue a (websocket_read_body a w) = []"
    "w_pending (websocket_read_body a w) = w_pending w @ [Ws_read a]"
    "?v\<lparr>w_posted := w_posted w\<rparr> = websocket_read_body a w"
    using assms(3) by (simp_all add: websocket_read_body_def session_send_eq start_op_def get_queue_def)
  have run: "run_task e (Run_on_send a out) (?v\<lparr>w_posted := w_posted w\<rparr>) = Inr ?u"
    using assms(1) by (simp add: run_task_def fields(3)) (simp add: get_type_def websocket_read_body_def)
  have "Ws_write a out \<notin> set (w_pending (websocket_read_body a w))"
    using assms(4) ws_inflight_member [of out a w] by (simp add: fields(2))
  then have written: "complete_op e (Ws_write a out) False [] ?u = Inr (websocket_read_body a w)"
    using idle_send(2) [OF fields(1)] by (simp add: complete_op_def)
  have "wc_outgoing c' = [(True, f)]"
    using assms(7,8) by (auto simp: websocket_client_connect_def websocket_client_send_def Let_def split: if_splits)
  moreover have "websocket_client_read False (c'\<lparr>wc_incoming := [out]\<rparr>) = Inr (out, c'\<lparr>wc_incoming := []\<rparr>)"
    by (simp add: websocket_client_read_def)
  moreover have "w_posted ?v = w_posted w @ [Run_on_send a out]"
    by (simp add: websocket_read_body_def session_send_eq)
  ultimately show ?thesis
    using out(1) received run written idle_send(4) [OF fields(1)] by blast
qed

section \<open>From one node to another\<close>

text \<open>
  C17. No endless exchange: whatever bytes a node gets from a peer over TCP, the peer has nothing to say to
  the answer.  The answer, when it is one and shorter than 64 KiB, is no bytes at all, or a frame that the
  peer handles without a fault and with an empty result, so that a dialogue ends after at most two frames.
\<close>

theorem dialogue_ends:
  assumes "node_ok e1 w1" and "a < w_next w1" and "get_type a w1 = tcp"
    and "session_kernel_handle e1 (Some bytes) a w1 = Inr (Some r, w1')" and "length r < 65536"
    and "node_ok e2 w2" and "b < w_next w2" and "crc_ccitt e2 = crc_ccitt e1"
  shows "r = [] \<or> (is_frame r \<and>
    (\<exists>w2'. session_kernel_handle e2 (Some (drop 4 r)) b w2 = Inr (Some [], w2') \<and> node_ok e2 w2'))"
  using assms(1,2)
proof (cases rule: session_kernel_handle_cases [of e1 w1 a "Some bytes"])
  case (rejected w)
  then show ?thesis using assms(4) by simp
next
  case (answered w builder)
  have "get_type a w = tcp"
    using answered(2) assms(2,3) by (simp add: evolves_def same_core_def get_type_def)
  then have r: "get_data (crc_ccitt e1) builder True = Inr r"
    using answered(5) assms(4) by (auto simp: chain_def split: sum.splits)
  show ?thesis
  proof (cases "buffers builder = []")
    case True
    then show ?thesis using r by (simp add: get_data_empty)
  next
    case False
    have "get_data (crc_ccitt e2) builder False = Inr (drop 4 r)"
      using get_data_header(2) [OF False r] assms(8) by simp
    from responses_not_answered [OF assms(6,7) False answered(4) built_frame_short [OF r assms(5) False] this]
    show ?thesis using get_data_is_frame [OF False r] by blast
  qed
qed

section \<open>Concrete exchanges\<close>

lemma demo_idle:
  "reads a demo_world = 0" "get_queue 0 demo_world = []" "get_queue 2 demo_world = []"
  "tcp_inflight a demo_world = []" "ws_inflight a demo_world = []"
  by (simp_all add: reads_def get_queue_def tcp_inflight_def ws_inflight_def List.map_filter_simps)

lemma demo_pings: "\<exists>f. get_data crc (ping_all [1, 2, 3]) h = Inr f"
proof -
  have "buffers (ping_all [1, 2, 3]) \<noteq> []" "frame_fits (buffers (ping_all [1, 2, 3]))"
    by (simp_all add: buffers_ping_all frame_fits_def max_requests_per_frame_def max_frame_payload_size_def)
  then show ?thesis by (simp add: get_data_frame_bytes)
qed

theorem tcp_client_pings_witness:
  "\<exists>f out v. get_data crc_16_ccitt (ping_all [1, 2, 3]) True = Inr f \<and>
     get_data crc_16_ccitt (pong_all [1, 2, 3]) True = Inr out \<and>
     tcp_receive demo_env 0 f (tcp_read_header 0 demo_world) = Inr v \<and>
     w_posted v = [Run_on_send 0 out]"
proof -
  obtain f where f: "get_data (crc_ccitt demo_env) (ping_all [1, 2, 3]) True = Inr f"
    using demo_pings by blast
  let ?c = "new_tcp_client\<lparr>tc_outgoing := f\<rparr>"
  have c: "tcp_client_send False f new_tcp_client = Inr ?c" "tc_outgoing new_tcp_client = []"
    by (simp_all add: tcp_client_send_def new_tcp_client_def)
  have "get_type 0 demo_world = tcp" by (simp add: get_type_def)
  from tcp_client_pings [OF this demo_idle(1,2,4) _ f c] f show ?thesis by auto
qed

theorem websocket_client_pings_witness:
  "\<exists>f c c' out. get_data crc_16_ccitt (pong_all [1, 2, 3]) False = Inr out \<and>
     websocket_client_connect demo_network ''node'' 8080 new_websocket_client = (True, c) \<and>
     websocket_client_send False f c = Inr c' \<and> wc_outgoing c' = [(True, f)]"
proof -
  obtain f where f: "get_data (crc_ccitt demo_env) (ping_all [1, 2, 3]) False = Inr f"
    using demo_pings by blast
  obtain c where c: "websocket_client_connect demo_network ''node'' 8080 new_websocket_client = (True, c)"
    by (simp add: websocket_client_connect_def demo_network_def Let_def)
  let ?c = "c\<lparr>wc_outgoing := wc_outgoing c @ [(wc_binary c, f)]\<rparr>"
  have s: "websocket_client_send False f c = Inr ?c"
    by (simp add: websocket_client_send_def)
  have "get_type 2 demo_world = websocket" by (simp add: get_type_def)
  then obtain out where "get_data crc_16_ccitt (pong_all [1, 2, 3]) False = Inr out"
    "wc_outgoing ?c = [(True, f)]"
    using websocket_client_pings [OF _ demo_idle(1,3,5) _ f c s] by auto
  then show ?thesis using c s by blast
qed

theorem dialogue_ends_witness:
  "\<exists>f r w'. get_data crc_16_ccitt (ping_all [1, 2]) False = Inr f \<and>
     session_kernel_handle demo_env (Some f) 0 demo_world = Inr (Some r, demo_world) \<and> r \<noteq> [] \<and>
     session_kernel_handle demo_env (Some (drop 4 r)) 1 demo_world = Inr (Some [], w')"
proof -
  have t: "get_type 0 demo_world = tcp" by (simp add: get_type_def)
  have pings: "buffers (ping_all [1, 2]) \<noteq> []" "frame_fits (buffers (ping_all [1, 2]))"
    by (simp_all add: buffers_ping_all frame_fits_def max_requests_per_frame_def max_frame_payload_size_def)
  then obtain f where f: "get_data (crc_ccitt demo_env) (ping_all [1, 2]) False = Inr f"
    by (simp add: get_data_frame_bytes)
  obtain r where r: "get_data (crc_ccitt demo_env) (pong_all [1, 2]) True = Inr r"
    "session_kernel_handle demo_env (Some f) 0 demo_world = Inr (Some r, demo_world)"
    using kernel_answers_pings [OF _ f, of 0 demo_world] t by auto
  have pongs: "buffers (pong_all [1, 2]) \<noteq> []" "frame_fits (buffers (pong_all [1, 2]))"
    by (simp_all add: buffers_pong_all frame_fits_def max_requests_per_frame_def max_frame_payload_size_def)
  then have "length r = 50"
    using r(1) by (auto simp: get_data_frame_bytes frame_bytes_def length_frame_body buffers_pong_all)
  then show ?thesis
    using dialogue_ends [OF demo_node_ok _ t r(2) _ demo_node_ok, of 1] f r(2) by auto
qed

end
