(* ===== verification/Runtime_Termination.thy ===== *)
theory Runtime_Termination
  imports Runtime_Invariant
begin

text \<open>
  What a running node does by itself: running the tasks it has posted and completing the writes it has
  started.  This internal activity always ends, whichever order is chosen and whichever writes fail.
\<close>

section \<open>Internal activity\<close>

definition is_write :: "io_op \<Rightarrow> bool" where
  "is_write op \<longleftrightarrow> (case op of Write a m \<Rightarrow> True | Ws_write a m \<Rightarrow> True | _ \<Rightarrow> False)"

lemma is_write_simps [simp]:
  "is_write (Write a m)" "is_write (Ws_write a m)" "\<not> is_write (Read_header a)" "\<not> is_write (Read_body a n)"
  "\<not> is_write (Ws_accept a)" "\<not> is_write (Ws_read a)" "\<not> is_write Tcp_listen" "\<not> is_write Ws_listen"
  by (simp_all add: is_write_def)

inductive internal_step :: "env \<Rightarrow> world \<Rightarrow> world \<Rightarrow> bool" for e where
  run: "w_posted w = before @ t # after \<Longrightarrow> next_on_strand before t \<Longrightarrow>
    run_task e t (w\<lparr>w_posted := before @ after\<rparr>) = Inr w' \<Longrightarrow> internal_step e w w'"
| written: "op \<in> set (w_pending w) \<Longrightarrow> is_write op \<Longrightarrow> complete_op e op error [] w = Inr w' \<Longrightarrow>
    internal_step e w w'"

section \<open>The measure\<close>

text \<open>
  Connecting may register a session and a failed write may announce that a client left, which posts new
  sends.  The first component counts the sessions that are registered or may become so: no step
  increases it, and only its decrease allows new sends.  The second weighs what is left to do.
\<close>

definition weight :: "task \<Rightarrow> nat" where
  "weight t = (case t of Run_on_send a m \<Rightarrow> 3 | Run_connect h p \<Rightarrow> 5 | _ \<Rightarrow> 1)"

definition is_connect :: "task \<Rightarrow> bool" where
  "is_connect t \<longleftrightarrow> (case t of Run_connect h p \<Rightarrow> True | _ \<Rightarrow> False)"

definition potential_sessions :: "world \<Rightarrow> nat" where
  "potential_sessions w = length (w_sessions w) + length (filter is_connect (w_posted w))"

definition queued :: "world \<Rightarrow> nat" where
  "queued w = (\<Sum>a < w_next w. length (get_queue a w))"

definition work_left :: "world \<Rightarrow> nat" where
  "work_left w = sum_list (map weight (w_posted w)) + queued w + length (filter is_write (w_pending w))"

definition runtime_measure :: "world \<Rightarrow> nat \<times> nat" where
  "runtime_measure w = (potential_sessions w, work_left w)"

definition less_work :: "world \<Rightarrow> world \<Rightarrow> bool" where
  "less_work w' w \<longleftrightarrow> (runtime_measure w', runtime_measure w) \<in> less_than <*lex*> less_than"

lemma less_work_eq:
  "less_work w' w \<longleftrightarrow> potential_sessions w' < potential_sessions w \<or>
     potential_sessions w' = potential_sessions w \<and> work_left w' < work_left w"
  by (simp add: less_work_def runtime_measure_def)

lemma task_measures [simp]:
  "weight (Run_on_send a m) = 3" "weight (Run_connect h p) = 5" "weight (Run_read_header a) = 1"
  "weight (Run_ws_accept a) = 1"
  "\<not> is_connect (Run_on_send a m)" "is_connect (Run_connect h p)" "\<not> is_connect (Run_read_header a)"
  "\<not> is_connect (Run_ws_accept a)"
  by (simp_all add: weight_def is_connect_def)

lemma queued_cong:
  assumes "w_next v = w_next w" and "\<And>a. a < w_next w \<Longrightarrow> get_queue a v = get_queue a w"
  shows "queued v = queued w"
  using assms by (simp add: queued_def)

lemma queued_requeue:
  assumes "a < w_next w"
  shows "queued (update_session a (\<lambda>s. s\<lparr>s_queue := f (s_queue s)\<rparr>) w) + length (get_queue a w) =
    queued w + length (f (get_queue a w))"
proof -
  let ?v = "update_session a (\<lambda>s. s\<lparr>s_queue := f (s_queue s)\<rparr>) w"
  have a: "a \<in> {..<w_next w}" and fin: "finite {..<w_next w}" using assms by auto
  have n: "w_next ?v = w_next w" by (simp add: update_session_def)
  have "queued w = length (get_queue a w) + (\<Sum>b \<in> {..<w_next w} - {a}. length (get_queue b w))"
    unfolding queued_def by (rule sum.remove [OF fin a])
  moreover have "queued ?v = length (get_queue a ?v) + (\<Sum>b \<in> {..<w_next w} - {a}. length (get_queue b ?v))"
    unfolding queued_def n by (rule sum.remove [OF fin a])
  moreover have "get_queue a ?v = f (get_queue a w)"
    by (simp add: get_queue_def update_session_def)
  moreover have "(\<Sum>b \<in> {..<w_next w} - {a}. length (get_queue b ?v)) =
      (\<Sum>b \<in> {..<w_next w} - {a}. length (get_queue b w))"
    by (rule sum.cong) (auto simp: get_queue_update)
  ultimately show ?thesis by simp
qed

lemma writes_finish:
  "op \<in> set (w_pending w) \<Longrightarrow> is_write op \<Longrightarrow>
   Suc (length (filter is_write (w_pending (finish_op op w)))) = length (filter is_write (w_pending w))"
  using length_pos_if_in_set [of op "filter is_write (w_pending w)"]
  by (simp add: finish_op_def filter_remove1 length_remove1)

section \<open>Every step does some of the work\<close>

lemma removed_task:
  assumes "w_posted w = before @ t # after"
  defines "v \<equiv> w\<lparr>w_posted := before @ after\<rparr>"
  shows "work_left w = work_left v + weight t"
    and "potential_sessions w = potential_sessions v + (if is_connect t then 1 else 0)"
  by (simp_all add: work_left_def potential_sessions_def v_def assms(1) queued_def get_queue_def)

lemma on_send_work:
  assumes "a < w_next w"
  shows "work_left (tcp_on_send a m w) \<le> work_left w + 2"
    and "work_left (websocket_on_send a m w) \<le> work_left w + 2"
    and "potential_sessions (tcp_on_send a m w) = potential_sessions w"
    and "potential_sessions (websocket_on_send a m w) = potential_sessions w"
proof -
  let ?v = "update_session a (\<lambda>s. s\<lparr>s_queue := s_queue s @ [m]\<rparr>) w"
  have q: "queued ?v = Suc (queued w)"
    using queued_requeue [OF assms, of "\<lambda>q. q @ [m]"] by simp
  have op: "queued (start_op op v) = queued v" for op v
    by (rule queued_cong) simp_all
  have core: "w_posted ?v = w_posted w" "w_pending ?v = w_pending w" "w_sessions ?v = w_sessions w"
    by (simp_all add: update_session_def)
  show "work_left (tcp_on_send a m w) \<le> work_left w + 2"
    "work_left (websocket_on_send a m w) \<le> work_left w + 2"
    "potential_sessions (tcp_on_send a m w) = potential_sessions w"
    "potential_sessions (websocket_on_send a m w) = potential_sessions w"
    by (simp_all add: tcp_on_send_def websocket_on_send_def Let_def work_left_def potential_sessions_def core q op)
qed

lemma connect_work:
  assumes "node_ok e w" and "state_connect e host port d cpn w = Inr (r, w')"
  shows "potential_sessions w' \<le> potential_sessions w + 1" and "work_left w' \<le> work_left w + 4"
proof -
  have ok: "container_law e" "container_wf w" "set (w_sessions w) \<subseteq> {..<w_next w}"
    using assms(1) by (simp_all add: node_ok_def)
  let ?a = "w_next w" and ?s = "dialled_session e w"
  note eff = state_connect_effect [OF ok(1,2) refl refl ok(3), of host port d cpn]
  have new: "queued v = queued w" if "w_heap v = (w_heap w)(?a := ?s)" "w_next v = Suc ?a" for v
    using that by (simp add: queued_def get_queue_def dialled_session_def)
  have "potential_sessions w' \<le> potential_sessions w + 1 \<and> work_left w' \<le> work_left w + 4"
  proof (cases "resolve_ok e (w_dials w) host port \<and> dial_ok e (w_dials w) host port")
    case False
    then have "w' = w\<lparr>w_dials := Suc (w_dials w)\<rparr>"
      using eff assms(2) by (auto split: if_splits)
    then show ?thesis by (simp add: potential_sessions_def work_left_def queued_def get_queue_def)
  next
    case dialled: True
    show ?thesis
    proof (cases "find_by_id w (s_id ?s) = None")
      case False
      then have "w' = w\<lparr>w_dials := Suc (w_dials w), w_rng := Suc (w_rng w),
          w_heap := (w_heap w)(?a := ?s), w_next := Suc ?a\<rparr>"
        using eff assms(2) dialled by (auto split: if_splits)
      then show ?thesis
        using new [of w'] by (simp add: potential_sessions_def work_left_def)
    next
      case True
      then have w': "container_wf w'" "w_heap w' = (w_heap w)(?a := ?s)" "w_next w' = Suc ?a"
        "set (w_sessions w') = insert ?a (set (w_sessions w))" "w_pending w' = w_pending w"
        "w_posted w' = w_posted w @
          [Run_on_send ?a (frame_bytes (crc_ccitt e) True (first_payloads e d cpn w)), Run_read_header ?a]"
        using eff assms(2) dialled by auto
      have "?a \<notin> set (w_sessions w)" using ok(3) by auto
      then have "length (w_sessions w') = Suc (length (w_sessions w))"
        using w'(1,4) ok(2) by (metis List.finite_set card_insert_disjoint container_wf_distinct distinct_card)
      then show ?thesis
        using new [OF w'(2,3)] by (simp add: potential_sessions_def work_left_def w'(5,6))
    qed
  qed
  then show "potential_sessions w' \<le> potential_sessions w + 1" "work_left w' \<le> work_left w + 4"
    by blast+
qed

lemma drop_work:
  assumes "node_ok e w" and "drop_session e a w = Inr w'"
  shows "potential_sessions w' < potential_sessions w \<or> w' = w"
proof -
  have "container_wf w" using assms(1) by (simp add: node_ok_def)
  then show ?thesis
  proof (cases rule: remove_session_cases [of w "get_id a w" e])
    case absent
    then show ?thesis using assms(2) by (simp add: drop_session_def)
  next
    case (present b v)
    then have v: "v = w'" using assms(2) by (simp add: drop_session_def)
    have "b \<in> set (w_sessions w)"
      using present(1) \<open>container_wf w\<close> by (simp add: find_by_id_eq_Some)
    then have "length (w_sessions w') < length (w_sessions w)"
      using present(3) length_pos_if_in_set [of b "w_sessions w"] by (simp add: v length_remove1)
    moreover have "filter is_connect (w_posted w') = filter is_connect (w_posted w)"
      using present(4) by (fastforce simp: v removal_frame_def filter_empty_conv)
    ultimately show ?thesis by (simp add: potential_sessions_def)
  qed
qed

lemma next_write_work:
  assumes "a < w_next w" and "get_queue a w = m # rest" and "is_write op"
  defines "v \<equiv> update_session a (\<lambda>s. s\<lparr>s_queue := rest\<rparr>) w"
  shows "work_left v < work_left w" and "work_left (start_op op v) \<le> work_left w"
    and "potential_sessions v = potential_sessions w"
    and "potential_sessions (start_op op v) = potential_sessions w"
proof -
  have "queued v + length (get_queue a w) = queued w + length rest"
    unfolding v_def by (rule queued_requeue [OF assms(1)])
  then have q: "queued w = Suc (queued v)" using assms(2) by simp
  have core: "w_posted v = w_posted w" "w_pending v = w_pending w" "w_sessions v = w_sessions w"
    by (simp_all add: v_def update_session_def)
  have "queued (start_op op v) = queued v" by (rule queued_cong) simp_all
  with q assms(3) show "work_left v < work_left w" "work_left (start_op op v) \<le> work_left w"
    "potential_sessions v = potential_sessions w" "potential_sessions (start_op op v) = potential_sessions w"
    by (simp_all add: work_left_def potential_sessions_def core)
qed

lemma start_work:
  assumes "\<not> is_write op"
  shows "work_left (start_op op w) = work_left w" and "potential_sessions (start_op op w) = potential_sessions w"
proof -
  have "queued (start_op op w) = queued w" by (rule queued_cong) simp_all
  then show "work_left (start_op op w) = work_left w" "potential_sessions (start_op op w) = potential_sessions w"
    using assms by (simp_all add: work_left_def potential_sessions_def)
qed

lemma run_less_work:
  assumes "runtime_ok e w" and "w_posted w = before @ t # after"
    and "run_task e t (w\<lparr>w_posted := before @ after\<rparr>) = Inr w'"
  shows "less_work w' w"
proof -
  let ?v = "w\<lparr>w_posted := before @ after\<rparr>"
  note took = removed_task [OF assms(2)]
  note take = runtime_ok_take_task [OF assms(1,2)]
  have ok: "node_ok e ?v" using take(1) by (simp add: runtime_ok_def)
  show ?thesis
  proof (cases t)
    case (Run_read_header a)
    then show ?thesis using took assms(3)
      by (auto simp: less_work_eq run_task_def tcp_read_header_def start_work)
  next
    case (Run_on_send a m)
    then have "a < w_next ?v" using take(3) by simp
    from on_send_work [OF this, of m] show ?thesis using took assms(3) Run_on_send
      by (auto simp: less_work_eq run_task_def split: session_type.splits)
  next
    case (Run_ws_accept a)
    then show ?thesis using took assms(3) by (auto simp: less_work_eq run_task_def start_work)
  next
    case (Run_connect host port)
    then obtain r where "state_connect e host port False 0 ?v = Inr (r, w')"
      using assms(3) by (auto simp: run_task_def chain_def split: sum.splits)
    from connect_work [OF ok this] show ?thesis using took Run_connect by (auto simp: less_work_eq)
  qed
qed

lemma failed_write_drops:
  "is_write op \<Longrightarrow> \<exists>a. complete_op e op True bytes w = drop_session e a (finish_op op w)"
  by (cases op) (auto simp: complete_op_def tcp_on_write_def websocket_on_write_def)

lemma write_less_work:
  assumes "runtime_ok e w" and "op \<in> set (w_pending w)" and "is_write op"
    and "complete_op e op error [] w = Inr w'"
  shows "less_work w' w"
proof -
  let ?v = "finish_op op w"
  note fin = runtime_ok_finish [OF assms(1,2)]
  have ok: "node_ok e ?v" using fin(1) by (simp add: runtime_ok_def)
  have "queued ?v = queued w" by (rule queued_cong) simp_all
  then have v: "work_left w = Suc (work_left ?v)" "potential_sessions ?v = potential_sessions w"
    using writes_finish [OF assms(2,3)] by (simp_all add: work_left_def potential_sessions_def)
  have failed: "less_work w' w" if "drop_session e a ?v = Inr w'" for a
    using drop_work [OF ok that] v by (auto simp: less_work_eq)
  obtain a m where op: "op = Write a m \<or> op = Ws_write a m"
    using assms(3) by (cases op) simp_all
  then have a: "a < w_next ?v" using fin(3) by auto
  obtain m' rest where q: "get_queue a ?v = m' # rest"
    using fin(4) [of a m] op by (cases "get_queue a w") auto
  have succeeded: "less_work u w" if "u = update_session a (\<lambda>s. s\<lparr>s_queue := rest\<rparr>) ?v \<or>
      u = start_op (Write a (hd rest)) (update_session a (\<lambda>s. s\<lparr>s_queue := rest\<rparr>) ?v) \<or>
      u = start_op (Ws_write a (hd rest)) (update_session a (\<lambda>s. s\<lparr>s_queue := rest\<rparr>) ?v)" for u
    using that next_write_work [OF a q, of "Write a (hd rest)"] next_write_work [OF a q, of "Ws_write a (hd rest)"] v
    by (auto simp: less_work_eq)
  show ?thesis
  proof (cases error)
    case True
    then show ?thesis
      using failed_write_drops [OF assms(3)] assms(4) failed by metis
  next
    case False
    with op assms(4) q have
      "w' = (if rest \<noteq> [] then start_op (Write a (hd rest)) (update_session a (\<lambda>s. s\<lparr>s_queue := rest\<rparr>) ?v)
         else update_session a (\<lambda>s. s\<lparr>s_queue := rest\<rparr>) ?v) \<or>
       w' = (if rest \<noteq> [] then start_op (Ws_write a (hd rest)) (update_session a (\<lambda>s. s\<lparr>s_queue := rest\<rparr>) ?v)
         else update_session a (\<lambda>s. s\<lparr>s_queue := rest\<rparr>) ?v)"
      by (elim disjE) (simp_all add: complete_op_def tcp_on_write_def websocket_on_write_def Let_def split: if_splits)
    then show ?thesis by (intro succeeded) (auto split: if_splits)
  qed
qed

lemma internal_step_work:
  assumes "internal_step e w w'" and "runtime_ok e w"
  shows "runtime_ok e w'" and "less_work w' w"
proof -
  have "runtime_ok e w' \<and> less_work w' w"
    using assms(1)
  proof cases
    case (run before t "after")
    then show ?thesis
      using outcome_run_task [OF assms(2) run(1)] run_less_work [OF assms(2) run(1,3)] by simp
  next
    case (written op error)
    then show ?thesis
      using outcome_complete_op [OF assms(2) written(1), of error "[]"] write_less_work [OF assms(2) written]
      by simp
  qed
  then show "runtime_ok e w'" "less_work w' w" by blast+
qed

lemma wf_less_work: "wf {(w', w). less_work w' w}"
proof -
  have "{(w', w). less_work w' w} = inv_image (less_than <*lex*> less_than) runtime_measure"
    by (auto simp: less_work_def inv_image_def)
  then show ?thesis by (simp add: wf_lex_prod)
qed

text \<open>Every internal step is one the runtime may take, so the states on the way are reachable.\<close>

lemma internal_step_reachable:
  assumes "internal_step e w w'" and "reachable e w"
  shows "reachable e w'"
  using assms(1)
proof cases
  case (run before t "after")
  then show ?thesis
    using node_attempt.task [OF run(1,2), of e] reachable.step [OF assms(2)] by simp
next
  case (written op error)
  have "delivers op []" using written(2) by (cases op) simp_all
  from node_attempt.completion [OF written(1) this, of e error] written(3) show ?thesis
    using reachable.step [OF assms(2)] by simp
qed

lemma internal_steps_reachable:
  "(internal_step e)\<^sup>*\<^sup>* w w' \<Longrightarrow> reachable e w \<Longrightarrow> reachable e w'"
  by (induction rule: rtranclp_induct) (simp_all add: internal_step_reachable)

text \<open>
  C8. The internal activity of a node ends: from no reachable state is there an infinite sequence of
  tasks run and writes completed, whatever the order and whichever writes and dials fail.
\<close>

theorem internal_activity_terminates:
  assumes "reachable e w" and "container_law e" and "index_law e"
  shows "\<not> (\<exists>f. f 0 = w \<and> (\<forall>i. internal_step e (f i) (f (Suc i))))"
proof
  assume "\<exists>f. f 0 = w \<and> (\<forall>i. internal_step e (f i) (f (Suc i)))"
  then obtain f where f: "f 0 = w" "\<And>i. internal_step e (f i) (f (Suc i))" by blast
  have ok: "runtime_ok e (f i)" for i
    by (induction i) (simp_all add: f(1) reachable_runtime_ok [OF assms] internal_step_work(1) [OF f(2)])
  have "(f (Suc i), f i) \<in> {(w', w). less_work w' w}" for i
    using internal_step_work(2) [OF f(2) ok] by simp
  then show False
    using wf_less_work unfolding wf_iff_no_infinite_down_chain by blast
qed

theorem internal_activity_terminates_witness:
  "\<not> (\<exists>f. f 0 = demo_accepted \<and> (\<forall>i. internal_step demo_env (f i) (f (Suc i))))"
  by (rule internal_activity_terminates [OF demo_accepted_reachable demo_container_law demo_index_law])

end
