(* ===== verification/Connection_Pool.thy ===== *)
theory Connection_Pool
  imports Runtime_Termination Handler_Properties
begin

text \<open>
  How many connections two nodes end up with: an identify request announces how many the sender wants, and
  its receiver dials back that many less one; the sessions it dials announce zero, so the exchange ends
  there.
\<close>

lemma state_connect_rng:
  assumes "state_connect e host port d cpn w = Inr (True, w')"
  shows "w_rng w' = w_rng w + (if d then 3 else 2)"
proof -
  have add: "w_rng (snd (add_session e a v)) = w_rng v" for a v
    by (simp add: add_session_def container_insert_def split: option.split)
  have start: "w_rng (session_start a v) = w_rng v" for a v
    by (simp add: session_start_eq split: session_type.split)
  show ?thesis
    using assms
    by (auto simp: state_connect_def Let_def new_tcp_session_def draw_uuid_def allocate_def
        request_discovery_def drawn_def session_send_eq case_prod_unfold add start chain_def split: if_splits sum.splits)
qed

section \<open>Running the posted dials\<close>

text \<open>Run the first \<open>k\<close> posted tasks, one after the other.\<close>

fun run_head :: "env \<Rightarrow> nat \<Rightarrow> world \<Rightarrow> fault + world" where
  "run_head e 0 w = Inr w"
| "run_head e (Suc k) w =
     (case w_posted w of [] \<Rightarrow> Inr w | t # ts \<Rightarrow> chain (run_task e t (w\<lparr>w_posted := ts\<rparr>)) (run_head e k))"

definition dials_succeed :: "env \<Rightarrow> string \<Rightarrow> 16 word \<Rightarrow> bool" where
  "dials_succeed e host port \<longleftrightarrow> (\<forall>n. resolve_ok e n host port \<and> dial_ok e n host port)"

text \<open>The next \<open>m\<close> UUIDs are different and no session has one of them.\<close>

definition fresh_uuids :: "env \<Rightarrow> nat \<Rightarrow> world \<Rightarrow> bool" where
  "fresh_uuids e m w \<longleftrightarrow> inj_on (random_uuid e) {w_rng w..<w_rng w + m} \<and>
     (\<forall>j \<in> {w_rng w..<w_rng w + m}. find_by_id w (random_uuid e j) = None)"

text \<open>What one successful dial posts: its session introduces itself, asking for no connections, and reads.\<close>

definition introduction :: "env \<Rightarrow> world \<Rightarrow> addr \<times> uuid \<Rightarrow> task list" where
  "introduction e w p =
     [Run_on_send (fst p) (frame_bytes (crc_ccitt e) True [identify_payload w 0 (snd p)]),
      Run_read_header (fst p)]"

lemma introduction_cong:
  "w_node_id v = w_node_id w \<Longrightarrow> w_config v = w_config w \<Longrightarrow> introduction e v = introduction e w"
  by (simp add: introduction_def identify_payload_def fun_eq_iff)

lemma dial_fresh:
  assumes "node_ok e w" and "dials_succeed e host port" and "fresh_uuids e (m + (if d then 3 else 2)) w"
  obtains w' where "state_connect e host port d cpn w = Inr (True, w')" "node_ok e w'" "fresh_uuids e m w'"
    "w_posted w' = w_posted w @
       [Run_on_send (w_next w) (frame_bytes (crc_ccitt e) True (first_payloads e d cpn w)), Run_read_header (w_next w)]"
    "set (w_sessions w') = insert (w_next w) (set (w_sessions w))" "w_heap w' = (w_heap w)(w_next w := dialled_session e w)"
    "w_next w' = Suc (w_next w)" "w_node_id w' = w_node_id w" "w_config w' = w_config w"
proof -
  let ?n = "if d then 3 else 2 :: nat"
  have ok: "container_law e" "container_wf w" "set (w_sessions w) \<subseteq> {..<w_next w}"
    using assms(1) by (simp_all add: node_ok_def)
  let ?s = "dialled_session e w"
  have id: "s_id ?s = random_uuid e (w_rng w)" by (simp add: dialled_session_def)
  have "find_by_id w (s_id ?s) = None"
    using assms(3) by (simp add: fresh_uuids_def id split: if_splits)
  with assms(2) obtain w' where w': "state_connect e host port d cpn w = Inr (True, w')"
    "find_by_id w' = (find_by_id w)(s_id ?s \<mapsto> w_next w)" "w_next w' = Suc (w_next w)"
    "set (w_sessions w') = insert (w_next w) (set (w_sessions w))" "w_heap w' = (w_heap w)(w_next w := ?s)"
    "w_posted w' = w_posted w @ [Run_on_send (w_next w) (frame_bytes (crc_ccitt e) True (first_payloads e d cpn w)),
       Run_read_header (w_next w)]"
    "w_node_id w' = w_node_id w" "w_config w' = w_config w"
    using state_connect_effect [OF ok(1,2) refl refl ok(3), of host port d cpn]
    by (auto simp: dials_succeed_def)
  have "node_ok e w'"
    using state_connect_evolves [OF assms(1), of host port d cpn] w'(1) by auto
  moreover have "fresh_uuids e m w'"
  proof -
    let ?later = "{w_rng w + ?n..<w_rng w + ?n + m}"
    have sub: "?later \<subseteq> {w_rng w..<w_rng w + (m + ?n)}" by auto
    have "find_by_id w' (random_uuid e j) = None" if "j \<in> ?later" for j
    proof -
      have "w_rng w \<in> {w_rng w..<w_rng w + (m + ?n)}" "j \<noteq> w_rng w" using that by (auto split: if_splits)
      then have "random_uuid e j \<noteq> s_id ?s"
        using assms(3) sub that unfolding fresh_uuids_def id by (meson inj_onD subsetD)
      then show ?thesis using assms(3) sub that by (auto simp: fresh_uuids_def w'(2))
    qed
    moreover have "inj_on (random_uuid e) ?later"
      using assms(3) sub unfolding fresh_uuids_def by (meson inj_on_subset)
    ultimately show ?thesis using state_connect_rng [OF w'(1)] by (simp add: fresh_uuids_def)
  qed
  ultimately show thesis using that w' by blast
qed

lemma dial_once:
  assumes "node_ok e w" and "dials_succeed e host port" and "fresh_uuids e (m + 2) w"
  obtains w' tx where "state_connect e host port False 0 w = Inr (True, w')" "node_ok e w'" "fresh_uuids e m w'"
    "w_posted w' = w_posted w @ introduction e w (w_next w, tx)"
    "set (w_sessions w') = insert (w_next w) (set (w_sessions w))"
    "w_next w' = Suc (w_next w)" "w_node_id w' = w_node_id w" "w_config w' = w_config w"
proof -
  have "fresh_uuids e (m + (if False then 3 else 2)) w" using assms(3) by simp
  from dial_fresh [OF assms(1,2) this, of 0] obtain w' where w': "state_connect e host port False 0 w = Inr (True, w')"
    "node_ok e w'" "fresh_uuids e m w'"
    "w_posted w' = w_posted w @ [Run_on_send (w_next w) (frame_bytes (crc_ccitt e) True (first_payloads e False 0 w)),
       Run_read_header (w_next w)]"
    "set (w_sessions w') = insert (w_next w) (set (w_sessions w))" "w_next w' = Suc (w_next w)"
    "w_node_id w' = w_node_id w" "w_config w' = w_config w"
    by metis
  have "w_posted w' = w_posted w @ introduction e w (w_next w, random_uuid e (Suc (w_rng w)))"
    by (simp add: w'(4) introduction_def first_payloads_def)
  then show thesis using that w' by blast
qed

lemma run_dials:
  assumes "node_ok e w" and "dials_succeed e host port" and "fresh_uuids e (2 * k) w"
    and "w_posted w = replicate k (Run_connect host port) @ ts"
  shows "\<exists>w' txs. run_head e k w = Inr w' \<and> node_ok e w' \<and> length txs = k \<and>
    set (w_sessions w') = set (w_sessions w) \<union> {w_next w..<w_next w + k} \<and>
    w_posted w' = ts @ concat (map (introduction e w) (zip [w_next w..<w_next w + k] txs))"
  using assms
proof (induction k arbitrary: w ts)
  case 0
  then show ?case by simp
next
  case (Suc k)
  let ?v = "w\<lparr>w_posted := replicate k (Run_connect host port) @ ts\<rparr>"
  have v: "node_ok e ?v" "fresh_uuids e (2 * k + 2) ?v"
    using Suc.prems(1,3) by (simp_all add: node_ok_def container_wf_def fresh_uuids_def)
      (simp add: find_by_id_def)
  obtain w1 tx where w1: "state_connect e host port False 0 ?v = Inr (True, w1)" "node_ok e w1" "fresh_uuids e (2 * k) w1"
    "w_posted w1 = w_posted ?v @ introduction e ?v (w_next ?v, tx)"
    "set (w_sessions w1) = insert (w_next ?v) (set (w_sessions ?v))"
    "w_next w1 = Suc (w_next ?v)" "w_node_id w1 = w_node_id ?v" "w_config w1 = w_config ?v"
    by (rule dial_once [OF v(1) Suc.prems(2) v(2)])
  have intro: "introduction e w1 = introduction e w" "introduction e ?v = introduction e w"
    using w1(7,8) by (intro introduction_cong; simp)+
  have "w_posted w1 = replicate k (Run_connect host port) @ (ts @ introduction e w (w_next w, tx))"
    using w1(4) by (simp add: intro)
  from Suc.IH [OF w1(2) Suc.prems(2) w1(3) this] obtain w' txs where w': "run_head e k w1 = Inr w'" "node_ok e w'"
    "length txs = k" "set (w_sessions w') = set (w_sessions w1) \<union> {w_next w1..<w_next w1 + k}"
    "w_posted w' = (ts @ introduction e w (w_next w, tx)) @
       concat (map (introduction e w1) (zip [w_next w1..<w_next w1 + k] txs))"
    by (elim exE conjE)
  have "run_head e (Suc k) w = Inr w'"
    using Suc.prems(4) w1(1) w'(1) by (simp add: run_task_def)
  moreover have "set (w_sessions w') = set (w_sessions w) \<union> {w_next w..<w_next w + Suc k}"
  proof -
    have "w_next w1 = Suc (w_next w)" using w1(6) by simp
    then have "{w_next w..<w_next w + Suc k} = insert (w_next w) {w_next w1..<w_next w1 + k}" by auto
    then show ?thesis using w1(5) by (simp add: w'(4))
  qed
  moreover have "w_posted w' = ts @ concat (map (introduction e w) (zip [w_next w..<w_next w + Suc k] (tx # txs)))"
  proof -
    have "w_next w1 = Suc (w_next w)" using w1(6) by simp
    moreover have "[w_next w..<w_next w + Suc k] = w_next w # [Suc (w_next w)..<Suc (w_next w) + k]"
      by (simp add: upt_conv_Cons)
    ultimately show ?thesis by (simp add: w'(5) intro(1))
  qed
  ultimately show ?case
    using w'(2,3) by (intro exI [of _ w'] exI [of _ "tx # txs"]) simp
qed

section \<open>The connections of two nodes\<close>

text \<open>
  C18. The number of connections between two nodes: a node that gets, on a TCP session, an identify request
  that announces \<open>cpn\<close> connections and an address dials that address exactly \<open>cpn - 1\<close> times; when the dials
  succeed it ends with exactly that many new sessions, each of which first introduces the node with a
  request for 0 connections and then reads.  A node that gets such an introduction answers it and dials
  nothing, so the exchange ends with \<open>cpn\<close> connections.
\<close>

theorem connection_pool:
  fixes payload
  defines "k \<equiv> unat (identify_cpn payload) - 1"
  assumes "node_ok e w" and "w_posted w = []" and "get_type a w = tcp" and "20 < length payload"
    and "identify_port payload \<noteq> 0" and "dials_succeed e (identify_host payload) (identify_port payload)"
    and "fresh_uuids e (2 * k) w" and "identify_handler request builder tx payload a w = Inr (builder', w1)"
    and "get_type b v = tcp"
  shows "(\<exists>w' txs. w_posted w1 = replicate k (Run_connect (identify_host payload) (identify_port payload)) \<and>
      run_head e k w1 = Inr w' \<and> length txs = k \<and>
      set (w_sessions w') = set (w_sessions w) \<union> {w_next w..<w_next w + k} \<and>
      w_posted w' = concat (map (introduction e w) (zip [w_next w..<w_next w + k] txs))) \<and>
    (\<exists>v'. identify_handler request builder tx2 (drop 18 (identify_payload w 0 tx3)) b v =
       Inr (response_add_identify tx2 (w_node_id v) builder, v') \<and> w_posted v' = w_posted v)"
proof -
  obtain u where u: "identify_handler request builder tx payload a w = Inr (response_add_identify tx (w_node_id w) builder, u)"
    "w_heap u = (w_heap w)(a := (w_heap w a)\<lparr>s_node_id := get_uuid (take 16 payload),
       s_port := identify_port payload, s_host := identify_host payload\<rparr>)" "w_sessions u = w_sessions w"
    "w_posted u = replicate k (Run_connect (identify_host payload) (identify_port payload))"
    using identify_request_effect [OF assms(4,5), of builder tx] assms(3,6) by (auto simp: k_def)
  then have w1: "w1 = u" using assms(9) by simp
  have ok: "node_ok e u" and rest: "w_next u = w_next w" "w_rng u = w_rng w" "introduction e u = introduction e w"
  proof -
    have u': "u = post_connects (identify_cpn payload) (identify_host payload) (identify_port payload) (announced payload a w) \<or>
        u = announced payload a w"
      using u(1) assms(4,5) by (auto simp: identify_handler_eq split: if_splits)
    then show "node_ok e u"
      using assms(2) by (auto simp: node_ok_announced node_ok_post_connects)
    have "w_next u = w_next w \<and> w_rng u = w_rng w \<and> w_node_id u = w_node_id w \<and> w_config u = w_config w"
      using u' by (auto simp: post_connects_eq announced_def identified_def set_node_id_def set_port_def
          set_host_def update_session_def Let_def)
    then show "w_next u = w_next w" "w_rng u = w_rng w" "introduction e u = introduction e w"
      by (auto intro: introduction_cong)
  qed
  have "find_by_id u = find_by_id w"
    by (rule find_by_id_cong) (auto simp: u(2,3))
  then have "fresh_uuids e (2 * k) u"
    using assms(8) rest(2) by (simp add: fresh_uuids_def)
  from run_dials [OF ok assms(7) this, of "[]"] obtain w' txs where "run_head e k u = Inr w'" "length txs = k"
    "set (w_sessions w') = set (w_sessions u) \<union> {w_next u..<w_next u + k}"
    "w_posted w' = concat (map (introduction e u) (zip [w_next u..<w_next u + k] txs))"
    by (auto simp: u(4))
  moreover have "\<exists>v'. identify_handler request builder tx2 (drop 18 (identify_payload w 0 tx3)) b v =
      Inr (response_add_identify tx2 (w_node_id v) builder, v') \<and> w_posted v' = w_posted v"
  proof -
    let ?p = "drop 18 (identify_payload w 0 tx3)"
    have "?p = put_uuid (w_node_id w) @ put16 0 @ put16 (tcp_port (w_config w)) @ string_bytes ''127.0.0.1''"
      by (simp add: identify_payload_def)
    then have "length ?p > 20" "identify_cpn ?p = 0"
      by (simp_all add: identify_cpn_def)
    then show ?thesis
      using identify_request_effect [OF assms(10), of ?p builder tx2] by auto
  qed
  ultimately show ?thesis
    using u(4) by (simp add: w1 u(3) rest) blast
qed

theorem connection_pool_witness:
  "\<exists>w1 w'. identify_handler request as_response 5 (put_uuid 100 @ put16 3 @ put16 7000 @ string_bytes ''peer'') 0
       demo_world = Inr (response_add_identify 5 1 as_response, w1) \<and>
     run_head demo_env 2 w1 = Inr w' \<and> set (w_sessions w') = {0, 1, 2, 3, 4}"
proof -
  let ?p = "put_uuid 100 @ put16 3 @ put16 7000 @ string_bytes ''peer''"
  have p: "identify_cpn ?p = 3" "identify_port ?p = 7000" "identify_host ?p = ''peer''" "20 < length ?p"
    by (simp_all add: identify_cpn_def identify_port_def identify_host_def)
  have type: "get_type 0 demo_world = tcp" by (simp add: get_type_def)
  then obtain w1 where h: "identify_handler request as_response 5 ?p 0 demo_world =
      Inr (response_add_identify 5 1 as_response, w1)"
    using identify_request_effect [OF type p(4), of as_response 5] by auto
  have "dials_succeed demo_env (identify_host ?p) (identify_port ?p)"
    by (simp add: dials_succeed_def)
  moreover have "fresh_uuids demo_env (2 * (unat (identify_cpn ?p) - 1)) demo_world"
  proof -
    have "2 * (unat (identify_cpn ?p) - 1) = 4" by (simp add: p(1))
    moreover have "{1..<1 + 4} = {1, 2, 3, 4 :: nat}" by auto
    ultimately show ?thesis by (simp add: fresh_uuids_def inj_on_def find_by_id_def)
  qed
  ultimately show ?thesis
    using connection_pool [where ?tx2.0 = 0 and ?tx3.0 = 0, OF demo_node_ok _ type p(4) _ _ _ h type] p h
    by (auto simp: atLeastLessThan_nat_numeral insert_commute)
qed

end
