(* ===== verification/Node_Process.thy ===== *)
theory Node_Process
  imports Runtime_Termination
begin

text \<open>
  The life of a node process: \<^verbatim>\<open>node.cpp\<close> and \<^verbatim>\<open>main.cpp\<close> around the steps of \<open>Node_Runtime\<close>: construction,
  \<^verbatim>\<open>run\<close> with its worker threads and signal handler, and \<^verbatim>\<open>stop\<close>.
\<close>

section \<open>Construction, run and stop\<close>

text \<open>
  \<open>np_stopped\<close> is what \<^verbatim>\<open>io_context_.stopped()\<close> answers after a call of \<^verbatim>\<open>stop\<close>, \<open>np_threads\<close> the size of the
  thread pool, and \<open>np_signals\<close> whether the wait of the signal set is outstanding.
\<close>

record node_process =
  np_world :: world
  np_stopped :: bool
  np_threads :: nat
  np_signals :: bool

definition new_node :: "env \<Rightarrow> node_process" where
  "new_node e = \<lparr>np_world = new_state e, np_stopped = False, np_threads = 0, np_signals = False\<rparr>"

definition node_stop :: "node_process \<Rightarrow> node_process" where
  "node_stop n = n\<lparr>np_stopped := True\<rparr>"

text \<open>The destructor.\<close>

definition destroy_node :: "node_process \<Rightarrow> node_process" where
  "destroy_node n = node_stop n"

text \<open>The handler of SIGINT and SIGTERM.\<close>

definition on_signal :: "node_process \<Rightarrow> node_process" where
  "on_signal n = n\<lparr>np_signals := False, np_stopped := True\<rparr>"

text \<open>\<^verbatim>\<open>node::run\<close> up to the \<^verbatim>\<open>join\<close>: one thread for each round of the loop over the configured number.\<close>

definition start_node :: "16 word \<Rightarrow> 16 word \<Rightarrow> node_process \<Rightarrow> node_process" where
  "start_node tcp_bound websocket_bound n =
     (let w = node_run tcp_bound websocket_bound (np_world n)
      in n\<lparr>np_world := w, np_signals := True, np_threads := np_threads n + threads (get_configuration w)\<rparr>)"

text \<open>
  A thread that runs an \<^verbatim>\<open>io_context\<close> returns when that is stopped or has nothing left to do, as Boost.Asio documents.  \<^verbatim>\<open>run\<close> returns
  0 when all its threads have; until then it blocks.
\<close>

definition out_of_work :: "node_process \<Rightarrow> bool" where
  "out_of_work n \<longleftrightarrow> \<not> np_signals n \<and> w_posted (np_world n) = [] \<and> w_pending (np_world n) = []"

definition run_result :: "node_process \<Rightarrow> int option" where
  "run_result n = (if np_threads n = 0 \<or> np_stopped n \<or> out_of_work n then Some 0 else None)"

text \<open>\<^verbatim>\<open>main\<close>: the process that its call of \<^verbatim>\<open>run\<close> starts; its result is that of \<^verbatim>\<open>run\<close>.\<close>

definition main_process ::
    "env \<Rightarrow> nat option \<Rightarrow> 16 word option \<Rightarrow> 16 word option \<Rightarrow> 16 word option \<Rightarrow> 16 word \<Rightarrow> 16 word \<Rightarrow>
     node_process" where
  "main_process e opt_threads opt_port opt_websocket_port opt_cpn tcp_bound websocket_bound =
     (let n = new_node e;
          n1 = n\<lparr>np_world := node_parse_args opt_threads opt_port opt_websocket_port opt_cpn (np_world n)\<rparr>
      in start_node tcp_bound websocket_bound n1)"

section \<open>Steps of the process\<close>

text \<open>
  Handlers run only in a thread of a context that is not stopped, as Boost.Asio documents.  The calls of the public interface run in
  the thread of their caller, at any time.
\<close>

inductive process_step :: "env \<Rightarrow> node_process \<Rightarrow> node_process \<Rightarrow> bool" for e where
  task: "0 < np_threads n \<Longrightarrow> \<not> np_stopped n \<Longrightarrow> w_posted (np_world n) = before @ t # after \<Longrightarrow>
    next_on_strand before t \<Longrightarrow> run_task e t ((np_world n)\<lparr>w_posted := before @ after\<rparr>) = Inr w' \<Longrightarrow>
    process_step e n (n\<lparr>np_world := w'\<rparr>)"
| completion: "0 < np_threads n \<Longrightarrow> \<not> np_stopped n \<Longrightarrow> op \<in> set (w_pending (np_world n)) \<Longrightarrow>
    delivers op bytes \<Longrightarrow> complete_op e op error bytes (np_world n) = Inr w' \<Longrightarrow>
    process_step e n (n\<lparr>np_world := w'\<rparr>)"
| signal: "0 < np_threads n \<Longrightarrow> \<not> np_stopped n \<Longrightarrow> np_signals n \<Longrightarrow> process_step e n (on_signal n)"
| connect: "node_connect e host port (np_world n) = Inr (r, w') \<Longrightarrow> process_step e n (n\<lparr>np_world := w'\<rparr>)"
| disconnect: "node_disconnect e i (np_world n) = Inr w' \<Longrightarrow> process_step e n (n\<lparr>np_world := w'\<rparr>)"
| disconnect_all: "node_disconnect_all e (np_world n) = Inr w' \<Longrightarrow> process_step e n (n\<lparr>np_world := w'\<rparr>)"
| broadcast: "process_step e n (n\<lparr>np_world := broadcast_to_nodes m (np_world n)\<rparr>)"
| send: "process_step e n (n\<lparr>np_world := send_to_node e i m (np_world n)\<rparr>)"
| stop: "process_step e n (node_stop n)"

inductive reachable_process :: "env \<Rightarrow> nat option \<Rightarrow> node_process \<Rightarrow> bool" for e th where
  start: "reachable_process e th (main_process e th port ws cpn p q)"
| step: "reachable_process e th n \<Longrightarrow> process_step e n n' \<Longrightarrow> reachable_process e th n'"

inductive_cases process_stepE: "process_step e n n'"

text \<open>The node inside a process takes the steps of \<open>Node_Runtime\<close> only.\<close>

lemma process_step_world:
  assumes "process_step e n n'"
  shows "np_world n' = np_world n \<or> node_attempt e (np_world n) (Inr (np_world n'))"
  using assms
proof cases
  case (task before t "after" w')
  then show ?thesis using node_attempt.task [OF task(4,5), of e] by simp
next
  case (completion op bytes error w')
  then show ?thesis using node_attempt.completion [OF completion(4,5), of e error] by simp
next
  case (connect host port r w')
  then show ?thesis using node_attempt.connect [of e "np_world n" host port] by simp
next
  case (disconnect i w')
  then show ?thesis using node_attempt.disconnect [of e "np_world n" i] by simp
next
  case (disconnect_all w')
  then show ?thesis using node_attempt.disconnect_all [of e "np_world n"] by simp
qed (auto simp: on_signal_def node_stop_def intro: node_attempt.broadcast node_attempt.send)

lemma process_invariant:
  assumes "reachable_process e th n"
  shows "reachable e (np_world n)" and "np_threads n = (case th of None \<Rightarrow> 1 | Some k \<Rightarrow> k)"
    and "np_signals n \<or> np_stopped n"
proof -
  have "reachable e (np_world n) \<and> np_threads n = (case th of None \<Rightarrow> 1 | Some k \<Rightarrow> k) \<and> (np_signals n \<or> np_stopped n)"
    using assms
  proof induction
    case (start port ws cpn p q)
    have "threads (w_config (node_run p q (node_parse_args th port ws cpn (new_state e)))) =
        (case th of None \<Rightarrow> 1 | Some k \<Rightarrow> k)"
      by (simp add: node_run_def websocket_do_accept_def new_websocket_listener_def tcp_do_accept_def
          new_tcp_listener_def node_parse_args_def start_op_def Let_def)
    then show ?case
      using reachable.start [of e p q th port ws cpn]
      by (simp add: main_process_def start_node_def new_node_def Let_def)
  next
    case (step n n')
    have "reachable e (np_world n')"
      using process_step_world [OF step.hyps(2)] step.IH reachable.step by metis
    moreover have "np_threads n' = np_threads n" "np_signals n' \<or> np_stopped n'"
      using step.hyps(2) step.IH by (auto elim!: process_stepE simp: on_signal_def node_stop_def)
    ultimately show ?case using step.IH by simp
  qed
  then show "reachable e (np_world n)" "np_threads n = (case th of None \<Rightarrow> 1 | Some k \<Rightarrow> k)"
    "np_signals n \<or> np_stopped n"
    by blast+
qed

text \<open>And a process that runs takes all of them.\<close>

lemma attempt_process:
  assumes "reachable_process e th n" and "0 < np_threads n" and "\<not> np_stopped n"
    and "node_attempt e (np_world n) (Inr w')"
  shows "reachable_process e th (n\<lparr>np_world := w'\<rparr>)"
proof -
  have "process_step e n (n\<lparr>np_world := w'\<rparr>)"
    using assms(4)
  proof cases
    case (task before t "after")
    then show ?thesis using process_step.task assms(2,3) by metis
  next
    case (completion op bytes error)
    then show ?thesis using process_step.completion assms(2,3) by metis
  next
    case (connect host port)
    then obtain r where "node_connect e host port (np_world n) = Inr (r, w')"
      by (cases "node_connect e host port (np_world n)") auto
    then show ?thesis by (rule process_step.connect)
  next
    case (disconnect i)
    then show ?thesis using process_step.disconnect [of e i n w'] by simp
  next
    case disconnect_all
    then show ?thesis using process_step.disconnect_all [of e n w'] by simp
  qed (auto intro: process_step.broadcast process_step.send)
  then show ?thesis by (rule reachable_process.step [OF assms(1)])
qed

text \<open>
  A started node never runs out of work, so \<^verbatim>\<open>run\<close> blocks until the node is stopped, by \<^verbatim>\<open>stop\<close> or by a signal; only
  with no threads it returns at once.
\<close>

lemma run_returns:
  assumes "reachable_process e th n"
  shows "run_result n = (if th = Some 0 \<or> np_stopped n then Some 0 else None)"
proof -
  note inv = process_invariant [OF assms]
  have "\<not> out_of_work n \<or> np_stopped n"
    using inv(3) by (auto simp: out_of_work_def)
  moreover have "np_threads n = 0 \<longleftrightarrow> th = Some 0"
    using inv(2) by (cases th) auto
  ultimately show ?thesis by (auto simp: run_result_def)
qed

end
