(* ===== verification/Cluster_Directory.thy ===== *)
theory Cluster_Directory
  imports Runtime_Invariant
begin

text \<open>
  What the container of sessions is for: a directory that says, for each session id, over which transport
  the session runs and to which node it belongs.  What every operation of the state and every handler makes of
  it, as a function of the directory alone.
\<close>

section \<open>The abstract directory\<close>

type_synonym directory = "uuid \<Rightarrow> (session_type \<times> uuid) option"

text \<open>An entry is made only under an id that is free; a dialled or accepted TCP session is of no known node.\<close>

definition enter :: "uuid \<Rightarrow> session_type \<times> uuid \<Rightarrow> directory \<Rightarrow> directory" where
  "enter i x d = (if d i = None then d(i \<mapsto> x) else d)"

definition dials :: "nat \<Rightarrow> directory \<Rightarrow> directory \<Rightarrow> bool" where
  "dials n d d' \<longleftrightarrow> (\<exists>K. finite K \<and> card K \<le> n \<and> (\<forall>i \<in> K. d i = None) \<and>
     d' = (\<lambda>i. if i \<in> K then Some (tcp, nil_uuid) else d i))"

lemma dials_refl: "dials n d d"
  unfolding dials_def by (intro exI [of _ "{}"]) simp

lemma dials_enter: "dials (Suc 0) d (enter i (tcp, nil_uuid) d)"
proof (cases "d i")
  case None
  then show ?thesis
    unfolding dials_def enter_def by (intro exI [of _ "{i}"]) (auto simp: fun_eq_iff)
qed (simp add: enter_def dials_refl)

lemma dials_trans:
  assumes "dials m c d" and "dials n d f"
  shows "dials (m + n) c f"
proof -
  obtain K where K: "finite K" "card K \<le> m" "\<forall>i \<in> K. c i = None" "d = (\<lambda>i. if i \<in> K then Some (tcp, nil_uuid) else c i)"
    using assms(1) by (auto simp: dials_def)
  obtain L where L: "finite L" "card L \<le> n" "\<forall>i \<in> L. d i = None" "f = (\<lambda>i. if i \<in> L then Some (tcp, nil_uuid) else d i)"
    using assms(2) by (auto simp: dials_def)
  have "card (K \<union> L) \<le> m + n"
    using K(2) L(2) card_Un_le [of K L] by linarith
  moreover have "\<forall>i \<in> K \<union> L. c i = None"
    using K(3) L(3) by (fastforce simp: K(4) split: if_splits)
  moreover have "f = (\<lambda>i. if i \<in> K \<union> L then Some (tcp, nil_uuid) else c i)"
    by (auto simp: K(4) L(4) fun_eq_iff)
  ultimately show ?thesis
    unfolding dials_def using K(1) L(1) by (intro exI [of _ "K \<union> L"]) simp
qed

lemma dials_mono: "dials m d d' \<Longrightarrow> m \<le> n \<Longrightarrow> dials n d d'"
  unfolding dials_def using le_trans by blast

section \<open>The directory of a node\<close>

definition directory :: "world \<Rightarrow> directory" where
  "directory w i = map_option (\<lambda>a. (s_type (w_heap w a), s_node_id (w_heap w a))) (find_by_id w i)"

lemma directory_cong:
  assumes "w_sessions v = w_sessions w"
    and "\<And>a. a \<in> set (w_sessions w) \<Longrightarrow> s_id (w_heap v a) = s_id (w_heap w a) \<and>
      s_type (w_heap v a) = s_type (w_heap w a) \<and> s_node_id (w_heap v a) = s_node_id (w_heap w a)"
  shows "directory v = directory w"
proof
  fix i
  have f: "find_by_id v = find_by_id w"
    using assms by (intro find_by_id_cong) auto
  have "a \<in> set (w_sessions w)" if "find_by_id w i = Some a" for a
    using that by (auto simp: find_by_id_def find_Some_iff)
  then show "directory v i = directory w i"
    using assms(2) by (auto simp: directory_def f intro!: option.map_cong)
qed

lemma directory_update_session:
  assumes "\<And>s. s_id (f s) = s_id s \<and> s_type (f s) = s_type s \<and> s_node_id (f s) = s_node_id s"
  shows "directory (update_session a f w) = directory w"
  using assms by (intro directory_cong) (auto simp: update_session_def)

lemma directory_setters [simp]:
  "directory (set_port a p w) = directory w" "directory (set_host a h w) = directory w"
  by (simp_all add: set_port_def set_host_def directory_update_session)

lemma directory_add:
  assumes "container_law e" and "container_wf w" and "get_id a w = i"
  shows "directory (snd (add_session e a w)) =
    (if find_by_id w i = None
     then (directory w)(i \<mapsto> (s_type (w_heap w a), s_node_id (w_heap w a))) else directory w)"
proof -
  have "w_heap (snd (add_session e a w)) = w_heap w"
    by (simp add: add_session_def container_insert_def split: option.split)
  moreover have "find_by_id (snd (add_session e a w)) k =
      (if k = i \<and> find_by_id w k = None then Some a else find_by_id w k)" for k
    using reg.lookup_ins [of e w a k] assms by (simp add: add_session_def)
  ultimately show ?thesis by (auto simp: directory_def fun_eq_iff)
qed

lemma directory_None [simp]: "directory w i = None \<longleftrightarrow> find_by_id w i = None"
  by (simp add: directory_def)

section \<open>The operations of the state\<close>

text \<open>Dialling: the entry of the session that is made when the connection is.\<close>

definition dialled :: "env \<Rightarrow> string \<Rightarrow> 16 word \<Rightarrow> world \<Rightarrow> directory \<Rightarrow> directory" where
  "dialled e host port w d =
     (if resolve_ok e (w_dials w) host port \<and> dial_ok e (w_dials w) host port
      then enter (random_uuid e (w_rng w)) (tcp, nil_uuid) d else d)"

lemma dials_dialled: "dials (Suc 0) d (dialled e host port w d)"
  by (simp add: dialled_def dials_enter dials_refl)

lemma directory_connect:
  assumes "node_ok e w" and "state_connect e host port d cpn w = Inr (r, w')"
  shows "directory w' = dialled e host port w (directory w)"
    and "a < w_next w \<Longrightarrow> w_heap w' a = w_heap w a"
    and "a < w_next w \<Longrightarrow> find_by_id w' i = Some a \<longleftrightarrow> find_by_id w i = Some a"
proof -
  have ok: "container_law e" "container_wf w" "set (w_sessions w) \<subseteq> {..<w_next w}"
    using assms(1) by (simp_all add: node_ok_def)
  let ?a = "w_next w" and ?s = "dialled_session e w"
  note eff = state_connect_effect [OF ok(1,2) refl refl ok(3), of host port d cpn]
  have id: "s_id ?s = random_uuid e (w_rng w)" by (simp add: dialled_session_def)
  have fresh: "find_by_id w k \<noteq> Some ?a" for k
    using ok(2,3) by (auto simp: find_by_id_eq_Some)
  let ?up = "resolve_ok e (w_dials w) host port \<and> dial_ok e (w_dials w) host port"
  have "directory w' = dialled e host port w (directory w) \<and> (a < ?a \<longrightarrow> w_heap w' a = w_heap w a) \<and>
      (a < ?a \<longrightarrow> find_by_id w' i = Some a \<longleftrightarrow> find_by_id w i = Some a)"
  proof (cases "?up \<and> find_by_id w (s_id ?s) = None")
    case False
    let ?failed = "w\<lparr>w_dials := Suc (w_dials w)\<rparr>"
    let ?refused = "?failed\<lparr>w_rng := Suc (w_rng w), w_heap := (w_heap w)(?a := ?s), w_next := Suc ?a\<rparr>"
    have "state_connect e host port d cpn w = Inr (False, ?failed) \<or>
        state_connect e host port d cpn w = Inr (False, ?refused)"
      using eff False by (simp only: if_True if_False simp_thms de_Morgan_conj split: if_splits)
    then have "w' = ?failed \<or> w' = ?refused"
      using assms(2) by (elim disjE) simp_all
    then have same: "w_sessions w' = w_sessions w" "\<And>b. b < ?a \<Longrightarrow> w_heap w' b = w_heap w b"
      by (elim disjE; simp)+
    have "directory w' = directory w"
      using ok(3) same by (intro directory_cong) auto
    moreover have "find_by_id w' = find_by_id w"
      using ok(3) same by (intro find_by_id_cong) auto
    moreover have "dialled e host port w (directory w) = directory w"
      using False id by (auto simp: dialled_def enter_def)
    ultimately show ?thesis using same(2) by simp
  next
    case True
    then have w': "find_by_id w' = (find_by_id w)(s_id ?s \<mapsto> ?a)" "w_heap w' = (w_heap w)(?a := ?s)"
      using eff assms(2) by auto
    have "directory w' = (directory w)(s_id ?s \<mapsto> (tcp, nil_uuid))"
      using fresh by (auto simp: directory_def w' dialled_session_def fun_eq_iff intro!: option.map_cong)
    then show ?thesis using True id w' by (auto simp: dialled_def enter_def)
  qed
  then show "directory w' = dialled e host port w (directory w)"
    "a < w_next w \<Longrightarrow> w_heap w' a = w_heap w a"
    "a < w_next w \<Longrightarrow> find_by_id w' i = Some a \<longleftrightarrow> find_by_id w i = Some a"
    by blast+
qed

lemma directory_removed:
  assumes "container_wf w" and "remove_session e i w = Inr (b, w')"
  shows "directory w' = (directory w)(i := None)"
  using assms(1)
proof (cases rule: remove_session_cases [of w i e])
  case absent
  then show ?thesis using assms(2) by (simp add: fun_upd_idem)
next
  case (present a v)
  have "find_by_id v = find_by_id (container_erase a w)"
    using present(3) removal_frame_heap(1) [OF present(4)]
    by (intro find_by_id_cong) (simp_all add: container_erase_def)
  moreover have "find_by_id (container_erase a w) = (find_by_id w)(i := None)"
    using find_by_id_erase [OF assms(1) present(1)] .
  ultimately have "directory v = (directory w)(i := None)"
    using removal_frame_heap(2,3) [OF present(4)] by (auto simp: directory_def fun_eq_iff)
  then show ?thesis using present(2) assms(2) by simp
qed

lemma directory_removes:
  assumes "node_ok e w" and "remove_sessions e ids w = Inr w'"
  shows "directory w' = (directory w) |` (- set ids)"
  using assms
proof (induction ids arbitrary: w)
  case Nil
  then show ?case by (simp add: restrict_map_def fun_eq_iff)
next
  case (Cons i ids)
  obtain b v where v: "remove_session e i w = Inr (b, v)" "node_ok e v"
    using remove_session_evolves [OF Cons.prems(1)] by blast
  have "directory v = (directory w)(i := None)"
    using directory_removed [OF _ v(1)] Cons.prems(1) by (simp add: node_ok_def)
  moreover have "directory w' = (directory v) |` (- set ids)"
    using Cons.IH [OF v(2)] Cons.prems(2) v(1) by simp
  ultimately show ?case by (auto simp: restrict_map_def fun_eq_iff)
qed

lemma directory_removes_all:
  assumes "node_ok e w" and "disconnect_all e w = Inr w'"
  shows "directory w' = Map.empty"
proof -
  have "i \<in> set (map (\<lambda>a. get_id a w) (w_sessions w))" if "directory w i \<noteq> None" for i
  proof -
    obtain a where "find_by_id w i = Some a"
      using \<open>directory w i \<noteq> None\<close> by auto
    then have "a \<in> set (w_sessions w)" "get_id a w = i"
      using assms(1) by (simp_all add: node_ok_def find_by_id_eq_Some get_id_def)
    then show ?thesis by auto
  qed
  moreover have "directory w' = (directory w) |` (- set (map (\<lambda>a. get_id a w) (w_sessions w)))"
    using directory_removes [OF assms(1)] assms(2) by (simp add: disconnect_all_def)
  ultimately show ?thesis by (metis (no_types, lifting) ComplD ext restrict_map_def)
qed

lemma directory_drop:
  assumes "node_ok e w" and "drop_session e a w = Inr w'"
  shows "directory w' = (directory w)(get_id a w := None)"
proof -
  obtain b v where "remove_session e (get_id a w) w = Inr (b, v)"
    using remove_session_evolves [OF assms(1)] by blast
  then show ?thesis
    using directory_removed [of w e "get_id a w" b v] assms by (simp add: drop_session_def node_ok_def)
qed

section \<open>The operation handlers\<close>

definition registered :: "addr \<Rightarrow> world \<Rightarrow> bool" where
  "registered a w \<longleftrightarrow> find_by_id w (get_id a w) = Some a"

lemma directory_identified:
  assumes "container_wf w" and "get_type a w = tcp"
  shows "directory (identified payload a w) =
    (if registered a w then (directory w)(get_id a w \<mapsto> (tcp, get_uuid (take 16 payload))) else directory w)"
    and "find_by_id (identified payload a w) = find_by_id w"
proof -
  let ?i = "s_id (w_heap w a)" and ?n = "get_uuid (take 16 payload)"
  show f: "find_by_id (identified payload a w) = find_by_id w"
    by (intro find_by_id_cong) (auto simp: identified_def set_node_id_def update_session_def)
  show "directory (identified payload a w) =
    (if registered a w then (directory w)(get_id a w \<mapsto> (tcp, ?n)) else directory w)"
  proof (cases "registered a w")
    case True
    then have "find_by_id w ?i = Some a" by (simp add: registered_def get_id_def)
    moreover have "w_heap (identified payload a w) = (w_heap w)(a := (w_heap w a)\<lparr>s_node_id := ?n\<rparr>)"
      by (simp add: identified_def set_node_id_def update_session_def)
    moreover have "find_by_id w k \<noteq> Some a" if "k \<noteq> ?i" for k
      using that assms(1) by (simp add: find_by_id_eq_Some)
    ultimately have "directory (identified payload a w) k = ((directory w)(?i \<mapsto> (tcp, ?n))) k" for k
      using assms(2) by (cases "find_by_id w k") (auto simp: directory_def get_type_def f)
    then show ?thesis using True by (auto simp: get_id_def)
  next
    case False
    then have "a \<notin> set (w_sessions w)"
      using assms(1) by (auto simp: find_by_id_eq_Some registered_def get_id_def)
    then have "directory (identified payload a w) = directory w"
      by (intro directory_cong) (auto simp: identified_def set_node_id_def update_session_def)
    then show ?thesis using False by simp
  qed
qed

lemma directory_announced: "directory (announced payload a w) = directory (identified payload a w)"
  by (simp add: announced_def Let_def)

lemma directory_post_connects: "directory (post_connects cpn host port w) = directory w"
  by (intro directory_cong) (simp_all add: post_connects_eq)

lemma directory_joined:
  assumes "node_ok e w"
  shows "directory (joined e i a w) =
    enter i (websocket, get_node_id a w) (directory w)"
proof -
  have ok: "container_law e" "container_wf w" "set (w_sessions w) \<subseteq> {..<w_next w}"
    using assms by (simp_all add: node_ok_def)
  let ?v = "with_stand_in i a w"
  have v: "find_by_id ?v = find_by_id w" "container_wf ?v" "get_id (w_next w) ?v = i"
    using with_stand_in_same [OF ok(3)] ok(2) by simp_all
  have same: "directory ?v = directory w"
    using ok(3) by (intro directory_cong) (auto simp: with_stand_in_def)
  have "w_heap ?v (w_next w) = stand_in i (get_node_id a w)"
    by (simp add: with_stand_in_def)
  then show ?thesis
    using directory_add [OF ok(1) v(2,3)] by (simp add: joined_def same v(1) stand_in_def enter_def)
qed

lemma directory_left:
  assumes "node_ok e w"
  shows "directory (left_by i w) = (directory w)(i := None)"
proof -
  have "w_heap (left_by i w) = w_heap w"
    by (simp add: left_by_def container_erase_def split: option.split)
  then show ?thesis
    using left_registry(1) [OF assms, of i] by (auto simp: directory_def fun_eq_iff)
qed

section \<open>The running node\<close>

text \<open>What leaves the container and the identities of sessions alone leaves the directory alone.\<close>

lemma directory_start_op [simp]: "directory (start_op op w) = directory w"
  by (intro directory_cong) simp_all

lemma directory_finish_op [simp]: "directory (finish_op op w) = directory w"
  by (intro directory_cong) simp_all

lemma directory_posted [simp]: "directory (w\<lparr>w_posted := ts\<rparr>) = directory w"
  by (intro directory_cong) simp_all

lemma directory_session_send [simp]: "directory (session_send a m w) = directory w"
  by (intro directory_cong) (simp_all add: session_send_eq)

lemma directory_session_start [simp]: "directory (session_start a w) = directory w"
  by (intro directory_cong) (simp_all add: session_start_eq split: session_type.split)

lemma directory_broadcast [simp]: "directory (broadcast_to_nodes m w) = directory w"
  by (intro directory_cong) (simp_all add: broadcast_eq)

lemma directory_send_to_node [simp]: "directory (send_to_node e n m w) = directory w"
  by (intro directory_cong) (simp_all add: send_to_node_def session_send_eq Let_def)

lemma directory_on_send [simp]:
  "directory (tcp_on_send a m w) = directory w" "directory (websocket_on_send a m w) = directory w"
  by (simp_all add: tcp_on_send_def websocket_on_send_def Let_def directory_update_session)

lemma directory_accepted:
  assumes "node_ok e w"
  shows "directory (tcp_on_accepted e error w) =
      (if error then directory w else enter (random_uuid e (w_rng w)) (tcp, nil_uuid) (directory w))"
    and "directory (websocket_on_accepted e error w) =
      (if error then directory w else enter (random_uuid e (w_rng w)) (websocket, w_node_id w) (directory w))"
proof -
  have ok: "container_law e" "container_wf w" "set (w_sessions w) \<subseteq> {..<w_next w}"
    using assms by (simp_all add: node_ok_def)
  let ?new = "\<lambda>s. w\<lparr>w_rng := Suc (w_rng w), w_heap := (w_heap w)(w_next w := s), w_next := Suc (w_next w)\<rparr>"
  have added: "directory (snd (add_session e (w_next w) (?new s))) = enter (s_id s) (s_type s, s_node_id s) (directory w)" for s
  proof -
    have "find_by_id (?new s) = find_by_id w" "container_wf (?new s) = container_wf w"
      "directory (?new s) = directory w"
      using ok(3) by (auto intro!: find_by_id_cong container_wf_cong directory_cong)
    moreover have "get_id (w_next w) (?new s) = s_id s"
      by (simp add: get_id_def)
    ultimately show ?thesis
      using directory_add [OF ok(1), of "?new s" "w_next w"] ok(2) by (simp add: enter_def)
  qed
  show "directory (tcp_on_accepted e error w) =
      (if error then directory w else enter (random_uuid e (w_rng w)) (tcp, nil_uuid) (directory w))"
  proof (cases error)
    case False
    then show ?thesis
      by (simp only: tcp_on_accepted_eq directory_start_op directory_session_start added)
        (simp add: dialled_session_def)
  qed (simp add: tcp_on_accepted_def tcp_do_accept_def)
  show "directory (websocket_on_accepted e error w) =
      (if error then directory w else enter (random_uuid e (w_rng w)) (websocket, w_node_id w) (directory w))"
  proof (cases error)
    case False
    then show ?thesis
      by (simp only: websocket_on_accepted_eq directory_start_op directory_session_start added)
        (simp add: local_websocket_def)
  qed (simp add: websocket_on_accepted_def websocket_do_accept_def)
qed

end
