(* ===== verification/Stream_Framing.thy ===== *)
theory Stream_Framing
  imports Cluster_Directory Clients
begin

text \<open>
  What a node writes to its TCP peers: empty messages and whole frames, nothing else, as long as its
  callers hand over the same.  The operation handlers provide the interface of the table a third time,
  now with the framing of what they post in the relation.
\<close>

section \<open>Framed messages\<close>

text \<open>The empty message is the answer to a frame of responses; writing it writes nothing.\<close>

definition sendable :: "byte list \<Rightarrow> bool" where
  "sendable m \<longleftrightarrow> m = [] \<or> is_frame m"

fun framed_task :: "(addr \<Rightarrow> session) \<Rightarrow> task \<Rightarrow> bool" where
  "framed_task h (Run_on_send a m) \<longleftrightarrow> (s_type (h a) = tcp \<longrightarrow> sendable m)"
| "framed_task h _ \<longleftrightarrow> True"

definition framed :: "world \<Rightarrow> bool" where
  "framed w \<longleftrightarrow> list_all (framed_task (w_heap w)) (w_posted w) \<and>
     (\<forall>a < w_next w. s_type (w_heap w a) = tcp \<longrightarrow> list_all sendable (get_queue a w))"

lemma sendable_simps [simp]: "sendable []" "is_frame m \<Longrightarrow> sendable m"
  by (simp_all add: sendable_def)

lemma sendable_get_data:
  assumes "get_data crc b True = Inr m"
  shows "sendable m"
  using assms get_data_is_frame [of b crc m] by (cases "buffers b = []") (auto simp: get_data_empty)

lemma sendable_frame_bytes:
  assumes "length ms \<le> 2" and "payload_sum ms \<le> 1000" and "ms \<noteq> []"
  shows "sendable (frame_bytes crc True ms)"
proof -
  have "get_data crc (as_request\<lparr>buffers := ms\<rparr>) True = Inr (frame_bytes crc True ms)"
    using assms by (subst get_data_frame_bytes) (simp_all add: frame_fits_small)
  then show ?thesis by (rule sendable_get_data)
qed

lemma framed_task_cong:
  assumes "\<And>a. strand_of t = Some a \<Longrightarrow> s_type (h' a) = s_type (h a)"
  shows "framed_task h' t \<longleftrightarrow> framed_task h t"
  using assms by (cases t) auto

lemma framed_task_sends:
  "sendable m \<Longrightarrow> list_all (framed_task h) (map (\<lambda>b. Run_on_send b m) bs)"
  by (induction bs) simp_all

section \<open>What an operation posts\<close>

text \<open>The state evolves, and what is posted on the way is framed.\<close>

definition emits :: "world \<Rightarrow> world \<Rightarrow> bool" where
  "emits w w' \<longleftrightarrow> evolves w w' \<and>
     (\<exists>ts. w_posted w' = w_posted w @ ts \<and> list_all (framed_task (w_heap w')) ts)"

lemma emits_quiet: "evolves w w' \<Longrightarrow> w_posted w' = w_posted w \<Longrightarrow> emits w w'"
  by (auto simp: emits_def)

lemma emits_refl [simp]: "emits w w"
  by (simp add: emits_quiet)

lemma emitsI:
  "evolves w w' \<Longrightarrow> w_posted w' = w_posted w @ ts \<Longrightarrow> list_all (framed_task (w_heap w')) ts \<Longrightarrow> emits w w'"
  by (auto simp: emits_def)

lemma emits_evolves: "emits w w' \<Longrightarrow> evolves w w'"
  by (simp add: emits_def)

lemma emits_trans:
  assumes "emits u v" and "emits v w"
  shows "emits u w"
proof -
  obtain ss ts where ss: "w_posted v = w_posted u @ ss" "list_all (framed_task (w_heap v)) ss"
    and ts: "w_posted w = w_posted v @ ts" "list_all (framed_task (w_heap w)) ts"
    using assms unfolding emits_def by blast
  obtain ss' where "w_posted v = w_posted u @ ss'" "strands_below (w_next v) ss'"
    using assms(1) unfolding emits_def evolves_def by blast
  then have "strands_below (w_next v) ss" using ss(1) by simp
  then have "framed_task (w_heap w) t \<longleftrightarrow> framed_task (w_heap v) t" if "t \<in> set ss" for t
    using that assms(2)
    by (intro framed_task_cong) (auto simp: strands_below_def emits_def evolves_def same_core_def)
  then have "list_all (framed_task (w_heap w)) (ss @ ts)"
    using ss(2) ts(2) by (auto simp: list_all_iff)
  moreover have "w_posted w = w_posted u @ (ss @ ts)" using ss(1) ts(1) by simp
  ultimately show ?thesis
    using evolves_trans [OF emits_evolves emits_evolves, OF assms] by (intro emitsI)
qed

lemma emits_send: "a < w_next w \<Longrightarrow> (s_type (w_heap w a) = tcp \<Longrightarrow> sendable m) \<Longrightarrow> emits w (session_send a m w)"
  by (rule emitsI [OF evolves_session_send]) (auto simp: session_send_eq)

lemma emits_broadcast: "node_ok e w \<Longrightarrow> sendable m \<Longrightarrow> emits w (broadcast_to_nodes m w)"
  by (rule emitsI [OF evolves_broadcast _ framed_task_sends]) (simp_all add: node_ok_def broadcast_eq)

lemma emits_send_to_node:
  assumes "node_ok e w" and "index_law e" and "sendable m"
  shows "emits w (send_to_node e n m w)"
  using send_to_node_evolves(1) [OF assms(1,2), of n m] assms(3)
  by (cases "node_type_range e (w_sessions w) (w_filed w) (w_heap w) n tcp = []")
    (auto simp: send_to_node_def session_send_eq Let_def intro: emitsI)

lemma emits_connect:
  assumes "node_ok e w" and "state_connect e host port d cpn w = Inr (r, w')"
  shows "emits w w'"
proof -
  have ok: "container_law e" "container_wf w" "set (w_sessions w) \<subseteq> {..<w_next w}"
    using assms(1) by (simp_all add: node_ok_def)
  have ev: "evolves w w'"
    using state_connect_evolves [OF assms(1), of host port d cpn] assms(2) by auto
  let ?a = "w_next w" and ?f = "frame_bytes (crc_ccitt e) True (first_payloads e d cpn w)"
  have "w_posted w' = w_posted w \<or> w_posted w' = w_posted w @ [Run_on_send ?a ?f, Run_read_header ?a]"
    using state_connect_effect [OF ok(1,2) refl refl ok(3), of host port d cpn] assms(2)
    by (auto split: if_splits)
  moreover have "sendable ?f"
    by (rule sendable_frame_bytes) (auto simp: first_payloads_def discovery_request_payload_def)
  ultimately show ?thesis
    using ev by (auto intro: emits_quiet emitsI)
qed

lemma emits_remove:
  assumes "node_ok e w" and "remove_session e i w = Inr (b, w')"
  shows "emits w w'"
proof -
  have ev: "evolves w w'"
    using remove_session_evolves [OF assms(1), of i] assms(2) by auto
  have f: "sendable (frame_bytes crc True [leave_payload j tx])" for crc j tx
    by (rule sendable_frame_bytes) (simp_all add: leave_payload_def)
  show ?thesis
  proof (cases "find_by_id w i")
    case None
    then show ?thesis using assms(2) by (simp add: remove_session_def)
  next
    case (Some a)
    then have "w_posted w' = w_posted w \<or> w_posted w' = w_posted w @ leave_tasks e a (container_erase a w)"
      using assms(2) by (auto simp: remove_session_def session_disconnect_eq container_erase_def split: session_type.splits)
    then show ?thesis
      using ev by (auto simp: leave_tasks_def intro: emits_quiet emitsI framed_task_sends f)
  qed
qed

lemma emits_removes:
  "node_ok e w \<Longrightarrow> remove_sessions e ids w = Inr w' \<Longrightarrow> emits w w'"
proof (induction ids arbitrary: w)
  case (Cons i ids)
  obtain b v where v: "remove_session e i w = Inr (b, v)" "node_ok e v"
    using remove_session_evolves [OF Cons.prems(1)] by blast
  then show ?case
    using Cons.IH [OF v(2)] Cons.prems emits_remove [OF Cons.prems(1) v(1)] by (auto intro: emits_trans)
qed simp

lemma emits_drop:
  assumes "node_ok e w" and "drop_session e a w = Inr w'"
  shows "emits w w'"
proof -
  obtain b v where v: "remove_session e (get_id a w) w = Inr (b, v)"
    using remove_session_evolves [OF assms(1)] by blast
  then show ?thesis
    using emits_remove [OF assms(1) v] assms(2) by (simp add: drop_session_def)
qed

lemma emits_accepted:
  assumes "node_ok e w"
  shows "\<exists>v. tcp_on_accepted e error w = start_op Tcp_listen v \<and> emits w v"
    and "\<exists>v. websocket_on_accepted e error w = start_op Ws_listen v \<and> emits w v"
proof -
  have started: "emits w (session_start (w_next w) (snd (add_session e (w_next w)
      (w\<lparr>w_rng := Suc (w_rng w), w_heap := (w_heap w)(w_next w := s), w_next := Suc (w_next w)\<rparr>))))"
    (is "emits w (session_start _ ?v)") if "s_queue s = []" for s
  proof (rule emitsI)
    show "evolves w (session_start (w_next w) ?v)"
      using new_session_evolves(2) [OF assms refl that refl prod.collapse [symmetric]] .
    show "w_posted (session_start (w_next w) ?v) = w_posted w @
        [case get_type (w_next w) ?v of tcp \<Rightarrow> Run_read_header (w_next w) | websocket \<Rightarrow> Run_ws_accept (w_next w)]"
      by (simp add: session_start_eq add_session_def container_insert_def split: session_type.split option.split)
  qed (simp split: session_type.split)
  show "\<exists>v. tcp_on_accepted e error w = start_op Tcp_listen v \<and> emits w v"
  proof (cases error)
    case True
    then show ?thesis by (intro exI [of _ w]) (simp add: tcp_on_accepted_def tcp_do_accept_def)
  next
    case False
    have "s_queue (dialled_session e w) = []" by (simp add: dialled_session_def)
    from started [OF this] False show ?thesis by (simp only: tcp_on_accepted_eq) blast
  qed
  show "\<exists>v. websocket_on_accepted e error w = start_op Ws_listen v \<and> emits w v"
  proof (cases error)
    case True
    then show ?thesis by (intro exI [of _ w]) (simp add: websocket_on_accepted_def websocket_do_accept_def)
  next
    case False
    have "s_queue (local_websocket e w) = []" by (simp add: local_websocket_def)
    from started [OF this] False show ?thesis by (simp only: websocket_on_accepted_eq) blast
  qed
qed

section \<open>The operation handlers\<close>

lemma emits_discovery_loop:
  assumes "node_ok e w" and "discovery_loop e payload k offset w = Inr w'"
  shows "emits w w'"
  using emits_refl emits_trans emits_connect assms by (rule discovery_loop_induct)

text \<open>An operation that evolves the state and posts only connections is quiet towards its peers.\<close>

lemma emits_connects:
  "evolves w w' \<Longrightarrow> w_posted w' = w_posted w @ replicate k (Run_connect h p) \<Longrightarrow> emits w w'"
  by (rule emitsI) (auto simp: list_all_iff)

lemma identify_posts:
  assumes "identify_handler type b tx payload a w = Inr (b', w')"
  shows "\<exists>k h p. w_posted w' = w_posted w @ replicate k (Run_connect h p)"
proof -
  have "w_posted (announced payload a w) = w_posted w" "w_posted (identified payload a w) = w_posted w"
    by (simp_all add: announced_def identified_def set_node_id_def set_port_def set_host_def
        update_session_def Let_def)
  then have "w_posted w' = w_posted w @ replicate 0 (Run_connect [] 0) \<or>
      (\<exists>k h p. w_posted w' = w_posted w @ replicate k (Run_connect h p))"
    using assms by (auto simp: identify_handler_eq post_connects_eq split: if_splits)
  then show ?thesis by blast
qed

lemma handler_emits:
  assumes "node_ok e w" and "a < w_next w"
    and "get_handlers e opcode type b tx payload a w = Inr (b', w')"
  shows "emits w w'"
proof -
  have ev: "evolves w w'"
    using table.answers [of e w a opcode type b tx payload] assms by auto
  have wf: "container_wf w" using assms(1) by (simp add: node_ok_def)
  have j: "w_posted (joined e i a w) = w_posted w" for i
    by (simp add: joined_def add_session_def container_insert_def with_stand_in_def split: option.split)
  have l: "w_posted (left_by i w) = w_posted w" for i
    by (simp add: left_by_def container_erase_def split: option.split)
  consider "w' = w" | "identify_handler type b tx payload a w = Inr (b', w')"
    | "discovery_handler e type b tx payload a w = Inr (b', w')"
    | "join_handler e type b tx payload a w = Inr (b', w')" | "leave_handler type b tx payload a w = Inr (b', w')"
    using assms(3) by (auto simp: get_handlers_def fun_upd_apply ping_handler_def whoami_handler_def
        non_implemented_handler_def split: if_splits)
  then show ?thesis
  proof cases
    case 2
    then show ?thesis using identify_posts emits_connects [OF ev] by blast
  next
    case 3
    then have "w' = w \<or> discovery_loop e payload (unat (get32 (take 4 payload))) 4 w = Inr w'"
      by (auto simp: discovery_handler_def chain_def split: if_splits sum.splits)
    then show ?thesis using emits_discovery_loop [OF assms(1)] by auto
  next
    case 4
    then have "w_posted w' = w_posted w"
      using j by (auto simp: join_handler_eq [OF assms(2)] split: if_splits)
    then show ?thesis using ev by (simp add: emits_quiet)
  next
    case 5
    then have "w_posted w' = w_posted w"
      using l by (auto simp: leave_handler_eq [OF wf] split: if_splits)
    then show ?thesis using ev by (simp add: emits_quiet)
  qed simp
qed

interpretation framing_table: handler_table "node_ok e" emits "get_handlers e" for e
proof unfold_locales
  show "emits w w" for w by simp
  show "emits u v \<Longrightarrow> emits v w \<Longrightarrow> emits u w" for u v w by (rule emits_trans)
  show "emits v w \<Longrightarrow> w_next v \<le> w_next w" for v w
    by (simp add: emits_def evolves_next)
  fix opcode type builder tx payload a w
  assume ok: "node_ok e w" "a < w_next w"
  obtain b' w' rs where h: "get_handlers e opcode type builder tx payload a w = Inr (b', w')"
    "buffers b' = buffers builder @ rs" "length rs \<le> 1" "list_all (response_to tx) rs"
    "type = response \<longrightarrow> rs = []" "node_ok e w'"
    using table.answers [OF ok, of opcode type builder tx payload] by blast
  then show "\<exists>builder' w' rs. get_handlers e opcode type builder tx payload a w = Inr (builder', w') \<and>
      buffers builder' = buffers builder @ rs \<and> length rs \<le> 1 \<and> list_all (response_to tx) rs \<and>
      (type = response \<longrightarrow> rs = []) \<and> node_ok e w' \<and> emits w w'"
    using handler_emits [OF ok h(1)] by blast
qed

lemma kernel_emits:
  assumes "node_ok e w" and "a < w_next w" and "session_kernel_handle e f a w = Inr (r, w')"
  shows "node_ok e w' \<and> emits w w' \<and> (\<forall>m. r = Some m \<longrightarrow> s_type (w_heap w' a) = tcp \<longrightarrow> sendable m)"
proof (cases rule: session_kernel_handle_split [of e f a w])
  case dropped
  then show ?thesis using assms(1,3) by simp
next
  case (parsed frame ls offset)
  obtain b v where v: "handle_requests (get_handlers e) frame ls offset as_response a w = Inr (b, v)"
    "node_ok e v" "emits w v"
    using framing_table.handle_requests_total [OF assms(1,2) parsed(1,2), of ls as_response] by blast
  have "w' = v \<and> (r = None \<or> (\<exists>b m. r = Some m \<and> get_data (crc_ccitt e) b (get_type a v = tcp) = Inr m))"
    using parsed(4) assms(3) v(1) by (auto simp: chain_def split: option.splits sum.splits)
  then show ?thesis
    using v(2,3) sendable_get_data by (auto simp: get_type_def)
qed

lemma answer_emits:
  assumes "node_ok e w" and "a < w_next w" and "answer_and k e frame a w = Inr w'"
  shows "\<exists>v. w' = k v \<and> node_ok e v \<and> emits w v"
proof (cases "session_kernel_handle e (Some frame) a w")
  case (Inr p)
  obtain r v where p: "p = (r, v)" by (cases p)
  have v: "node_ok e v" "emits w v" "\<And>m. r = Some m \<Longrightarrow> s_type (w_heap v a) = tcp \<Longrightarrow> sendable m"
    using kernel_emits [OF assms(1,2) Inr [unfolded p]] by blast+
  have n: "a < w_next v"
    using evolves_next [OF emits_evolves [OF v(2)]] assms(2) by simp
  show ?thesis
  proof (cases r)
    case None
    then show ?thesis using Inr p assms(3) v by (auto simp: answer_and_def)
  next
    case (Some m)
    then have "emits w (session_send a m v)" "node_ok e (session_send a m v)"
      using emits_trans [OF v(2) emits_send [OF n]] v(1,3) by auto
    then show ?thesis using Inr p assms(3) Some by (auto simp: answer_and_def)
  qed
qed (use assms(3) in \<open>simp add: answer_and_def\<close>)

end
