(* ===== verification/Runtime_Actions.thy ===== *)
theory Runtime_Actions
  imports Stream_Framing
begin

text \<open>
  The attempts of the runtime by name, and what each of them does to one session: to the messages on their
  way to the wire, to the read loop, and to the framing of what is written.
\<close>

section \<open>What a node does next, by name\<close>

datatype call =
    Connect_to string "16 word"
  | Disconnect_from uuid
  | Disconnect_everyone
  | Broadcast "byte list"
  | Send_to uuid "byte list"

fun run_call :: "env \<Rightarrow> call \<Rightarrow> world \<Rightarrow> fault + world" where
  "run_call e (Connect_to host port) w = chain (node_connect e host port w) (\<lambda>(r, w'). Inr w')"
| "run_call e (Disconnect_from n) w = node_disconnect e n w"
| "run_call e Disconnect_everyone w = node_disconnect_all e w"
| "run_call e (Broadcast m) w = Inr (broadcast_to_nodes m w)"
| "run_call e (Send_to n m) w = Inr (send_to_node e n m w)"

datatype action = Ran task | Completed io_op bool "byte list" | Called call

inductive node_action :: "env \<Rightarrow> world \<Rightarrow> action \<Rightarrow> fault + world \<Rightarrow> bool" for e where
  ran: "w_posted w = before @ t # after \<Longrightarrow> next_on_strand before t \<Longrightarrow>
    node_action e w (Ran t) (run_task e t (w\<lparr>w_posted := before @ after\<rparr>))"
| completed: "op \<in> set (w_pending w) \<Longrightarrow> delivers op bytes \<Longrightarrow>
    node_action e w (Completed op error bytes) (complete_op e op error bytes w)"
| called: "node_action e w (Called c) (run_call e c w)"

text \<open>These are the attempts of the runtime, and nothing else.\<close>

lemma node_action_attempt: "(\<exists>x. node_action e w x r) \<longleftrightarrow> node_attempt e w r"
proof
  assume "\<exists>x. node_action e w x r"
  then obtain x where "node_action e w x r" ..
  then show "node_attempt e w r"
  proof cases
    case (called c)
    then show ?thesis by (cases c) (auto intro: node_attempt.intros)
  qed (auto intro: node_attempt.intros)
next
  assume "node_attempt e w r"
  then show "\<exists>x. node_action e w x r"
  proof cases
    case (connect host port)
    then show ?thesis using node_action.called [of e w "Connect_to host port"] by auto
  next
    case (disconnect n)
    then show ?thesis using node_action.called [of e w "Disconnect_from n"] by auto
  next
    case disconnect_all
    then show ?thesis using node_action.called [of e w Disconnect_everyone] by auto
  next
    case (broadcast m)
    then show ?thesis using node_action.called [of e w "Broadcast m"] by auto
  next
    case (send n m)
    then show ?thesis using node_action.called [of e w "Send_to n m"] by auto
  qed (auto intro: node_action.intros)
qed

text \<open>What callers hand over to be sent is framed.\<close>

fun speaks_frames :: "action \<Rightarrow> bool" where
  "speaks_frames (Called (Broadcast m)) \<longleftrightarrow> sendable m"
| "speaks_frames (Called (Send_to n m)) \<longleftrightarrow> sendable m"
| "speaks_frames x \<longleftrightarrow> True"

lemma action_runtime_ok:
  "node_action e w x (Inr w') \<Longrightarrow> runtime_ok e w \<Longrightarrow> index_law e \<Longrightarrow> runtime_ok e w'"
  using outcome_attempt [of e w "Inr w'"] node_action_attempt [of e w "Inr w'"] by auto

section \<open>The shape of an action\<close>

text \<open>
  Whatever a node does is one of these: it evolves with framed posts, possibly after a task or a completed
  operation is taken out and before an operation is started; or it works on the write queue of one session.
\<close>

lemma call_emits:
  assumes "node_ok e w" and "index_law e" and "run_call e c w = Inr w'" and "speaks_frames (Called c)"
  shows "emits w w'"
proof (cases c)
  case (Connect_to host port)
  then obtain r where "state_connect e host port True (connections_per_node (w_config w)) w = Inr (r, w')"
    using assms(3) by (auto simp: node_connect_def chain_def split: sum.splits)
  then show ?thesis by (rule emits_connect [OF assms(1)])
next
  case (Disconnect_from n)
  then show ?thesis
    using assms(3) by (auto simp: node_disconnect_def state_disconnect_def intro: emits_removes [OF assms(1)])
next
  case Disconnect_everyone
  then show ?thesis
    using assms(3) by (auto simp: node_disconnect_all_def disconnect_all_def intro: emits_removes [OF assms(1)])
next
  case (Broadcast m)
  then show ?thesis using assms emits_broadcast [of e w m] by simp
next
  case (Send_to n m)
  then show ?thesis using assms emits_send_to_node [of e w m n] by simp
qed

text \<open>The operations an action starts, other than writes.\<close>

fun started :: "action \<Rightarrow> io_op list" where
  "started (Ran (Run_read_header a)) = [Read_header a]"
| "started (Ran (Run_ws_accept a)) = [Ws_accept a]"
| "started (Completed (Read_header a) False bytes) = [Read_body a (unat (get32 bytes))]"
| "started (Completed (Read_body a n) False bytes) = [Read_header a]"
| "started (Completed (Ws_accept a) False bytes) = [Ws_read a]"
| "started (Completed (Ws_read a) False bytes) = [Ws_read a]"
| "started (Completed Tcp_listen error bytes) = [Tcp_listen]"
| "started (Completed Ws_listen error bytes) = [Ws_listen]"
| "started x = []"

text \<open>The state once the task or the completed operation is taken out.\<close>

definition taken :: "action \<Rightarrow> world \<Rightarrow> world \<Rightarrow> bool" where
  "taken x w u \<longleftrightarrow> w_next u = w_next w \<and> (\<forall>a. same_core (w_heap w a) (w_heap u a)) \<and>
     (case x of
        Ran t \<Rightarrow> w_pending u = w_pending w \<and>
          (\<exists>bs as. w_posted w = bs @ t # as \<and> next_on_strand bs t \<and> w_posted u = bs @ as)
      | Completed op error bytes \<Rightarrow> op \<in> set (w_pending w) \<and> w_pending u = remove1 op (w_pending w) \<and>
          w_posted u = w_posted w
      | Called c \<Rightarrow> w_pending u = w_pending w \<and> w_posted u = w_posted w)"

definition goes_on :: "action \<Rightarrow> world \<Rightarrow> world \<Rightarrow> bool" where
  "goes_on x u w' \<longleftrightarrow> (\<exists>v. emits u v \<and> w' = v\<lparr>w_pending := w_pending v @ started x\<rparr>)"

definition on_send :: "addr \<Rightarrow> byte list \<Rightarrow> world \<Rightarrow> world" where
  "on_send a m w = (case get_type a w of tcp \<Rightarrow> tcp_on_send a m w | websocket \<Rightarrow> websocket_on_send a m w)"

lemma goes_on_emits: "emits u w' \<Longrightarrow> started x = [] \<Longrightarrow> goes_on x u w'"
  by (auto simp: goes_on_def)

lemma goes_on_start: "emits u v \<Longrightarrow> started x = [op] \<Longrightarrow> goes_on x u (start_op op v)"
  by (auto simp: goes_on_def start_op_def)

lemma taken_finish:
  "op \<in> set (w_pending w) \<Longrightarrow> (\<And>s. same_core s (f s)) \<Longrightarrow>
   taken (Completed op error bytes) w (update_session a f (finish_op op w))"
  by (auto simp: taken_def update_session_def finish_op_def)

lemma update_session_id: "update_session a (\<lambda>s. s) w = w"
  by (simp add: update_session_def)

lemma node_ok_finish: "node_ok e (finish_op op w) \<longleftrightarrow> node_ok e w"
  by (simp add: node_ok_def finish_op_def container_wf_def)

text \<open>A completion that is not a successful write, operation by operation.\<close>

lemma completion_shape:
  assumes "op \<in> set (w_pending w)" and "runtime_ok e w" and "complete_op e op error bytes w = Inr w'"
    and "error \<or> (\<forall>a m. op \<noteq> Write a m \<and> op \<noteq> Ws_write a m)"
  shows "\<exists>u. taken (Completed op error bytes) w u \<and> goes_on (Completed op error bytes) u w'"
proof (cases "error \<and> op \<noteq> Tcp_listen \<and> op \<noteq> Ws_listen")
  let ?x = "Completed op error bytes" and ?w = "finish_op op w"
  have ok: "node_ok e ?w" using assms(2) by (simp add: runtime_ok_def node_ok_finish)
  have lt: "a < w_next ?w" if "op_session op = Some a" for a
    using runtime_ok_finish(3) [OF assms(2,1) that] by simp
  have out: "taken ?x w ?w"
    using taken_finish [OF assms(1), of "\<lambda>s. s"] by (simp add: update_session_id)
  have head: "taken ?x w (update_session a (\<lambda>s. s\<lparr>s_header_length := h\<rparr>) ?w)"
    "node_ok e (update_session a (\<lambda>s. s\<lparr>s_header_length := h\<rparr>) ?w)" for a h
    by (rule taken_finish [OF assms(1)] node_ok_update_session [OF _ ok], simp)+
  {
    case True
    then obtain a u where u: "u = ?w \<or> u = update_session a (\<lambda>s. s\<lparr>s_header_length := get32 bytes\<rparr>) ?w"
      "drop_session e a u = Inr w'"
      using assms(3) by (cases op) (auto simp: complete_op_def tcp_on_header_def tcp_on_body_def tcp_on_write_def
          websocket_on_accept_def websocket_on_read_def websocket_on_write_def Let_def)
    then have "node_ok e u" "taken ?x w u" using ok out head by auto
    moreover from this have "emits u w'" using emits_drop u(2) by blast
    moreover have "started ?x = []" using True by (cases op) auto
    ultimately show ?thesis using goes_on_emits by blast
  next
    case ok_or_listen: False
    show ?thesis
    proof (cases op)
      case (Read_header a)
      let ?v = "update_session a (\<lambda>s. s\<lparr>s_header_length := get32 bytes\<rparr>) ?w"
      have "s_header_length (w_heap ?v a) = get32 bytes"
        by (simp add: update_session_def)
      then have "w' = start_op (Read_body a (unat (get32 bytes))) ?v"
        using assms(3) ok_or_listen
        by (simp add: complete_op_def Read_header tcp_on_header_def tcp_read_body_def Let_def)
      moreover have "goes_on ?x ?v (start_op (Read_body a (unat (get32 bytes))) ?v)"
        using goes_on_start [OF emits_refl, of ?x] ok_or_listen Read_header by auto
      ultimately show ?thesis using head(1) [of a "get32 bytes"] by blast
    next
      case (Read_body a n)
      then have "answer_and (tcp_read_header a) e bytes a ?w = Inr w'"
        using assms(3) ok_or_listen by (simp add: complete_op_def on_body_answer_and)
      from answer_emits [OF ok lt this] obtain v where "w' = start_op (Read_header a) v" "emits ?w v"
        by (auto simp: Read_body tcp_read_header_def)
      then show ?thesis using out goes_on_start [of ?w v ?x] ok_or_listen Read_body by auto
    next
      case (Ws_read a)
      then have "answer_and (websocket_read_body a) e bytes a ?w = Inr w'"
        using assms(3) ok_or_listen by (simp add: complete_op_def on_body_answer_and)
      from answer_emits [OF ok lt this] obtain v where "w' = start_op (Ws_read a) v" "emits ?w v"
        by (auto simp: Ws_read websocket_read_body_def)
      then show ?thesis using out goes_on_start [of ?w v ?x] ok_or_listen Ws_read by auto
    next
      case (Ws_accept a)
      let ?v = "update_session a (\<lambda>s. s\<lparr>s_open := True\<rparr>) ?w"
      let ?f = "frame_bytes (crc_ccitt e) True [join_payload (get_id a ?v) (random_uuid e (w_rng ?v))]"
      let ?r = "?v\<lparr>w_rng := Suc (w_rng ?v)\<rparr>"
      have v: "taken ?x w ?v" "node_ok e ?v"
        by (rule taken_finish [OF assms(1)] node_ok_update_session [OF _ ok], simp)+
      then have "node_ok e ?r" by (simp add: node_ok_def container_wf_def)
      moreover have "sendable ?f"
        by (rule sendable_frame_bytes) (simp_all add: join_payload_def)
      ultimately have "emits ?r (broadcast_to_nodes ?f ?r)" by (rule emits_broadcast)
      moreover have "emits ?v ?r" by (rule emits_quiet) (auto simp: evolves_def)
      moreover have "w' = start_op (Ws_read a) (broadcast_to_nodes ?f ?r)"
        using assms(3) ok_or_listen by (simp add: complete_op_def Ws_accept websocket_on_accept_def draw_uuid_def
            websocket_read_body_def get_id_def Let_def)
      ultimately show ?thesis
        using v(1) goes_on_start [OF emits_trans, of ?v ?r _ ?x "Ws_read a"] ok_or_listen Ws_accept by auto
    next
      case Tcp_listen
      then have "w' = tcp_on_accepted e error ?w" using assms(3) by (simp add: complete_op_def)
      then show ?thesis
        using emits_accepted(1) [OF ok, of error] out goes_on_start [of ?w _ ?x Tcp_listen] Tcp_listen by auto
    next
      case Ws_listen
      then have "w' = websocket_on_accepted e error ?w" using assms(3) by (simp add: complete_op_def)
      then show ?thesis
        using emits_accepted(2) [OF ok, of error] out goes_on_start [of ?w _ ?x Ws_listen] Ws_listen by auto
    qed (use assms(4) ok_or_listen in auto)
  }
qed

lemma action_shape:
  assumes "node_action e w x (Inr w')" and "runtime_ok e w" and "index_law e" and "speaks_frames x"
  obtains (moves) u where "taken x w u" "goes_on x u w'"
      "\<And>a m. x \<noteq> Ran (Run_on_send a m)" "\<And>a m bytes. x \<noteq> Completed (Write a m) False bytes"
  | (sends) a m u where "x = Ran (Run_on_send a m)" "taken x w u" "w' = on_send a m u"
  | (writes) a m bytes where "x = Completed (Write a m) False bytes" "Write a m \<in> set (w_pending w)"
      "tcp_on_write e a False (finish_op (Write a m) w) = Inr w'"
  | (ws_writes) a m bytes where "x = Completed (Ws_write a m) False bytes" "Ws_write a m \<in> set (w_pending w)"
      "websocket_on_write e a False (finish_op (Ws_write a m) w) = Inr w'"
  using assms(1)
proof cases
  case (ran bs t as)
  let ?u = "w\<lparr>w_posted := bs @ as\<rparr>"
  have u: "taken x w ?u" using ran by (auto simp: taken_def)
  have ok: "node_ok e ?u"
    using runtime_ok_take_task(1) [OF assms(2) ran(3)] by (simp add: runtime_ok_def)
  show thesis
  proof (cases t)
    case (Run_on_send a m)
    then have "w' = on_send a m ?u"
      using ran(2) by (simp add: run_task_def on_send_def get_type_def split: session_type.splits)
    then show thesis using sends [of a m ?u] u ran(1) Run_on_send by simp
  next
    case (Run_connect host port)
    then obtain r where "state_connect e host port False 0 ?u = Inr (r, w')"
      using ran(2) by (auto simp: run_task_def chain_def split: sum.splits)
    then have "goes_on x ?u w'"
      using emits_connect [OF ok] by (intro goes_on_emits) (simp_all add: ran(1) Run_connect)
    then show thesis using moves [OF u] ran(1) Run_connect by simp
  next
    case (Run_read_header a)
    then have "goes_on x ?u w'"
      using ran(1,2) goes_on_start [OF emits_refl, of x "Read_header a" ?u]
      by (simp add: run_task_def tcp_read_header_def)
    then show thesis using moves [OF u] ran(1) Run_read_header by simp
  next
    case (Run_ws_accept a)
    then have "goes_on x ?u w'"
      using ran(1,2) goes_on_start [OF emits_refl, of x "Ws_accept a" ?u] by (simp add: run_task_def)
    then show thesis using moves [OF u] ran(1) Run_ws_accept by simp
  qed
next
  case (completed op bytes error)
  show thesis
  proof (cases "error \<or> (\<forall>a m. op \<noteq> Write a m \<and> op \<noteq> Ws_write a m)")
    case True
    then obtain u where "taken x w u" "goes_on x u w'"
      using completion_shape [OF completed(3) assms(2)] completed(1,2) by metis
    then show thesis using moves True completed(1) by auto
  next
    case False
    then consider a m where "op = Write a m" | a m where "op = Ws_write a m" by blast
    then show thesis
    proof cases
      case 1
      then show thesis using writes [of a m bytes] completed False by (simp add: complete_op_def)
    next
      case 2
      then show thesis using ws_writes [of a m bytes] completed False by (simp add: complete_op_def)
    qed
  qed
next
  case (called c)
  have ok: "node_ok e w" using assms(2) by (simp add: runtime_ok_def)
  have "emits w w'" using called(2) [symmetric] assms(4) call_emits [OF ok assms(3)] called(1) by simp
  then have "goes_on x w w'" by (rule goes_on_emits) (simp add: called(1))
  then show thesis using moves [of w] called(1) by (simp add: taken_def)
qed

section \<open>What stays aligned at one node\<close>

text \<open>The messages of a session that are on their way to the wire: queued, or posted to its strand.\<close>

definition pipeline :: "addr \<Rightarrow> world \<Rightarrow> byte list list" where
  "pipeline a w = get_queue a w @ sends_to a (w_posted w)"

text \<open>The read loop of a session: the reads outstanding and the starts posted.\<close>

definition reading :: "addr \<Rightarrow> world \<Rightarrow> io_op list \<times> task list" where
  "reading a w = (filter (reads_at a) (w_pending w), filter (starts_at a) (w_posted w))"

lemma readers_reading: "readers a w = length (fst (reading a w)) + length (snd (reading a w))"
  by (simp add: readers_def reads_def starts_def reading_def)

lemma framed_pipeline:
  assumes "framed w" and "a < w_next w" and "s_type (w_heap w a) = tcp"
  shows "list_all sendable (pipeline a w)"
proof -
  have "list_all (framed_task (w_heap w)) ts \<Longrightarrow> list_all sendable (sends_to a ts)" for ts
    using assms(3) by (induction a ts rule: sends_to.induct) auto
  then show ?thesis
    using assms by (simp add: framed_def pipeline_def)
qed

lemma sends_to_other_strand: "strand_of t \<noteq> Some a \<Longrightarrow> sends_to a (t # ts) = sends_to a ts"
  by (cases t) auto

lemma sends_to_none: "list_all (\<lambda>t. strand_of t \<noteq> Some a) ts \<Longrightarrow> sends_to a ts = []"
  by (induction ts) (simp_all add: sends_to_other_strand)

lemma sends_to_not_send: "(\<And>b m. t \<noteq> Run_on_send b m) \<Longrightarrow> sends_to a (t # ts) = sends_to a ts"
  by (cases t) auto

text \<open>Evolving adds to the pipeline at its end and leaves the read loop alone.\<close>

lemma emits_session:
  assumes "emits u v" and "a < w_next u"
  shows "\<exists>ms. pipeline a v = pipeline a u @ ms" and "reading a v = reading a u"
proof -
  obtain ts where ts: "w_posted v = w_posted u @ ts" "starts a ts \<le> 0"
    using assms unfolding emits_def evolves_def by (metis not_le)
  have q: "get_queue a v = get_queue a u" "w_pending v = w_pending u"
    using assms by (simp_all add: emits_def evolves_def same_core_def get_queue_def)
  show "\<exists>ms. pipeline a v = pipeline a u @ ms"
    by (simp add: pipeline_def q ts(1))
  show "reading a v = reading a u"
    using ts by (simp add: reading_def q starts_def filter_empty_conv)
qed

lemma goes_on_session:
  assumes "goes_on x u w'" and "a < w_next u"
  shows "\<exists>ms. pipeline a w' = pipeline a u @ ms"
    and "reading a w' = (fst (reading a u) @ filter (reads_at a) (started x), snd (reading a u))"
proof -
  obtain v where v: "emits u v" "w' = v\<lparr>w_pending := w_pending v @ started x\<rparr>"
    using assms(1) unfolding goes_on_def by blast
  have "pipeline a w' = pipeline a v" by (simp add: v(2) pipeline_def get_queue_def)
  then show "\<exists>ms. pipeline a w' = pipeline a u @ ms" using emits_session(1) [OF v(1) assms(2)] by simp
  have "reading a w' = (fst (reading a v) @ filter (reads_at a) (started x), snd (reading a v))"
    by (simp add: v(2) reading_def)
  then show "reading a w' = (fst (reading a u) @ filter (reads_at a) (started x), snd (reading a u))"
    by (simp add: emits_session(2) [OF v(1) assms(2)])
qed

lemma framed_taken:
  assumes "taken x w u" and "framed w"
  shows "framed u"
proof -
  have same: "get_queue a u = get_queue a w" "s_type (w_heap u a) = s_type (w_heap w a)" for a
    using assms(1) by (simp_all add: taken_def same_core_def get_queue_def)
  have "framed_task (w_heap u) t \<longleftrightarrow> framed_task (w_heap w) t" for t
    by (rule framed_task_cong) (simp add: same)
  then have "framed_task (w_heap u) = framed_task (w_heap w)" ..
  then show ?thesis
    using assms by (cases x) (auto simp: taken_def framed_def same)
qed

lemma framed_emits:
  assumes "emits u v" and "framed u" and "strands_below (w_next u) (w_posted u)"
  shows "framed v"
proof -
  obtain ts where ts: "w_posted v = w_posted u @ ts" "list_all (framed_task (w_heap v)) ts"
    using assms(1) unfolding emits_def by blast
  have "framed_task (w_heap v) t \<longleftrightarrow> framed_task (w_heap u) t" if "t \<in> set (w_posted u)" for t
    using that assms(1,3) by (intro framed_task_cong) (auto simp: strands_below_def emits_def evolves_def same_core_def)
  then have "list_all (framed_task (w_heap v)) (w_posted v)"
    using assms(2) ts by (auto simp: framed_def list_all_iff)
  moreover have "list_all sendable (get_queue a v)" if "a < w_next v" "s_type (w_heap v a) = tcp" for a
    using that assms(1,2) by (cases "a < w_next u")
      (auto simp: framed_def emits_def evolves_def same_core_def get_queue_def)
  ultimately show ?thesis by (simp add: framed_def)
qed

lemma on_send_fields:
  "w_posted (on_send a m w) = w_posted w" "w_next (on_send a m w) = w_next w"
  "s_type (w_heap (on_send a m w) b) = s_type (w_heap w b)"
  "get_queue b (on_send a m w) = (if b = a then get_queue a w @ [m] else get_queue b w)"
  "reading b (on_send a m w) = reading b w"
  by (simp_all add: on_send_def tcp_on_send_def websocket_on_send_def Let_def reading_def get_queue_def
      update_session_def split: session_type.split)

text \<open>A successful write takes the head of the queue.\<close>

lemma write_fields:
  assumes "Write a m \<in> set (w_pending w)" and "runtime_ok e w"
    and "tcp_on_write e a False (finish_op (Write a m) w) = Inr w'"
  shows "get_queue a w = m # get_queue a w'" and "b \<noteq> a \<Longrightarrow> get_queue b w' = get_queue b w"
    and "w_posted w' = w_posted w" and "reading b w' = reading b w" and "w_next w' = w_next w"
    and "s_type (w_heap w' b) = s_type (w_heap w b)"
proof -
  obtain m' rest where q: "get_queue a w = m' # rest"
    using assms(3) by (auto simp: tcp_on_write_def split: list.splits)
  have "m \<in> set (outstanding_writes a w)"
    using assms(1) by (simp add: outstanding_writes_def tcp_inflight_member)
  moreover have "outstanding_writes a w = [] \<or> outstanding_writes a w = take 1 (get_queue a w)"
    using assms(2) unfolding runtime_ok_def by blast
  ultimately have "m' = m" by (auto simp: q)
  then show "get_queue a w = m # get_queue a w'" "b \<noteq> a \<Longrightarrow> get_queue b w' = get_queue b w"
    "w_posted w' = w_posted w" "reading b w' = reading b w" "w_next w' = w_next w"
    "s_type (w_heap w' b) = s_type (w_heap w b)"
    using assms(3) q
    by (auto simp: tcp_on_write_def Let_def get_queue_def update_session_def reading_def filter_remove1
        finish_op_def start_op_def remove1_idem split: list.splits if_splits)
qed

lemma ws_write_fields:
  assumes "Ws_write a m \<in> set (w_pending w)"
    and "websocket_on_write e a False (finish_op (Ws_write a m) w) = Inr w'"
  shows "get_queue a w = hd (get_queue a w) # get_queue a w'" and "b \<noteq> a \<Longrightarrow> get_queue b w' = get_queue b w"
    and "w_posted w' = w_posted w" and "reading b w' = reading b w" and "w_next w' = w_next w"
    and "s_type (w_heap w' b) = s_type (w_heap w b)"
  using assms
  by (auto simp: websocket_on_write_def Let_def get_queue_def update_session_def reading_def filter_remove1
      finish_op_def start_op_def remove1_idem split: list.splits if_splits)

section \<open>Actions and one session\<close>

definition touches :: "addr \<Rightarrow> action \<Rightarrow> bool" where
  "touches a x \<longleftrightarrow>
     (case x of Ran t \<Rightarrow> starts_at a t | Completed op error bytes \<Rightarrow> reads_at a op | Called c \<Rightarrow> False)"

lemma started_untouched: "\<not> touches a x \<Longrightarrow> filter (reads_at a) (started x) = []"
  by (cases x rule: started.cases) (auto simp: touches_def)

lemma taken_reading:
  assumes "taken x w u" and "runtime_ok e w"
  shows "reading a u = (if touches a x then ([], []) else reading a w)"
proof -
  have one: "length (fst (reading a w)) + length (snd (reading a w)) \<le> 1"
    using assms(2) by (simp add: runtime_ok_def readers_reading)
  show ?thesis
  proof (cases x)
    case (Ran t)
    then obtain bs as where "w_posted w = bs @ t # as" "w_posted u = bs @ as" "w_pending u = w_pending w"
      using assms(1) by (auto simp: taken_def)
    then show ?thesis using one by (auto simp: Ran reading_def touches_def)
  next
    case (Completed op error bytes)
    then have u: "op \<in> set (w_pending w)" "w_pending u = remove1 op (w_pending w)" "w_posted u = w_posted w"
      using assms(1) by (auto simp: taken_def)
    show ?thesis
    proof (cases "reads_at a op")
      case True
      then have op: "op \<in> set (filter (reads_at a) (w_pending w))" using u(1) by simp
      then have "filter (reads_at a) (w_pending w) = [op]" "filter (starts_at a) (w_posted w) = []"
        using one by (cases "filter (reads_at a) (w_pending w)"; force simp: reading_def)+
      then show ?thesis using True by (simp add: Completed reading_def touches_def u(2,3) filter_remove1)
    next
      case False
      then show ?thesis by (simp add: Completed reading_def touches_def u(2,3) filter_remove1 remove1_idem)
    qed
  next
    case (Called c)
    then show ?thesis using assms(1) by (simp add: taken_def reading_def touches_def)
  qed
qed

lemma taken_pipeline:
  assumes "taken x w u" and "\<And>a m. x \<noteq> Ran (Run_on_send a m)"
  shows "pipeline a u = pipeline a w"
  using assms
  by (cases x) (auto simp: taken_def pipeline_def same_core_def get_queue_def sends_to_not_send)

text \<open>The read loop of a session: only its own starts and completions change it.\<close>

lemma action_reading:
  assumes "node_action e w x (Inr w')" and "runtime_ok e w" and "index_law e" and "speaks_frames x"
    and "a < w_next w"
  shows "reading a w' = (if touches a x then (filter (reads_at a) (started x), []) else reading a w)"
  using assms(1-4)
proof (cases rule: action_shape)
  case (moves u)
  have "a < w_next u" using moves(1) assms(5) by (simp add: taken_def)
  then show ?thesis
    using goes_on_session(2) [OF moves(2)] taken_reading [OF moves(1) assms(2), of a] started_untouched [of a x]
    by simp
next
  case (sends b m u)
  then show ?thesis
    using taken_reading [OF sends(2) assms(2), of a] by (simp add: on_send_fields touches_def)
next
  case (writes b m bytes)
  then show ?thesis using write_fields(4) [OF writes(2) assms(2) writes(3)] by (simp add: touches_def)
next
  case (ws_writes b m bytes)
  then show ?thesis using ws_write_fields(4) [OF ws_writes(2,3)] by (simp add: touches_def)
qed

text \<open>
  The messages on their way to the wire: a successful write takes the first, every other action leaves them
  where they are and may add more behind them.
\<close>

lemma action_pipeline:
  assumes "node_action e w x (Inr w')" and "runtime_ok e w" and "index_law e" and "speaks_frames x"
    and "a < w_next w" and "s_type (w_heap w a) = tcp"
  shows "if \<exists>m bytes. x = Completed (Write a m) False bytes
    then \<exists>m bytes. x = Completed (Write a m) False bytes \<and> pipeline a w = m # pipeline a w'
    else \<exists>ms. pipeline a w' = pipeline a w @ ms"
  using assms(1-4)
proof (cases rule: action_shape)
  case (moves u)
  have "a < w_next u" using moves(1) assms(5) by (simp add: taken_def)
  then show ?thesis
    using goes_on_session(1) [OF moves(2)] taken_pipeline [OF moves(1,3)] moves(4) by auto
next
  case (sends b m u)
  obtain bs as where p: "w_posted w = bs @ Run_on_send b m # as" "next_on_strand bs (Run_on_send b m)"
    "w_posted u = bs @ as" "get_queue a u = get_queue a w"
    using sends(1,2) by (auto simp: taken_def same_core_def get_queue_def)
  have "sends_to b bs = []"
    using p(2) by (intro sends_to_none) (simp add: next_on_strand_def)
  then have "pipeline a w' = pipeline a w"
    using p by (auto simp: pipeline_def sends(3) on_send_fields)
  then show ?thesis using sends(1) by simp
next
  case (writes b m bytes)
  note f = write_fields [OF writes(2) assms(2) writes(3)]
  show ?thesis
  proof (cases "b = a")
    case True
    then show ?thesis using writes(1) f(1,3) by (auto simp: pipeline_def)
  next
    case False
    then show ?thesis using writes(1) f(2,3) by (auto simp: pipeline_def)
  qed
next
  case (ws_writes b m bytes)
  have "op_typed (w_heap w) (Ws_write b m)"
    using assms(2) ws_writes(2) unfolding runtime_ok_def list_all_iff by blast
  then have "b \<noteq> a" using assms(6) by auto
  then show ?thesis
    using ws_writes(1) ws_write_fields(2,3) [OF ws_writes(2,3)] by (auto simp: pipeline_def)
qed

text \<open>Sessions stay, with their transport.\<close>

lemma action_sessions:
  assumes "node_action e w x (Inr w')" and "runtime_ok e w" and "index_law e" and "speaks_frames x"
    and "a < w_next w"
  shows "a < w_next w'" and "s_type (w_heap w' a) = s_type (w_heap w a)"
proof -
  have "a < w_next w' \<and> s_type (w_heap w' a) = s_type (w_heap w a)"
    using assms(1-4)
  proof (cases rule: action_shape)
    case (moves u)
    then show ?thesis using assms(5) by (auto simp: goes_on_def taken_def emits_def evolves_def same_core_def)
  next
    case (sends b m u)
    then show ?thesis using assms(5) by (simp add: on_send_fields) (simp add: taken_def same_core_def)
  next
    case (writes b m bytes)
    then show ?thesis using write_fields(5,6) [OF writes(2) assms(2) writes(3)] assms(5) by simp
  next
    case (ws_writes b m bytes)
    then show ?thesis using ws_write_fields(5,6) [OF ws_writes(2,3)] assms(5) by simp
  qed
  then show "a < w_next w'" "s_type (w_heap w' a) = s_type (w_heap w a)" by simp_all
qed

text \<open>An action on the read loop of a session is one that was posted or outstanding.\<close>

lemma action_enabled:
  assumes "node_action e w x r" and "touches a x"
  shows "(\<exists>t. x = Ran t \<and> t \<in> set (snd (reading a w))) \<or>
    (\<exists>op error bytes. x = Completed op error bytes \<and> op \<in> set (fst (reading a w)) \<and> delivers op bytes)"
  using assms by cases (auto simp: touches_def reading_def)

text \<open>Everything written stays framed.\<close>

lemma action_framed:
  assumes "node_action e w x (Inr w')" and "runtime_ok e w" and "index_law e" and "speaks_frames x"
    and "framed w"
  shows "framed w'"
  using assms(1-4)
proof (cases rule: action_shape)
  case (moves u)
  obtain v where v: "emits u v" "w' = v\<lparr>w_pending := w_pending v @ started x\<rparr>"
    using moves(2) unfolding goes_on_def by blast
  have "set (w_posted u) \<subseteq> set (w_posted w)" "w_next u = w_next w"
    using moves(1) by (cases x; auto simp: taken_def)+
  then have "strands_below (w_next u) (w_posted u)"
    using assms(2) by (auto simp: runtime_ok_def strands_below_def)
  then have "framed v" using framed_emits [OF v(1) framed_taken [OF moves(1) assms(5)]] by simp
  then show ?thesis by (simp add: v(2) framed_def get_queue_def)
next
  case (sends b m u)
  have u: "framed u" "w_heap w b = w_heap w b" using framed_taken [OF sends(2) assms(5)] by simp_all
  have "framed_task (w_heap w) (Run_on_send b m)"
    using sends(1,2) assms(5) by (auto simp: taken_def framed_def)
  moreover have "s_type (w_heap u b) = s_type (w_heap w b)"
    using sends(2) by (simp add: taken_def same_core_def)
  moreover have "framed_task (w_heap w') = framed_task (w_heap u)"
    by (intro ext framed_task_cong) (simp add: sends(3) on_send_fields)
  ultimately show ?thesis
    using u(1) by (auto simp: framed_def sends(3) on_send_fields)
next
  case (writes b m bytes)
  note f = write_fields [OF writes(2) assms(2) writes(3)]
  have "framed_task (w_heap w') = framed_task (w_heap w)"
    by (intro ext framed_task_cong) (simp add: f(6))
  moreover have "list_all sendable (get_queue c w')" if "c < w_next w" "s_type (w_heap w c) = tcp" for c
  proof -
    have "list_all sendable (get_queue c w)" using that assms(5) by (simp add: framed_def)
    then show ?thesis using f(1,2) by (cases "c = b") auto
  qed
  ultimately show ?thesis
    using assms(5) by (simp add: framed_def f(3,5,6))
next
  case (ws_writes b m bytes)
  note f = ws_write_fields [OF ws_writes(2,3)]
  have "framed_task (w_heap w') = framed_task (w_heap w)"
    by (intro ext framed_task_cong) (simp add: f(6))
  moreover have "list_all sendable (get_queue c w')" if "c < w_next w" "s_type (w_heap w c) = tcp" for c
  proof -
    have "list_all sendable (get_queue c w)" using that assms(5) by (simp add: framed_def)
    moreover have "list_all sendable (get_queue b w) \<Longrightarrow> list_all sendable (get_queue b w')"
      by (subst (asm) f(1)) simp
    ultimately show ?thesis using f(2) by (cases "c = b") auto
  qed
  ultimately show ?thesis
    using assms(5) by (simp add: framed_def f(3,5,6))
qed

end
