(* ===== verification/Directory_Refinement.thy ===== *)
theory Directory_Refinement
  imports Runtime_Actions Kernel_Properties
begin

text \<open>
  The node as an implementation of the directory: each thing a reachable node can do is one transition of a
  specification that speaks of the directory only, with the messages of a received frame as its alphabet.
\<close>

section \<open>The messages of a frame\<close>

text \<open>A message without its transaction: opcode, type, payload.\<close>

type_synonym message = "byte \<times> byte \<times> byte list"

text \<open>
  A reference parser: the messages a frame consists of, up to the first that does not fit or is too short.  A
  frame with a wrong checksum or without room for its table of lengths has none.
\<close>

fun cut_messages :: "byte list \<Rightarrow> nat list \<Rightarrow> message list" where
  "cut_messages bytes [] = []"
| "cut_messages bytes (n # ns) =
     (if length bytes < n \<or> n < 18 then []
      else (bytes ! 0, bytes ! 1, drop 18 (take n bytes)) # cut_messages (drop n bytes) ns)"

definition frame_messages :: "env \<Rightarrow> byte list \<Rightarrow> message list" where
  "frame_messages e frame =
     (let body = take (length frame - 2) frame; n = unat (get16 (take 2 body))
      in if length frame < 4 \<or> crc_ccitt e body \<noteq> get16 (drop (length frame - 2) frame) \<or> length body < 2 + 2 * n
         then []
         else cut_messages (drop (2 + 2 * n) body) (map (\<lambda>k. unat (get16 (take 2 (drop (2 + 2 * k) body)))) [0..<n]))"

section \<open>The specification\<close>

text \<open>
  What a message does, when the session with id \<open>i\<close> and transport \<open>t\<close> sends it: to the directory, to the node
  the session is of, and to whether the session is registered.  WebSocket clients change nothing but by the
  discovery responses they send; those dial, at most once for each four bytes.
\<close>

type_synonym abstract_state = "directory \<times> uuid \<times> bool"

fun message_effect :: "uuid \<Rightarrow> session_type \<Rightarrow> message \<Rightarrow> abstract_state \<Rightarrow> abstract_state" where
  "message_effect i t (opcode, type, payload) (d, n, r) =
     (let j = get_uuid (take 16 payload)
      in if t = websocket \<or> length payload < 16 then (d, n, r)
         else if opcode = op_code_value identify then (if r then d(i \<mapsto> (tcp, j)) else d, j, r)
         else if opcode = op_code_value join \<and> type \<noteq> response then (enter j (websocket, n) d, n, r)
         else if opcode = op_code_value leave \<and> type \<noteq> response then (d(j := None), n, r \<and> j \<noteq> i)
         else (d, n, r))"

fun message_step :: "uuid \<Rightarrow> session_type \<Rightarrow> message \<Rightarrow> abstract_state \<Rightarrow> abstract_state \<Rightarrow> bool" where
  "message_step i t (opcode, type, payload) (d, n, r) s' \<longleftrightarrow>
     (if opcode = op_code_value discovery
      then \<exists>d'. s' = (d', n, r) \<and> (if type = response then dials (length payload div 4) d d' else d' = d)
      else s' = message_effect i t (opcode, type, payload) (d, n, r))"

fun messages_step :: "uuid \<Rightarrow> session_type \<Rightarrow> message list \<Rightarrow> abstract_state \<Rightarrow> abstract_state \<Rightarrow> bool" where
  "messages_step i t [] s s' \<longleftrightarrow> s' = s"
| "messages_step i t (m # ms) s s' \<longleftrightarrow> (\<exists>u. message_step i t m s u \<and> messages_step i t ms u s')"

text \<open>
  What becomes of the directory \<open>d\<close> of a node that does \<open>x\<close>.  Of the node itself only this is looked at: the next
  id it draws, whether it can reach a host, which session a completed operation belongs to, and which sessions
  its index finds under a node id.
\<close>

definition sender_state :: "addr \<Rightarrow> world \<Rightarrow> abstract_state" where
  "sender_state a w = (directory w, get_node_id a w, registered a w)"

definition reads_frame :: "env \<Rightarrow> addr \<Rightarrow> byte list \<Rightarrow> world \<Rightarrow> directory \<Rightarrow> bool" where
  "reads_frame e a bytes w d' \<longleftrightarrow>
     (\<exists>n r. messages_step (get_id a w) (get_type a w) (frame_messages e bytes) (sender_state a w) (d', n, r))"

fun completed_spec :: "env \<Rightarrow> world \<Rightarrow> io_op \<Rightarrow> bool \<Rightarrow> byte list \<Rightarrow> directory \<Rightarrow> bool" where
  "completed_spec e w Tcp_listen error bytes d' \<longleftrightarrow>
     d' = (if error then directory w else enter (random_uuid e (w_rng w)) (tcp, nil_uuid) (directory w))"
| "completed_spec e w Ws_listen error bytes d' \<longleftrightarrow>
     d' = (if error then directory w else enter (random_uuid e (w_rng w)) (websocket, w_node_id w) (directory w))"
| "completed_spec e w (Read_body a k) error bytes d' \<longleftrightarrow>
     (if error then d' = (directory w)(get_id a w := None) else reads_frame e a bytes w d')"
| "completed_spec e w (Ws_read a) error bytes d' \<longleftrightarrow>
     (if error then d' = (directory w)(get_id a w := None) else reads_frame e a bytes w d')"
| "completed_spec e w (Read_header a) error bytes d' \<longleftrightarrow> d' = (if error then (directory w)(get_id a w := None) else directory w)"
| "completed_spec e w (Write a m) error bytes d' \<longleftrightarrow> d' = (if error then (directory w)(get_id a w := None) else directory w)"
| "completed_spec e w (Ws_accept a) error bytes d' \<longleftrightarrow> d' = (if error then (directory w)(get_id a w := None) else directory w)"
| "completed_spec e w (Ws_write a m) error bytes d' \<longleftrightarrow> d' = (if error then (directory w)(get_id a w := None) else directory w)"

fun directory_spec :: "env \<Rightarrow> world \<Rightarrow> action \<Rightarrow> directory \<Rightarrow> bool" where
  "directory_spec e w (Ran (Run_connect host port)) d' \<longleftrightarrow> d' = dialled e host port w (directory w)"
| "directory_spec e w (Ran t) d' \<longleftrightarrow> d' = directory w"
| "directory_spec e w (Completed op error bytes) d' \<longleftrightarrow> completed_spec e w op error bytes d'"
| "directory_spec e w (Called (Connect_to host port)) d' \<longleftrightarrow> d' = dialled e host port w (directory w)"
| "directory_spec e w (Called (Disconnect_from n)) d' \<longleftrightarrow>
     d' = (directory w) |` (- (\<lambda>a. get_id a w) ` set (node_range e (w_sessions w) (w_filed w) (w_heap w) n))"
| "directory_spec e w (Called Disconnect_everyone) d' \<longleftrightarrow> d' = Map.empty"
| "directory_spec e w (Called c) d' \<longleftrightarrow> d' = directory w"

section \<open>The parser and the reference parser\<close>

lemma cut_at:
  assumes "offset \<le> length frame - 2"
  shows "cut_messages (drop offset (take (length frame - 2) frame)) (map unat (l # ls)) =
    (if length frame - 2 - offset < unat l \<or> unat l < 18 then []
     else (hd (take 1 (drop offset frame)), hd (take 1 (drop (offset + 1) frame)),
           take (unat l - 18) (drop (offset + 18) frame))
          # cut_messages (drop (offset + unat l) (take (length frame - 2) frame)) (map unat ls))"
proof (cases "length frame - 2 - offset < unat l \<or> unat l < 18")
  case True
  then show ?thesis using assms by auto
next
  case False
  let ?b = "drop offset (take (length frame - 2) frame)"
  have len: "length ?b = length frame - 2 - offset" using assms by simp
  have nth: "?b ! k = hd (take 1 (drop (offset + k) frame))" if "k < 18" for k
  proof -
    have "offset + k < length frame - 2" using that False assms by linarith
    moreover from this have "offset + k < length frame" by linarith
    ultimately show ?thesis by (simp add: hd_take hd_drop_conv_nth)
  qed
  have "drop 18 (take (unat l) ?b) = take (unat l - 18) (drop 18 ?b)"
    by (simp only: drop_take)
  also have "drop 18 ?b = take (length frame - 2 - (offset + 18)) (drop (offset + 18) frame)"
    by (simp only: drop_drop drop_take diff_diff_left ac_simps)
  also have "take (unat l - 18) \<dots> = take (unat l - 18) (drop (offset + 18) frame)"
    using False by (simp only: take_take, intro arg_cong [where f = "\<lambda>n. take n _"]) linarith
  finally have payload: "drop 18 (take (unat l) ?b) = take (unat l - 18) (drop (offset + 18) frame)" .
  have rest: "drop (unat l) ?b = drop (offset + unat l) (take (length frame - 2) frame)"
    by (simp only: drop_drop add.commute)
  have heads: "?b ! 0 = hd (take 1 (drop offset frame))" "?b ! 1 = hd (take 1 (drop (offset + 1) frame))"
    using nth [of 0] nth [of 1] by simp_all
  show ?thesis
    using False by (simp only: list.map cut_messages.simps len payload rest heads if_False)
qed

lemma read_lengths_eq:
  "offset + 2 * n \<le> length frame \<Longrightarrow>
   read_lengths frame n offset = Inr (map (\<lambda>k. get16 (take 2 (drop (offset + 2 * k) frame))) [0..<n], offset + 2 * n)"
proof (induction n arbitrary: offset)
  case (Suc n)
  have "[0..<Suc n] = 0 # map Suc [0..<n]" by (simp add: upt_conv_Cons map_Suc_upt del: upt_Suc)
  then show ?case using Suc.IH [of "offset + 2"] Suc.prems by (simp add: comp_def add.assoc del: upt_Suc)
qed simp

section \<open>Every handler does what its message says\<close>

lemma sender_kept:
  assumes "evolves w w'" and "a < w_next w"
  shows "get_id a w' = get_id a w" and "get_type a w' = get_type a w" and "a < w_next w'"
  using assms by (auto simp: evolves_def same_core_def get_id_def get_type_def)

lemma connects_dial:
  assumes "node_ok e w" and "a < w_next w" and "connect_unknown e nodes w = Inr w'"
  shows "dials (length nodes) (directory w) (directory w') \<and> get_node_id a w' = get_node_id a w \<and>
    registered a w' = registered a w"
  using assms
proof (induction nodes arbitrary: w)
  case Nil
  then show ?case by (simp add: dials_refl)
next
  case (Cons node nodes)
  obtain host port where node: "node = (host, port)" by (cases node)
  show ?case
  proof (cases "already_connected host port w")
    case True
    then show ?thesis
      using Cons node dials_mono [of "length nodes" _ _ "Suc (length nodes)"] by simp
  next
    case False
    obtain r v where v: "state_connect e host port False 0 w = Inr (r, v)" "node_ok e v" "evolves w v"
      using state_connect_evolves [OF Cons.prems(1)] by blast
    note dial = directory_connect [OF Cons.prems(1) v(1)]
    have kept: "get_node_id a v = get_node_id a w" "registered a v = registered a w"
      using dial(2,3) Cons.prems(2) sender_kept(1) [OF v(3) Cons.prems(2)] by (simp_all add: get_node_id_def registered_def)
    have "connect_unknown e nodes v = Inr w'"
      using Cons.prems(3) False v(1) node by simp
    then have "dials (length nodes) (directory v) (directory w') \<and> get_node_id a w' = get_node_id a v \<and>
        registered a w' = registered a v"
      using Cons.IH [OF v(2)] sender_kept(3) [OF v(3) Cons.prems(2)] by blast
    moreover have "dials (Suc 0) (directory w) (directory v)"
      by (simp add: dial(1) dials_dialled)
    ultimately show ?thesis using dials_trans kept by fastforce
  qed
qed

lemma message_effect_handlers:
  assumes "node_ok e w" and "a < w_next w" and "opcode \<noteq> op_code_value discovery"
    and "get_handlers e opcode type b tx payload a w = Inr (b', w')"
  shows "sender_state a w' = message_effect (get_id a w) (get_type a w) (opcode, type, payload) (sender_state a w)"
proof -
  have wf: "container_wf w" using assms(1) by (simp add: node_ok_def)
  let ?j = "get_uuid (take 16 payload)"
  consider (identify) "opcode = op_code_value identify" | (join) "opcode = op_code_value join"
    | (leave) "opcode = op_code_value leave"
    | (other) "opcode \<noteq> op_code_value identify" "opcode \<noteq> op_code_value join" "opcode \<noteq> op_code_value leave"
    by blast
  then show ?thesis
  proof cases
    case identify
    then have h: "identify_handler type b tx payload a w = Inr (b', w')"
      using assms(4) by (simp add: get_handlers_def)
    show ?thesis
    proof (cases "get_type a w = websocket \<or> length payload < 16")
      case True
      then show ?thesis using h identify by (auto simp: identify_handler_eq sender_state_def Let_def)
    next
      case False
      then have tcp: "get_type a w = tcp" by (cases "get_type a w") simp_all
      let ?v = "identified payload a w"
      have "directory w' = directory ?v \<and> find_by_id w' = find_by_id ?v \<and>
          get_node_id a w' = get_node_id a ?v \<and> get_id a w' = get_id a ?v"
        using h False
        by (auto simp: identify_handler_eq directory_announced directory_post_connects announced_def Let_def
            post_connects_eq set_port_def set_host_def update_session_def get_node_id_def get_id_def
            intro!: find_by_id_cong directory_cong split: if_splits)
      moreover have "get_node_id a ?v = ?j" "get_id a ?v = get_id a w"
        by (simp_all add: identified_def set_node_id_def update_session_def get_node_id_def get_id_def)
      ultimately show ?thesis
        using directory_identified [OF wf tcp, of payload] False identify
        by (simp add: sender_state_def registered_def Let_def)
    qed
  next
    case join
    then have h: "join_handler e type b tx payload a w = Inr (b', w')"
      using assms(4) by (simp add: get_handlers_def)
    show ?thesis
    proof (cases "get_type a w = websocket \<or> type = response \<or> length payload < 16")
      case True
      then show ?thesis using h join by (auto simp: join_handler_eq [OF assms(2)] sender_state_def Let_def)
    next
      case False
      then have w': "w' = joined e ?j a w" using h by (simp add: join_handler_eq [OF assms(2)])
      have heap: "w_heap w' a = w_heap w a"
        using assms(2) by (simp add: w' joined_def add_session_def container_insert_def with_stand_in_def split: option.split)
      have "registered a w' = registered a w"
        using joined_registry(1) [OF assms(1), of ?j a] assms(2) heap
        by (auto simp: registered_def w' get_id_def split: option.splits)
      then show ?thesis
        using directory_joined [OF assms(1)] heap False join
        by (simp add: sender_state_def w' get_node_id_def Let_def)
    qed
  next
    case leave
    then have h: "leave_handler type b tx payload a w = Inr (b', w')"
      using assms(4) by (simp add: get_handlers_def)
    show ?thesis
    proof (cases "get_type a w = websocket \<or> type = response \<or> length payload < 16")
      case True
      then show ?thesis using h leave by (auto simp: leave_handler_eq [OF wf] sender_state_def Let_def)
    next
      case False
      then have w': "w' = left_by ?j w" using h by (simp add: leave_handler_eq [OF wf])
      have heap: "w_heap w' = w_heap w"
        by (simp add: w' left_by_def container_erase_def split: option.split)
      have "registered a w' \<longleftrightarrow> registered a w \<and> ?j \<noteq> get_id a w"
        using left_registry(1) [OF assms(1), of ?j] heap by (auto simp: registered_def w' get_id_def)
      then show ?thesis
        using directory_left [OF assms(1)] heap False leave
        by (simp add: sender_state_def w' get_node_id_def Let_def)
    qed
  next
    case other
    then have "w' = w"
      using assms(3,4) by (auto simp: get_handlers_def ping_handler_def whoami_handler_def non_implemented_handler_def
          fun_upd_apply split: if_splits)
    then show ?thesis using other by (simp add: sender_state_def Let_def)
  qed
qed

lemma message_step_handlers:
  assumes "node_ok e w" and "a < w_next w" and "get_handlers e opcode type b tx payload a w = Inr (b', w')"
  shows "message_step (get_id a w) (get_type a w) (opcode, type, payload) (sender_state a w) (sender_state a w')"
proof (cases "opcode = op_code_value discovery")
  case False
  then show ?thesis
    using message_effect_handlers [OF assms(1,2) False assms(3)]
    by (simp add: sender_state_def del: message_effect.simps)
next
  case True
  then have h: "discovery_handler e type b tx payload a w = Inr (b', w')"
    using assms(3) by (simp add: get_handlers_def)
  show ?thesis
  proof (cases "type = response \<and> 4 \<le> length payload")
    case False
    then have "w' = w" using h by (auto simp: discovery_handler_def split: if_splits)
    then show ?thesis using True by (simp add: sender_state_def dials_refl)
  next
    case response: True
    let ?nodes = "read_nodes payload (unat (get32 (take 4 payload))) 4"
    have "connect_unknown e ?nodes w = Inr w'"
      using h response by (auto simp: discovery_response_connects chain_def split: sum.splits)
    from connects_dial [OF assms(1,2) this]
    have "dials (length ?nodes) (directory w) (directory w')" "get_node_id a w' = get_node_id a w"
      "registered a w' = registered a w" by blast+
    moreover have "length ?nodes \<le> length payload div 4"
      using discovery_response_bounded [of 4 payload "unat (get32 (take 4 payload))"] response by linarith
    ultimately show ?thesis
      using True response dials_mono by (auto simp: sender_state_def)
  qed
qed

lemma handle_requests_message:
  assumes "\<not> (length frame - 2 - offset < unat l \<or> unat l < 18)" and "offset \<le> length frame - 2"
  shows "handle_requests hs frame (l # ls) offset b a w =
    chain (hs (hd (take 1 (drop offset frame))) (hd (take 1 (drop (offset + 1) frame))) b
        (get_uuid (take 16 (drop (offset + 2) frame))) (take (unat l - 18) (drop (offset + 18) frame)) a w)
      (\<lambda>(b1, v). handle_requests hs frame ls (offset + unat l) b1 a v)"
proof -
  have room: "offset + unat l \<le> length frame - 2"
    using assms by linarith
  have rd: "memcpy_at frame i n = Inr (take n (drop i frame))" if "i + n \<le> offset + unat l" for i n
    using that room by (simp add: memcpy_at_def)
  have reads: "memcpy_at frame offset 1 = Inr (take 1 (drop offset frame))"
    "memcpy_at frame (offset + 1) 1 = Inr (take 1 (drop (offset + 1) frame))"
    "memcpy_at frame (offset + 1 * 2) 16 = Inr (take 16 (drop (offset + 2) frame))"
    "memcpy_at frame (offset + 1 * 2 + 16) (unat l - (1 * 2 + 16)) = Inr (take (unat l - 18) (drop (offset + 18) frame))"
    using assms(1) by (simp_all add: rd add.commute)
  show ?thesis
    using assms(1) unfolding handle_requests.simps reads by simp
qed

text \<open>The session kernel runs the handlers over the messages the reference parser finds.\<close>

lemma kernel_parses:
  obtains (dropped) "session_kernel_handle e (Some frame) a w = Inr (None, w)" "frame_messages e frame = []"
  | (parsed) ls offset where "2 \<le> length frame" "offset \<le> length frame - 2" "length ls \<le> 65535"
      "frame_messages e frame = cut_messages (drop offset (take (length frame - 2) frame)) (map unat ls)"
      "session_kernel_handle e (Some frame) a w =
         chain (handle_requests (get_handlers e) frame ls offset as_response a w) (\<lambda>(r, w').
           case r of None \<Rightarrow> Inr (None, w')
           | Some b \<Rightarrow> chain (get_data (crc_ccitt e) b (get_type a w' = tcp)) (\<lambda>out. Inr (Some out, w')))"
proof (cases "length frame < 4 \<or> crc_ccitt e (take (length frame - 2) frame) \<noteq> get16 (drop (length frame - 2) frame)")
  case True
  then show thesis
    by (intro dropped) (auto simp: session_kernel_handle_def memcpy_at_def frame_messages_def Let_def)
next
  case False
  let ?body = "take (length frame - 2) frame" and ?n = "unat (get16 (take 2 frame))"
  have "2 \<le> length frame - 2" using False by linarith
  then have two: "take 2 ?body = take 2 frame" by (simp add: min_absorb1)
  show thesis
  proof (cases "length frame - 4 < 2 * ?n")
    case True
    then show thesis
      using False two by (intro dropped)
        (auto simp: session_kernel_handle_def memcpy_at_def frame_messages_def Let_def)
  next
    case room: False
    let ?ls = "map (\<lambda>k. get16 (take 2 (drop (2 + 2 * k) frame))) [0..<?n]"
    have lens: "read_lengths frame ?n 2 = Inr (?ls, 2 + 2 * ?n)"
      using room False by (intro read_lengths_eq) linarith
    let ?table = "\<lambda>f. map (\<lambda>k. unat (get16 (take 2 (drop (2 + 2 * k) f)))) [0..<?n]"
    have "take 2 (drop (2 + 2 * k) ?body) = take 2 (drop (2 + 2 * k) frame)" if "k < ?n" for k
      using that room False by (simp add: drop_take min_def)
    then have "?table ?body = ?table frame"
      by (intro map_cong) auto
    moreover have "?table frame = map unat ?ls" by (simp add: comp_def)
    moreover have "frame_messages e frame = cut_messages (drop (2 + 2 * ?n) ?body) (?table ?body)"
      using False room unfolding frame_messages_def Let_def two by auto
    ultimately have "frame_messages e frame = cut_messages (drop (2 + 2 * ?n) ?body) (map unat ?ls)"
      by (simp only:)
    moreover have "2 \<le> length frame" "2 + 2 * ?n \<le> length frame - 2"
      using False room by linarith+
    moreover have "length ?ls \<le> 65535"
      using unsigned_less [where ?'a = nat and w = "get16 (take 2 frame)"] by simp
    moreover have "\<not> length frame - 2 < 2" "\<not> length frame - 2 - 2 < ?n * 2" "\<not> length frame < 2"
      using False room by linarith+
    then have "session_kernel_handle e (Some frame) a w =
         chain (handle_requests (get_handlers e) frame ?ls (2 + 2 * ?n) as_response a w) (\<lambda>(r, w').
           case r of None \<Rightarrow> Inr (None, w')
           | Some b \<Rightarrow> chain (get_data (crc_ccitt e) b (get_type a w' = tcp)) (\<lambda>out. Inr (Some out, w')))"
      using False lens
      by (simp add: session_kernel_handle_def Let_def get_buffers_eq memcpy_at_def
          del: add_2_eq_Suc add_2_eq_Suc' diff_Suc_Suc cong: option.case_cong)
    ultimately show thesis by (intro parsed [of "2 + 2 * ?n" ?ls])
  qed
qed

lemma requests_step:
  assumes "node_ok e w" and "a < w_next w" and "offset \<le> length frame - 2"
    and "handle_requests (get_handlers e) frame ls offset b a w = Inr (r, w')"
  shows "messages_step (get_id a w) (get_type a w) (cut_messages (drop offset (take (length frame - 2) frame)) (map unat ls))
    (sender_state a w) (sender_state a w')"
  using assms
proof (induction ls arbitrary: offset b w)
  case Nil
  then show ?case by simp
next
  case (Cons l ls)
  note cut = cut_at [OF Cons.prems(3), of l ls]
  show ?case
  proof (cases "length frame - 2 - offset < unat l \<or> unat l < 18")
    case True
    then have "w' = w" using Cons.prems(4) by (auto split: if_splits)
    then show ?thesis using True unfolding cut by simp
  next
    case False
    let ?op = "hd (take 1 (drop offset frame))" and ?type = "hd (take 1 (drop (offset + 1) frame))"
    let ?tx = "get_uuid (take 16 (drop (offset + 2) frame))"
    let ?payload = "take (unat l - 18) (drop (offset + 18) frame)"
    have room: "offset + unat l \<le> length frame - 2"
      using False Cons.prems(3) by linarith
    obtain b1 v where v: "get_handlers e ?op ?type b ?tx ?payload a w = Inr (b1, v)"
      "handle_requests (get_handlers e) frame ls (offset + unat l) b1 a v = Inr (r, w')"
      using Cons.prems(4) unfolding handle_requests_message [OF False Cons.prems(3)]
      by (auto simp: chain_def split: sum.splits prod.splits)
    have kept: "node_ok e v" "evolves w v"
      using table.answers [OF Cons.prems(1,2), of ?op ?type b ?tx ?payload] v(1) by auto
    note sender = sender_kept [OF kept(2) Cons.prems(2)]
    have "messages_step (get_id a w) (get_type a w) (cut_messages (drop (offset + unat l) (take (length frame - 2) frame)) (map unat ls))
        (sender_state a v) (sender_state a w')"
      using Cons.IH [OF kept(1) sender(3) room v(2)] sender(1,2) by simp
    moreover have "message_step (get_id a w) (get_type a w) (?op, ?type, ?payload) (sender_state a w) (sender_state a v)"
      by (rule message_step_handlers [OF Cons.prems(1,2) v(1)])
    ultimately show ?thesis unfolding cut if_not_P [OF False] messages_step.simps by blast
  qed
qed

lemma kernel_step:
  assumes "node_ok e w" and "a < w_next w" and "session_kernel_handle e (Some frame) a w = Inr (r, w')"
  shows "messages_step (get_id a w) (get_type a w) (frame_messages e frame) (sender_state a w) (sender_state a w')"
proof (cases rule: kernel_parses [of e frame a w])
  case dropped
  then show ?thesis using assms(3) by simp
next
  case (parsed ls offset)
  obtain q where "handle_requests (get_handlers e) frame ls offset as_response a w = Inr (q, w')"
    using assms(3) unfolding parsed(5) by (auto simp: chain_def split: sum.splits option.splits)
  then show ?thesis
    using requests_step [OF assms(1,2) parsed(2)] by (simp only: parsed(4))
qed

section \<open>The running node\<close>

lemma frame_read:
  assumes "node_ok e w" and "a < w_next w" and "answer_and (start_op op) e frame a w = Inr w'"
  shows "reads_frame e a frame w (directory w')"
proof -
  obtain r v where v: "session_kernel_handle e (Some frame) a w = Inr (r, v)" "directory w' = directory v"
    using assms(3) by (cases "session_kernel_handle e (Some frame) a w") (auto simp: answer_and_def split: option.splits)
  show ?thesis
    using kernel_step [OF assms(1,2) v(1)] unfolding reads_frame_def sender_state_def [of a v] v(2) by blast
qed

lemma directory_finished:
  "directory (finish_op op w) = directory w" "get_id a (finish_op op w) = get_id a w"
  "reads_frame e a bytes (finish_op op w) d' = reads_frame e a bytes w d'"
proof -
  have same: "get_id a (finish_op op w) = get_id a w" "get_type a (finish_op op w) = get_type a w"
    "get_node_id a (finish_op op w) = get_node_id a w"
    by (simp_all add: finish_op_def get_id_def get_type_def get_node_id_def)
  have "find_by_id (finish_op op w) = find_by_id w" by (intro find_by_id_cong) simp_all
  then have "sender_state a (finish_op op w) = sender_state a w"
    by (simp add: sender_state_def registered_def same)
  then show "directory (finish_op op w) = directory w" "get_id a (finish_op op w) = get_id a w"
    "reads_frame e a bytes (finish_op op w) d' = reads_frame e a bytes w d'"
    by (simp_all add: same reads_frame_def)
qed

lemma failed_op_removes:
  assumes "node_ok e w" and "op_session op = Some a" and "complete_op e op True bytes w = Inr w'"
  shows "directory w' = (directory w)(get_id a w := None)"
proof -
  let ?v = "finish_op op w" and ?h = "\<lambda>s. s\<lparr>s_header_length := get32 bytes\<rparr>"
  have v: "node_ok e ?v" using assms(1) by (simp add: node_ok_finish)
  have "node_ok e (update_session a ?h ?v)"
    by (rule node_ok_update_session [OF same_core_updates(5) v])
  note ok = v this
  have id: "get_id a (update_session a ?h ?v) = get_id a w"
    by (simp add: get_id_def update_session_def)
  have "drop_session e a ?v = Inr w' \<or> drop_session e a (update_session a ?h ?v) = Inr w'"
    using assms(2,3)
    by (cases op) (auto simp: complete_op_def tcp_on_header_def tcp_on_body_def tcp_on_write_def
        websocket_on_accept_def websocket_on_read_def websocket_on_write_def Let_def)
  then show ?thesis
    using directory_drop [OF ok(1), of a w'] directory_drop [OF ok(2), of a w'] id
    by (auto simp: directory_update_session directory_finished)
qed

lemma completion_refines:
  assumes "runtime_ok e w" and "op \<in> set (w_pending w)" and "complete_op e op error bytes w = Inr w'"
  shows "completed_spec e w op error bytes (directory w')"
proof -
  let ?v = "finish_op op w"
  note fin = runtime_ok_finish [OF assms(1,2)]
  have ok: "node_ok e ?v" using fin(1) by (simp add: runtime_ok_def)
  have okw: "node_ok e w" using assms(1) by (simp add: runtime_ok_def)
  have lt: "a < w_next ?v" if "op_session op = Some a" for a using fin(3) [OF that] by simp
  have fields: "w_rng ?v = w_rng w" "w_node_id ?v = w_node_id w" by (simp_all add: finish_op_def)
  show ?thesis
  proof (cases "error \<and> op_session op \<noteq> None")
    case True
    then obtain a where a: "op_session op = Some a" and "error" by auto
    then have "directory w' = (directory w)(get_id a w := None)"
      using failed_op_removes [OF okw a] assms(3) by simp
    then show ?thesis using a \<open>error\<close> by (cases op) simp_all
  next
    case False
    show ?thesis
    proof (cases op)
      case (Read_body a n)
      then have "answer_and (start_op (Read_header a)) e bytes a ?v = Inr w'"
        using assms(3) False by (simp add: complete_op_def on_body_answer_and tcp_read_header_def [abs_def])
      then show ?thesis
        using frame_read [OF ok lt] Read_body False by (simp add: directory_finished)
    next
      case (Ws_read a)
      then have "answer_and (start_op (Ws_read a)) e bytes a ?v = Inr w'"
        using assms(3) False by (simp add: complete_op_def on_body_answer_and websocket_read_body_def [abs_def])
      then show ?thesis
        using frame_read [OF ok lt] Ws_read False by (simp add: directory_finished)
    next
      case (Ws_accept a)
      let ?u = "update_session a (\<lambda>s. s\<lparr>s_open := True\<rparr>) ?v"
      have "w_sessions w' = w_sessions ?u" "w_heap w' = w_heap ?u"
        using assms(3) False by (auto simp: complete_op_def Ws_accept websocket_on_accept_eq Let_def)
      then have "directory w' = directory ?u" by (intro directory_cong) simp_all
      then show ?thesis using False by (simp add: Ws_accept directory_update_session)
    next
      case Tcp_listen
      then show ?thesis
        using assms(3) directory_accepted(1) [OF ok, of error] fields by (simp add: complete_op_def)
    next
      case Ws_listen
      then show ?thesis
        using assms(3) directory_accepted(2) [OF ok, of error] fields by (simp add: complete_op_def)
    qed (use assms(3) False in \<open>auto simp: complete_op_def tcp_on_header_def tcp_read_body_def tcp_on_write_def
        websocket_on_write_def directory_update_session Let_def split: list.splits if_splits\<close>)
  qed
qed

text \<open>
  C9. The container implements the directory: whatever a reachable node does next changes the directory exactly as
  the specification says.  Dialling and accepting make one entry, under the id drawn, if the host is reached and
  the id is free; a failed operation and a disconnection take out the session concerned, the sessions the index
  finds for the node, or all; a received frame does what its messages say, one after the other, as far as they
  can be read: identify gives the sender's entry a node, join makes an entry of the sender's node, leave takes one
  out, none of them from a WebSocket client, and a discovery response dials; nothing else changes anything.
\<close>

theorem node_refines_directory:
  assumes "reachable e w" and "container_law e" and "index_law e" and "node_action e w x (Inr w')"
  shows "directory_spec e w x (directory w')"
proof -
  have run: "runtime_ok e w" by (rule reachable_runtime_ok [OF assms(1-3)])
  then have ok: "node_ok e w" by (simp add: runtime_ok_def)
  show ?thesis
    using assms(4)
  proof cases
    case (ran before t "after")
    let ?v = "w\<lparr>w_posted := before @ after\<rparr>"
    have v: "node_ok e ?v"
      using runtime_ok_take_task(1) [OF run ran(3)] by (simp add: runtime_ok_def)
    show ?thesis
    proof (cases t)
      case (Run_connect host port)
      then obtain r where "state_connect e host port False 0 ?v = Inr (r, w')"
        using ran(2) by (auto simp: run_task_def chain_def split: sum.splits)
      from directory_connect(1) [OF v this] show ?thesis
        by (simp add: ran(1) Run_connect dialled_def)
    qed (use ran in \<open>auto simp: run_task_def tcp_read_header_def split: session_type.splits\<close>)
  next
    case (completed op bytes error)
    then show ?thesis using completion_refines [OF run] by simp
  next
    case (called c)
    show ?thesis
    proof (cases c)
      case (Connect_to host port)
      then obtain r where "state_connect e host port True (connections_per_node (w_config w)) w = Inr (r, w')"
        using called(2) by (auto simp: node_connect_def chain_def split: sum.splits)
      from directory_connect(1) [OF ok this] show ?thesis by (simp add: called(1) Connect_to)
    next
      case (Disconnect_from n)
      then show ?thesis
        using called directory_removes [OF ok] by (simp add: node_disconnect_def state_disconnect_def)
    next
      case Disconnect_everyone
      then show ?thesis
        using called directory_removes_all [OF ok] by (simp add: node_disconnect_all_def)
    qed (use called in simp_all)
  qed
qed

section \<open>A concrete frame\<close>

text \<open>The reference parser inverts the builder.\<close>

lemma cut_concat:
  assumes "list_all (\<lambda>m. 18 \<le> length m) ms"
  shows "cut_messages (concat ms) (map length ms) = map (\<lambda>m. (m ! 0, m ! 1, drop 18 m)) ms"
  using assms
proof (induction ms)
  case (Cons m ms)
  then have m: "18 \<le> length m" by simp
  then have "(m @ concat ms) ! 0 = m ! 0" "(m @ concat ms) ! 1 = m ! 1"
    by (auto simp: nth_append)
  then show ?case using Cons m by simp
qed simp

lemma frame_messages_built:
  assumes "list_all (\<lambda>m. short m \<and> 18 \<le> length m) ms" and "length ms \<le> 65535"
  shows "frame_messages e (frame_bytes (crc_ccitt e) False ms) = map (\<lambda>m. (m ! 0, m ! 1, drop 18 m)) ms"
proof -
  let ?body = "frame_body ms" and ?lens = "concat (map (\<lambda>m. put16 (of_nat (length m))) ms)"
  have body: "?body = put16 (of_nat (length ms)) @ ?lens @ concat ms"
    by (simp add: frame_body_def)
  have frame: "frame_bytes (crc_ccitt e) False ms = ?body @ put16 (crc_ccitt e ?body)"
    by (simp add: frame_bytes_def)
  have n: "unat (get16 (take 2 ?body)) = length ms"
    using assms(2) by (simp add: body unat_of_nat)
  have lens: "length ?lens = 2 * length ms" by (simp add: length_length_table)
  have "read_lengths (put16 (of_nat (length ms)) @ ?lens @ concat ms) (length ms) 2 =
      Inr (map (\<lambda>m. of_nat (length m)) ms, 2 + 2 * length ms)"
    using read_lengths_table [of "put16 (of_nat (length ms))" "\<lambda>m. of_nat (length m)" ms "concat ms"] by simp
  then have table: "map (\<lambda>k. get16 (take 2 (drop (2 + 2 * k) ?body))) [0..<length ms] = map (\<lambda>m. of_nat (length m)) ms"
    using read_lengths_eq [of 2 "length ms" ?body] lens by (simp add: body)
  have "map (\<lambda>k. unat (get16 (take 2 (drop (2 + 2 * k) ?body)))) [0..<length ms] =
      map unat (map (\<lambda>k. get16 (take 2 (drop (2 + 2 * k) ?body))) [0..<length ms])"
    by (simp add: comp_def)
  also have "\<dots> = map unat (map (\<lambda>m. of_nat (length m) :: 16 word) ms)" by (simp only: table)
  also have "\<dots> = map length ms"
    using assms(1) by (auto simp: list_all_iff)
  finally have "frame_messages e (?body @ put16 (crc_ccitt e ?body)) = cut_messages (drop (2 + 2 * length ms) ?body) (map length ms)"
    using n lens by (simp add: frame_messages_def Let_def body)
  moreover have "drop (2 + 2 * length ms) ?body = concat ms"
    using lens by (simp add: body)
  ultimately show ?thesis
    using cut_concat [of ms] assms(1) by (simp add: frame list_all_iff)
qed

text \<open>An accepted peer sends a join request in one frame.\<close>

theorem node_refines_directory_witness:
  "\<exists>m w'. node_action demo_env (demo_reading 40)
     (Completed (Read_body 0 40) False (frame_bytes crc_16_ccitt False [m])) (Inr w') \<and>
     directory (demo_reading 40) 77 = None \<and> directory w' 77 = Some (websocket, nil_uuid)"
proof -
  let ?m = "message_header (op_code_value join) request 6 @ put_uuid 77"
  let ?f = "frame_bytes (crc_ccitt demo_env) False [?m]" and ?w = "demo_reading 40"
  let ?v = "finish_op (Read_body 0 40) ?w" and ?x = "Completed (Read_body 0 40) False"
  have w: "find_by_id ?w 77 = None" "get_type 0 ?v = tcp" "get_type 0 ?w = tcp" "get_node_id 0 ?w = nil_uuid" "0 < w_next ?v"
    "Read_body 0 40 \<in> set (w_pending ?w)"
    by (simp_all add: demo_reading_def find_by_id_def get_type_def get_node_id_def get_id_def update_session_def
        demo_accepted_eq)
  let ?b = "response_add_join 6 (of_nat (count_by_id (joined demo_env 77 0 ?v) 77)) as_response"
  have "process (get_handlers demo_env) [?m] as_response 0 ?v = Inr (Some ?b, joined demo_env 77 0 ?v)"
    using w(2,5) unfolding process_one by (simp add: get_handlers_def join_handler_eq)
  then have "kernel_spec demo_env [?m] 0 ?v = chain (get_data (crc_ccitt demo_env) ?b (get_type 0 (joined demo_env 77 0 ?v) = tcp))
      (\<lambda>out. Inr (Some out, joined demo_env 77 0 ?v))"
    by (simp only: kernel_spec_def chain_simps prod.case option.case)
  moreover have "\<exists>out. get_data (crc_ccitt demo_env) ?b h = Inr out" for h
    by (rule one_response_fits) (simp_all add: response_add_join_def)
  moreover have "session_kernel_handle demo_env (Some ?f) 0 ?v = kernel_spec demo_env [?m] 0 ?v"
    by (rule kernel_handle_frame) (simp_all add: short_def)
  ultimately have "\<exists>out. session_kernel_handle demo_env (Some ?f) 0 ?v = Inr (Some out, joined demo_env 77 0 ?v)"
    by (metis chain_simps(2))
  then obtain w' where w': "complete_op demo_env (Read_body 0 40) False ?f ?w = Inr w'"
    by (auto simp: complete_op_def on_body_answer_and answer_and_def)
  have "node_action demo_env ?w (?x ?f) (complete_op demo_env (Read_body 0 40) False ?f ?w)"
    by (rule node_action.completed [OF w(6)]) (simp add: frame_bytes_def length_frame_body)
  then have act: "node_action demo_env ?w (?x ?f) (Inr w')" by (simp only: w')
  have "reads_frame demo_env 0 ?f ?w (directory w')"
    using node_refines_directory [OF demo_reading_reachable demo_container_law demo_index_law act] by simp
  moreover have "frame_messages demo_env ?f = [(op_code_value join, request, put_uuid 77)]"
    using frame_messages_built [of "[?m]" demo_env] by (simp add: short_def header_fields)
  ultimately have "directory w' = enter 77 (websocket, nil_uuid) (directory ?w)"
    using w(3,4) by (auto simp: reads_frame_def sender_state_def Let_def)
  then show ?thesis using act w(1) by (auto simp: enter_def intro!: exI [of _ ?m] exI [of _ w'])
qed

end
