(* ===== verification/Node_Faults.thy ===== *)
theory Node_Faults
  imports Node_Process Directory_Refinement
begin

text \<open>
  How a node process fails: options that do not parse and ports that cannot be bound while it starts, and
  exceptions that nothing catches in its worker threads, which end the process.  The exceptions are those the
  code throws itself; a failed allocation is not modelled.
\<close>

section \<open>Starting\<close>

datatype startup_error = Bad_options | Tcp_bind_failed | Websocket_bind_failed

text \<open>
  \<^verbatim>\<open>run\<close> with the outcome of the two binds, each the port that was bound or nothing.  An exception leaves \<^verbatim>\<open>run\<close>
  with the members set so far; the signal set is local to \<^verbatim>\<open>run\<close> and goes with it.
\<close>

definition try_run ::
    "16 word option \<Rightarrow> 16 word option \<Rightarrow> node_process \<Rightarrow> (startup_error \<times> node_process) + node_process" where
  "try_run tcp_bound websocket_bound n =
     (case tcp_bound of
        None \<Rightarrow> Inl (Tcp_bind_failed, n)
      | Some p \<Rightarrow>
          (case websocket_bound of
             None \<Rightarrow> Inl (Websocket_bind_failed, n\<lparr>np_world := tcp_listener_start (new_tcp_listener p (np_world n))\<rparr>)
           | Some q \<Rightarrow> Inr (start_node p q n)))"

text \<open>\<^verbatim>\<open>main\<close>: \<open>parsed\<close> are the options, unless Boost.Program_options throws.\<close>

type_synonym options = "nat option \<times> 16 word option \<times> 16 word option \<times> 16 word option"

definition try_main ::
    "env \<Rightarrow> options option \<Rightarrow> 16 word option \<Rightarrow> 16 word option \<Rightarrow> (startup_error \<times> node_process) + node_process" where
  "try_main e parsed tcp_bound websocket_bound =
     (case parsed of
        None \<Rightarrow> Inl (Bad_options, new_node e)
      | Some (th, port, ws, cpn) \<Rightarrow>
          try_run tcp_bound websocket_bound
            ((new_node e)\<lparr>np_world := node_parse_args th port ws cpn (np_world (new_node e))\<rparr>))"

text \<open>
  Starting is all or nothing, but for one flag: \<^verbatim>\<open>main\<close> gets to serve exactly when the options parse and
  both ports can be bound, and then it is the process of \<open>main_process\<close>, with both ports recorded and both
  listeners ready.  In every other case an exception leaves it with no thread started and nothing to signal;
  and when only the WebSocket port cannot be bound, the node still says that its TCP listener is ready,
  though nothing will ever be accepted.
\<close>

lemma startup_outcome:
  "case try_main e parsed tcp_bound websocket_bound of
     Inr n \<Rightarrow> (\<exists>th port ws cpn p q. parsed = Some (th, port, ws, cpn) \<and> tcp_bound = Some p \<and> websocket_bound = Some q \<and>
         n = main_process e th port ws cpn p q \<and>
         tcp_port (w_config (np_world n)) = p \<and> websocket_port (w_config (np_world n)) = q \<and>
         tcp_ready (w_config (np_world n)) \<and> websocket_ready (w_config (np_world n)))
   | Inl (err, n) \<Rightarrow> np_threads n = 0 \<and> \<not> np_signals n \<and> \<not> websocket_ready (w_config (np_world n)) \<and>
       (err = Bad_options \<longleftrightarrow> parsed = None) \<and>
       (err = Tcp_bind_failed \<longleftrightarrow> parsed \<noteq> None \<and> tcp_bound = None) \<and>
       (err = Websocket_bind_failed \<longleftrightarrow> parsed \<noteq> None \<and> tcp_bound \<noteq> None \<and> websocket_bound = None) \<and>
       (tcp_ready (w_config (np_world n)) \<longleftrightarrow> err = Websocket_bind_failed)"
proof (cases parsed)
  case None
  then show ?thesis
    by (simp add: try_main_def new_node_def new_state_def default_configuration_def)
next
  case (Some opts)
  obtain th port ws cpn where o: "opts = (th, port, ws, cpn)" by (cases opts)
  let ?n = "(new_node e)\<lparr>np_world := node_parse_args th port ws cpn (np_world (new_node e))\<rparr>"
  have flags: "\<not> tcp_ready (w_config (np_world ?n))" "\<not> websocket_ready (w_config (np_world ?n))"
    "np_threads ?n = 0" "\<not> np_signals ?n"
    by (simp_all add: new_node_def new_state_def default_configuration_def node_parse_args_def Let_def)
  show ?thesis
  proof (cases tcp_bound)
    case None
    then show ?thesis using Some o flags by (simp add: try_main_def try_run_def)
  next
    case tcp: (Some p)
    show ?thesis
    proof (cases websocket_bound)
      case None
      then show ?thesis
        using Some o tcp flags
        by (simp add: try_main_def try_run_def new_tcp_listener_def tcp_do_accept_def start_op_def)
    next
      case ws: (Some q)
      then have "try_main e parsed tcp_bound websocket_bound = Inr (main_process e th port ws cpn p q)"
        using Some o tcp by (simp add: try_main_def try_run_def main_process_def Let_def)
      moreover have "w_config (np_world (main_process e th port ws cpn p q)) =
          w_config (node_run p q (node_parse_args th port ws cpn (new_state e)))"
        by (simp add: main_process_def start_node_def new_node_def Let_def)
      ultimately show ?thesis
        using Some o tcp ws
        by (simp add: node_run_def websocket_do_accept_def new_websocket_listener_def tcp_do_accept_def
            new_tcp_listener_def start_op_def)
    qed
  qed
qed

section \<open>Exceptions in worker threads\<close>

text \<open>
  A task or a completion handler that throws, in a thread that runs the \<^verbatim>\<open>io_context\<close>.  Nothing catches the
  exception on its way out of the thread, which ends the process.  A completion that throws is named with the
  bytes it delivered.
\<close>

datatype culprit = Task task | Completion io_op "byte list"

inductive process_dies :: "env \<Rightarrow> node_process \<Rightarrow> culprit \<Rightarrow> fault \<Rightarrow> bool" for e where
  task: "0 < np_threads n \<Longrightarrow> \<not> np_stopped n \<Longrightarrow> w_posted (np_world n) = before @ t # after \<Longrightarrow>
    next_on_strand before t \<Longrightarrow> run_task e t ((np_world n)\<lparr>w_posted := before @ after\<rparr>) = Inl f \<Longrightarrow>
    process_dies e n (Task t) f"
| completion: "0 < np_threads n \<Longrightarrow> \<not> np_stopped n \<Longrightarrow> op \<in> set (w_pending (np_world n)) \<Longrightarrow>
    delivers op bytes \<Longrightarrow> complete_op e op error bytes (np_world n) = Inl f \<Longrightarrow>
    process_dies e n (Completion op bytes) f"

text \<open>The public operations of the node, as a caller sees them.\<close>

lemma calls_return:
  assumes "node_ok e w"
  shows "\<exists>r. node_connect e host port w = Inr r" and "\<exists>w'. node_disconnect e n w = Inr w'"
    and "\<exists>w'. node_disconnect_all e w = Inr w'"
proof -
  obtain r w' where "state_connect e host port True (connections_per_node (w_config w)) w = Inr (r, w')"
    using state_connect_evolves [OF assms] by blast
  then show "\<exists>r. node_connect e host port w = Inr r" by (simp add: node_connect_def)
  show "\<exists>w'. node_disconnect e n w = Inr w'" "\<exists>w'. node_disconnect_all e w = Inr w'"
    using remove_sessions_evolves [OF assms]
    by (auto simp: node_disconnect_def state_disconnect_def node_disconnect_all_def disconnect_all_def)
qed

lemma drop_returns: "node_ok e w \<Longrightarrow> \<exists>w'. drop_session e a w = Inr w'"
  by (rule drop_session_evolves) auto

lemma task_returns:
  assumes "node_ok e w"
  shows "\<exists>w'. run_task e t w = Inr w'"
proof (cases t)
  case (Run_connect host port)
  obtain r w' where "state_connect e host port False 0 w = Inr (r, w')"
    using state_connect_evolves [OF assms] by blast
  then show ?thesis by (simp add: run_task_def Run_connect)
qed (auto simp: run_task_def split: session_type.split)

lemma completion_faults:
  assumes "runtime_ok e w" and "op \<in> set (w_pending w)" and "complete_op e op error bytes w = Inl f"
  shows "f = Frame_too_large" and "\<exists>a n. op = Read_body a n \<or> op = Ws_read a"
proof -
  show "f = Frame_too_large"
    using outcome_complete_op [OF assms(1,2), of error bytes] assms(3) by simp
  have ok: "node_ok e (finish_op op w)"
    using runtime_ok_finish(1) [OF assms(1,2)] by (simp add: runtime_ok_def)
  have upd: "node_ok e (update_session a (\<lambda>s. s\<lparr>s_header_length := h\<rparr>) (finish_op op w))" for a h
    by (rule node_ok_update_session [OF _ ok]) simp
  have q: "get_queue a w \<noteq> []" if "op = Write a m \<or> op = Ws_write a m" for a m
    using runtime_ok_finish(4) [OF assms(1,2) that] by simp
  show "\<exists>a n. op = Read_body a n \<or> op = Ws_read a"
  proof (rule ccontr)
    assume no: "\<nexists>a n. op = Read_body a n \<or> op = Ws_read a"
    have "\<exists>w'. complete_op e op error bytes w = Inr w'"
    proof (cases op)
      case (Read_header a)
      then show ?thesis
        using drop_returns [OF upd, of a] by (simp add: complete_op_def tcp_on_header_def Let_def)
    next
      case (Write a m)
      then show ?thesis
        using drop_returns [OF ok] q [of a m] by (auto simp: complete_op_def tcp_on_write_def Let_def split: list.split)
    next
      case (Ws_write a m)
      then show ?thesis
        using drop_returns [OF ok] q [of a m]
        by (auto simp: complete_op_def websocket_on_write_def Let_def split: list.split)
    next
      case (Ws_accept a)
      then show ?thesis
        using drop_returns [OF ok]
        by (cases error) (simp_all add: complete_op_def Let_def websocket_on_accept_eq, simp add: websocket_on_accept_def)
    qed (use no in \<open>auto simp: complete_op_def\<close>)
    then show False using assms(3) by simp
  qed
qed

text \<open>
  Every response but one to a discovery request is at most 51 bytes long, so 65535 of them are far from 4 GiB.
\<close>

lemma payload_sum_append [simp]: "payload_sum (xs @ ys) = payload_sum xs + payload_sum ys"
  by (simp add: payload_sum_def)

lemma small_answers:
  assumes "node_ok e w" and "a < w_next w" and "get_handlers e opcode type b tx payload a w = Inr (b', w')"
    and "\<not> (opcode = op_code_value discovery \<and> type = request)"
  shows "payload_sum (buffers b') \<le> payload_sum (buffers b) + 51"
proof -
  have wf: "container_wf w" using assms(1) by (simp add: node_ok_def)
  note sizes = response_add_ping_def response_add_identify_def response_add_whoami_def payload_sum_def
    response_add_non_implemented_def response_add_join_def response_add_leave_def Let_def
  have "payload_sum (buffers b') \<le> payload_sum (buffers b) + 51"
    if "identify_handler type b tx payload a w = Inr (b', w')"
    using that by (auto simp: identify_handler_eq sizes split: if_splits)
  moreover have "payload_sum (buffers b') \<le> payload_sum (buffers b) + 51"
    if "discovery_handler e type b tx payload a w = Inr (b', w')" "type \<noteq> request"
    using that by (auto simp: discovery_handler_def chain_def split: if_splits sum.splits)
  moreover have "payload_sum (buffers b') \<le> payload_sum (buffers b) + 51"
    if "join_handler e type b tx payload a w = Inr (b', w')"
    using that by (auto simp: join_handler_eq [OF assms(2)] sizes split: if_splits)
  moreover have "payload_sum (buffers b') \<le> payload_sum (buffers b) + 51"
    if "leave_handler type b tx payload a w = Inr (b', w')"
    using that by (auto simp: leave_handler_eq [OF wf] sizes split: if_splits)
  moreover have "payload_sum (buffers b') \<le> payload_sum (buffers b) + 51"
    if "ping_handler type b tx payload a w = Inr (b', w') \<or> whoami_handler type b tx payload a w = Inr (b', w') \<or>
      non_implemented_handler type b tx payload a w = Inr (b', w')"
    using that by (auto simp: ping_handler_def whoami_handler_def non_implemented_handler_def sizes split: if_splits)
  ultimately show ?thesis
    using assms(3,4) by (auto simp: get_handlers_def fun_upd_apply split: if_splits)
qed

definition asks_discovery :: "message list \<Rightarrow> bool" where
  "asks_discovery ms \<longleftrightarrow> (\<exists>payload. (op_code_value discovery, request, payload) \<in> set ms)"

lemma requests_small:
  assumes "node_ok e w" and "a < w_next w" and "offset \<le> length frame - 2"
    and "handle_requests (get_handlers e) frame ls offset b a w = Inr (Some b', w')"
    and "\<not> asks_discovery (cut_messages (drop offset (take (length frame - 2) frame)) (map unat ls))"
  shows "payload_sum (buffers b') \<le> payload_sum (buffers b) + 51 * length ls"
  using assms
proof (induction ls arbitrary: offset b w)
  case Nil
  then show ?case by simp
next
  case (Cons l ls)
  let ?op = "hd (take 1 (drop offset frame))" and ?type = "hd (take 1 (drop (offset + 1) frame))"
  let ?tx = "get_uuid (take 16 (drop (offset + 2) frame))"
  let ?payload = "take (unat l - 18) (drop (offset + 18) frame)"
  have fits: "\<not> (length frame - 2 - offset < unat l \<or> unat l < 18)"
    using Cons.prems(4) by (auto split: if_splits)
  have room: "offset + unat l \<le> length frame - 2"
    using fits Cons.prems(3) by linarith
  obtain b1 v where v: "get_handlers e ?op ?type b ?tx ?payload a w = Inr (b1, v)"
    "handle_requests (get_handlers e) frame ls (offset + unat l) b1 a v = Inr (Some b', w')"
    using Cons.prems(4) unfolding handle_requests_message [OF fits Cons.prems(3)]
    by (auto simp: chain_def split: sum.splits prod.splits)
  have kept: "node_ok e v" "evolves w v"
    using table.answers [OF Cons.prems(1,2), of ?op ?type b ?tx ?payload] v(1) by auto
  have rest: "\<not> asks_discovery (cut_messages (drop (offset + unat l) (take (length frame - 2) frame)) (map unat ls))"
    and first: "\<not> (?op = op_code_value discovery \<and> ?type = request)"
    using Cons.prems(5) unfolding cut_at [OF Cons.prems(3)] if_not_P [OF fits] asks_discovery_def by auto
  have "payload_sum (buffers b') \<le> payload_sum (buffers b1) + 51 * length ls"
    using Cons.IH [OF kept(1) _ room v(2) rest] evolves_next [OF kept(2)] Cons.prems(2) by simp
  moreover have "payload_sum (buffers b1) \<le> payload_sum (buffers b) + 51"
    by (rule small_answers [OF Cons.prems(1,2) v(1) first])
  ultimately show ?case by simp
qed

lemma kernel_overflow:
  assumes "node_ok e w" and "a < w_next w" and "session_kernel_handle e (Some frame) a w = Inl f"
  shows "asks_discovery (frame_messages e frame)"
proof (cases rule: kernel_parses [of e frame a w])
  case dropped
  then show ?thesis using assms(3) by simp
next
  case (parsed ls offset)
  obtain r v where r: "handle_requests (get_handlers e) frame ls offset as_response a w = Inr (r, v)"
    "\<And>b. r = Some b \<Longrightarrow> length (buffers b) \<le> length ls"
    using table.handle_requests_total [OF assms(1,2) parsed(1,2), of ls as_response]
    by (force simp: as_response_def split: option.splits)
  then obtain b where b: "r = Some b" "get_data (crc_ccitt e) b (get_type a v = tcp) = Inl f"
    using assms(3) unfolding parsed(5) by (auto simp: chain_def split: option.splits sum.splits)
  have "max_frame_payload_size < payload_sum (buffers b)"
    using b r(2) [OF b(1)] parsed(3)
    by (cases rule: get_data_cases [of b "crc_ccitt e" "get_type a v = tcp"])
      (auto simp: max_requests_per_frame_def get_data_frame_bytes)
  then show ?thesis
    using requests_small [OF assms(1,2) parsed(2), of ls as_response b v] r(1) b(1) parsed(3,4)
    by (auto simp: max_frame_payload_size_def payload_sum_def as_response_def)
qed

lemma completion_overflow:
  assumes "runtime_ok e w" and "op \<in> set (w_pending w)" and "complete_op e op error bytes w = Inl f"
  shows "asks_discovery (frame_messages e bytes)"
proof -
  have ok: "node_ok e (finish_op op w)"
    using runtime_ok_finish(1) [OF assms(1,2)] by (simp add: runtime_ok_def)
  obtain a k where op: "op = Read_body a k \<or> op = Ws_read a"
    using completion_faults(2) [OF assms] by blast
  have lt: "a < w_next (finish_op op w)"
    using runtime_ok_finish(3) [OF assms(1,2), of a] op by auto
  have "\<not> error"
    using drop_returns [OF ok, of a] op assms(3)
    by (auto simp: complete_op_def tcp_on_body_def websocket_on_read_def)
  then have "session_kernel_handle e (Some bytes) a (finish_op op w) = Inl f"
    using op assms(3) by (auto simp: complete_op_def on_body_answer_and answer_and_def chain_def
        split: sum.splits option.splits)
  then show ?thesis by (rule kernel_overflow [OF ok lt])
qed

text \<open>
  C16. Of the exceptions the code throws itself, only one ends a running node: in every reachable state of the
  process no task throws, and a completion handler throws only when the bytes it got are a frame with a
  discovery request among its messages, and then the overflow error of an answer over 4 GiB; the public
  operations throw nothing at their caller.  Frames of any other messages, however many and from whomever,
  cannot do it.  The \<^verbatim>\<open>std::bad_alloc\<close> of a failed allocation is outside the model.
\<close>

theorem process_dies_only_by_overflow:
  assumes "reachable_process e th n" and "container_law e" and "index_law e"
  shows "(process_dies e n c f \<longrightarrow>
      f = Frame_too_large \<and>
      (\<exists>a k bytes payload. (c = Completion (Read_body a k) bytes \<or> c = Completion (Ws_read a) bytes) \<and>
         (op_code_value discovery, request, payload) \<in> set (frame_messages e bytes))) \<and>
    (\<exists>r. node_connect e host port (np_world n) = Inr r) \<and>
    (\<exists>w'. node_disconnect e i (np_world n) = Inr w') \<and> (\<exists>w'. node_disconnect_all e (np_world n) = Inr w')"
proof -
  have run: "runtime_ok e (np_world n)"
    by (rule reachable_runtime_ok [OF process_invariant(1) [OF assms(1)] assms(2,3)])
  then have ok: "node_ok e (np_world n)" by (simp add: runtime_ok_def)
  have "f = Frame_too_large \<and>
      (\<exists>a k bytes payload. (c = Completion (Read_body a k) bytes \<or> c = Completion (Ws_read a) bytes) \<and>
         (op_code_value discovery, request, payload) \<in> set (frame_messages e bytes))"
    if "process_dies e n c f"
    using that
  proof cases
    case (task before t "after")
    have "node_ok e ((np_world n)\<lparr>w_posted := before @ after\<rparr>)"
      using runtime_ok_take_task(1) [OF run task(4)] by (simp add: runtime_ok_def)
    from task_returns [OF this, of t] show ?thesis using task(6) by auto
  next
    case (completion op bytes error)
    show ?thesis
      using completion_faults [OF run completion(4,6)] completion_overflow [OF run completion(4,6)] completion(1)
      unfolding asks_discovery_def by blast
  qed
  then show ?thesis using calls_return [OF ok] by blast
qed

section \<open>Provoking it\<close>

lemma length_discovery_payload:
  "length (discovery_payload nodes) = 4 + (\<Sum>(host, port) \<leftarrow> nodes. 4 + length host)"
proof -
  have "length (concat (map (\<lambda>(host, port). put16 port @ put16 (of_nat (length host))) nodes)) +
      length (concat (map (\<lambda>(host, port). string_bytes host) nodes)) = (\<Sum>(host, port) \<leftarrow> nodes. 4 + length host)"
    by (induction nodes) auto
  then show ?thesis by (simp add: discovery_payload_def)
qed

lemma process_discoveries:
  "process (get_handlers e) (replicate k (message_header 3 request tx)) b a w =
     Inr (Some (((response_add_discovery tx (discovered_nodes a w)) ^^ k) b), w)"
proof (induction k arbitrary: b)
  case 0
  then show ?case by simp
next
  case (Suc k)
  have "process (get_handlers e) (replicate (Suc k) (message_header 3 request tx)) b a w =
      process (get_handlers e) (replicate k (message_header 3 request tx))
        (response_add_discovery tx (discovered_nodes a w) b) a w"
    using header_fields [of 3 request tx "[]"] by (simp add: get_handlers_def discovery_handler_def)
  then show ?case using Suc.IH by (simp add: funpow_swap1)
qed

lemma buffers_discoveries:
  "buffers (((response_add_discovery tx nodes) ^^ k) b) =
     buffers b @ replicate k (message_header 3 response tx @ discovery_payload nodes)"
  by (induction k) (simp_all add: response_add_discovery_def Let_def replicate_append_same flip: replicate_Suc)

lemma payload_sum_replicate: "payload_sum (replicate k m) = k * length m"
  by (simp add: payload_sum_def sum_list_replicate)

lemma kernel_of_discoveries:
  assumes "k \<le> 65535"
    and "max_frame_payload_size < k * (22 + (\<Sum>(host, port) \<leftarrow> discovered_nodes a w. 4 + length host))"
  shows "session_kernel_handle e
    (Some (frame_bytes (crc_ccitt e) False (replicate k (message_header 3 request tx)))) a w = Inl Frame_too_large"
proof -
  let ?b = "((response_add_discovery tx (discovered_nodes a w)) ^^ k) as_response"
  have bufs: "buffers ?b = replicate k (message_header 3 response tx @ discovery_payload (discovered_nodes a w))"
    by (simp add: buffers_discoveries)
  then have large: "max_frame_payload_size < payload_sum (buffers ?b)"
    using assms(2) by (simp add: payload_sum_replicate length_discovery_payload add.assoc)
  have "get_data (crc_ccitt e) ?b h = Inl Frame_too_large" for h
  proof (cases rule: get_data_cases [of ?b "crc_ccitt e" h])
    case empty
    then show ?thesis using large by (simp add: payload_sum_def max_frame_payload_size_def)
  next
    case many
    then show ?thesis using assms(1) by (simp add: bufs max_requests_per_frame_def)
  next
    case fits
    then show ?thesis using large by (simp add: frame_fits_def)
  qed
  moreover have "list_all short (replicate k (message_header 3 request tx))"
    by (simp add: list_all_iff short_def)
  ultimately show ?thesis
    using kernel_handle_frame [of "replicate k (message_header 3 request tx)" e a w] assms(1)
    by (simp add: kernel_spec_def process_discoveries)
qed

text \<open>
  C39. A remote process can end the node: a frame of up to 65535 discovery requests, 18 bytes each, is answered
  about every session of other nodes; where the hosts these sessions announced (a peer announces any host,
  of up to 65497 bytes, in its identify request) are long enough that the answers exceed 4 GiB together,
  handling the frame throws in the worker thread, over TCP or over WebSocket.
\<close>

theorem discovery_flood_kills:
  assumes "k \<le> 65535"
    and "max_frame_payload_size < k * (22 + (\<Sum>(host, port) \<leftarrow> discovered_nodes a (np_world n). 4 + length host))"
    and "frame = frame_bytes (crc_ccitt e) False (replicate k (message_header 3 request tx))"
    and "op = Read_body a (length frame) \<or> op = Ws_read a" and "op \<in> set (w_pending (np_world n))"
    and "0 < np_threads n" and "\<not> np_stopped n"
  shows "process_dies e n (Completion op frame) Frame_too_large"
proof -
  let ?w = "finish_op op (np_world n)"
  have "discovered_nodes a ?w = discovered_nodes a (np_world n)"
    by (simp add: discovered_nodes_def get_host_def get_port_def get_node_id_def) (simp add: finish_op_def)
  then have "session_kernel_handle e (Some frame) a ?w = Inl Frame_too_large"
    using kernel_of_discoveries [OF assms(1), of a ?w e tx] assms(2,3) by simp
  then have "complete_op e op False frame (np_world n) = Inl Frame_too_large"
    using assms(4) by (auto simp: complete_op_def on_body_answer_and answer_and_def)
  moreover have "delivers op frame" using assms(4) by auto
  ultimately show ?thesis using assms(5-7) by (intro process_dies.completion)
qed

section \<open>A concrete process\<close>

text \<open>A process one of whose sessions has read the header of a frame and waits for its 40 bytes.\<close>

definition demo_process :: node_process where
  "demo_process = (main_process demo_env (Some 2) None None (Some 3) 7000 7001)\<lparr>np_world := demo_reading 40\<rparr>"

lemma demo_process_reachable: "reachable_process demo_env (Some 2) demo_process"
proof -
  let ?n = "main_process demo_env (Some 2) None None (Some 3) 7000 7001"
  have n: "reachable_process demo_env (Some 2) ?n" by (rule reachable_process.start)
  have start: "np_world ?n = demo_started" "0 < np_threads ?n" "\<not> np_stopped ?n"
    by (simp_all add: main_process_def start_node_def new_node_def demo_started_def node_run_def Let_def
        websocket_do_accept_def new_websocket_listener_def tcp_do_accept_def new_tcp_listener_def node_parse_args_def
        start_op_def)
  have "reachable_process demo_env (Some 2) (?n\<lparr>np_world := demo_accepted\<rparr>)"
    by (rule attempt_process [OF n]) (simp_all add: start demo_accept_attempt)
  from attempt_process [OF this, of "start_op (Read_header 0) (demo_accepted\<lparr>w_posted := []\<rparr>)"]
  have "reachable_process demo_env (Some 2) (?n\<lparr>np_world := start_op (Read_header 0) (demo_accepted\<lparr>w_posted := []\<rparr>)\<rparr>)"
    by (simp add: start demo_reading_attempts(1))
  from attempt_process [OF this, of "demo_reading 40"] show ?thesis
    by (simp add: start demo_reading_attempts(2) demo_process_def)
qed

text \<open>A join request in these 40 bytes does not end the process.\<close>

theorem process_dies_only_by_overflow_witness:
  "\<exists>m. frame_messages demo_env (frame_bytes crc_16_ccitt False [m]) = [(op_code_value join, request, put_uuid 77)] \<and>
     \<not> process_dies demo_env demo_process (Completion (Read_body 0 40) (frame_bytes crc_16_ccitt False [m])) Frame_too_large"
proof (intro exI conjI notI)
  let ?m = "message_header (op_code_value join) request 6 @ put_uuid 77"
  show m: "frame_messages demo_env (frame_bytes crc_16_ccitt False [?m]) = [(op_code_value join, request, put_uuid 77)]"
    using frame_messages_built [of "[?m]" demo_env] by (simp add: short_def header_fields)
  assume "process_dies demo_env demo_process (Completion (Read_body 0 40) (frame_bytes crc_16_ccitt False [?m])) Frame_too_large"
  then obtain payload where "(op_code_value discovery, request, payload) \<in> set (frame_messages demo_env (frame_bytes crc_16_ccitt False [?m]))"
    using process_dies_only_by_overflow [OF demo_process_reachable demo_container_law demo_index_law,
        of "Completion (Read_body 0 40) (frame_bytes crc_16_ccitt False [?m])" Frame_too_large, THEN conjunct1] by auto
  then show False unfolding m by simp
qed

text \<open>The demo node with two sessions of another node that announced long hosts, and a reading client.\<close>

definition demo_long :: node_process where
  "demo_long =
     \<lparr>np_world = demo_world\<lparr>w_heap := (\<lambda>a. (demo_heap a)\<lparr>s_host := replicate 33000 CHR ''a''\<rparr>),
        w_pending := [Ws_read 2]\<rparr>,
      np_stopped = False, np_threads = 1, np_signals = True\<rparr>"

theorem discovery_flood_kills_witness:
  "\<exists>frame. process_dies demo_env demo_long (Completion (Ws_read 2) frame) Frame_too_large"
proof (rule exI, rule discovery_flood_kills [OF _ _ refl])
  show "max_frame_payload_size < 65535 *
      (22 + (\<Sum>(host, port) \<leftarrow> discovered_nodes 2 (np_world demo_long). 4 + length host))"
    by (simp add: demo_long_def discovered_nodes_def get_node_id_def get_host_def max_frame_payload_size_def)
  show "Ws_read 2 = Read_body 2 (length frame) \<or> Ws_read 2 = Ws_read 2" for frame :: "byte list" by simp
qed (simp_all add: demo_long_def)

end
