(* ===== verification/Presence.thy ===== *)
theory Presence
  imports Cluster_Directory Client_Exchange
begin

text \<open>
  How one node learns of the WebSocket clients of another: a node announces a client with a join request
  when its handshake completes and withdraws it with a leave request when its session is removed, each
  broadcast once to every peer; the peer keeps a stand-in session for it.  The peer's directory is
  compared with the events of the announcing node, across any number of clients coming and going.
\<close>

section \<open>Presence of clients\<close>

datatype presence = Arrived uuid | Departed uuid

text \<open>What an event means for the directory of a peer that reads it from a session of node \<open>n\<close>.\<close>

fun presence_event :: "uuid \<Rightarrow> presence \<Rightarrow> directory \<Rightarrow> directory" where
  "presence_event n (Arrived i) d = (if d i = None then d(i \<mapsto> (websocket, n)) else d)"
| "presence_event n (Departed i) d = d(i := None)"

text \<open>
  The operations of a node that tell its peers: a completed handshake, and the removal of a session,
  whoever calls for it.
\<close>

datatype client_change = Handshake addr | Removal uuid

fun change_client :: "env \<Rightarrow> client_change \<Rightarrow> world \<Rightarrow> fault + world" where
  "change_client e (Handshake a) w = complete_op e (Ws_accept a) False [] w"
| "change_client e (Removal i) w = chain (remove_session e i w) (\<lambda>(removed, w'). Inr w')"

fun presence_of :: "client_change \<Rightarrow> world \<Rightarrow> presence list" where
  "presence_of (Handshake a) w = [Arrived (get_id a w)]"
| "presence_of (Removal i) w =
     (case find_by_id w i of
        None \<Rightarrow> []
      | Some a \<Rightarrow> (case get_type a w of tcp \<Rightarrow> [] | websocket \<Rightarrow> [Departed i]))"

fun change_clients :: "env \<Rightarrow> client_change list \<Rightarrow> world \<Rightarrow> fault + (presence list \<times> world)" where
  "change_clients e [] w = Inr ([], w)"
| "change_clients e (c # cs) w =
     chain (change_client e c w) (\<lambda>w1.
       chain (change_clients e cs w1) (\<lambda>(ps, w2). Inr (presence_of c w @ ps, w2)))"

section \<open>The targets of a broadcast\<close>

lemma distinct_targets: "distinct (broadcast_targets w)"
  using collect_targets_distinct [of w "[]" "w_sessions w"]
  by (auto simp: broadcast_targets_def distinct_map)

lemma collect_targets_fewer_visited:
  "p \<in> set (collect_targets w vis as) \<Longrightarrow> set vis' \<subseteq> set vis \<Longrightarrow> p \<in> set (collect_targets w vis' as)"
proof (induction as arbitrary: vis vis')
  case (Cons a as)
  show ?case
  proof (cases "get_type a w = tcp \<and> get_node_id a w \<notin> set vis")
    case True
    then show ?thesis
      using Cons.prems Cons.IH [of "vis @ [get_node_id a w]" "vis' @ [get_node_id a w]"] by auto
  next
    case False
    then have "p \<in> set (collect_targets w vis as)"
      using Cons.prems(1) by (simp split: if_splits)
    moreover from this have "get_type a w = tcp \<Longrightarrow> get_node_id a w \<noteq> get_node_id p w"
      using False by (auto dest: collect_targets_sound)
    ultimately show ?thesis
      using Cons.IH [of vis vis'] Cons.IH [of vis "vis' @ [get_node_id a w]"] Cons.prems(2) False by auto
  qed
qed simp

text \<open>A target stays one when another session leaves the container.\<close>

lemma target_survives_removal:
  "p \<in> set (collect_targets w vis as) \<Longrightarrow> b \<noteq> p \<Longrightarrow> p \<in> set (collect_targets w vis (remove1 b as))"
proof (induction as arbitrary: vis)
  case (Cons a as)
  then show ?case
    using collect_targets_fewer_visited [of p w "vis @ [get_node_id a w]" as vis] by (auto split: if_splits)
qed simp


section \<open>What the announcing node sends\<close>

text \<open>
  The messages a change sends to a peer: one frame with the join or leave request for each event.
\<close>

fun presence_payload :: "presence \<Rightarrow> uuid \<Rightarrow> byte list" where
  "presence_payload (Arrived i) tx = join_payload i tx"
| "presence_payload (Departed i) tx = leave_payload i tx"

definition presence_frame :: "env \<Rightarrow> presence \<Rightarrow> byte list \<Rightarrow> bool" where
  "presence_frame e ev m \<longleftrightarrow> (\<exists>tx. m = frame_bytes (crc_ccitt e) True [presence_payload ev tx])"

text \<open>A peer to whom broadcasts go, and that is not being removed.\<close>

definition hears :: "addr \<Rightarrow> world \<Rightarrow> bool" where
  "hears p w \<longleftrightarrow> p \<in> set (broadcast_targets w)"

lemma hears_cong:
  assumes "w_sessions v = w_sessions w"
    and "\<And>a. s_type (w_heap v a) = s_type (w_heap w a)"
    and "\<And>a. s_node_id (w_heap v a) = s_node_id (w_heap w a)"
  shows "hears p v \<longleftrightarrow> hears p w"
  by (simp add: hears_def broadcast_targets_cong [OF assms])

lemma hears_erase:
  assumes "hears p w" and "a \<noteq> p"
  shows "hears p (container_erase a w)"
proof -
  have "collect_targets (container_erase a w) vis as = collect_targets w vis as" for vis as
    by (induction as arbitrary: vis) (simp_all add: get_type_def get_node_id_def container_erase_def)
  then show ?thesis
    using assms target_survives_removal [of p w "[]" "w_sessions w" a]
    by (simp add: hears_def broadcast_targets_def) (simp add: container_erase_def)
qed

lemma sends_to_heard:
  "hears p w \<Longrightarrow> sends_to p (map (\<lambda>b. Run_on_send b m) (broadcast_targets w)) = [m]"
  by (simp add: hears_def sends_to_broadcast [OF distinct_targets])

definition announces :: "env \<Rightarrow> addr \<Rightarrow> world \<Rightarrow> presence list \<Rightarrow> world \<Rightarrow> bool" where
  "announces e p w ps w' \<longleftrightarrow> node_ok e w' \<and> hears p w' \<and> get_id p w' = get_id p w \<and>
     (\<exists>ts. w_posted w' = w_posted w @ ts \<and> list_all2 (presence_frame e) ps (sends_to p ts))"

lemma handshake_announces:
  assumes "node_ok e w" and "hears p w"
  shows "\<exists>w'. change_client e (Handshake a) w = Inr w' \<and> announces e p w (presence_of (Handshake a) w) w'"
proof -
  define u where "u = update_session a (\<lambda>s. s\<lparr>s_open := True\<rparr>) (finish_op (Ws_accept a) w)"
  define m where "m = frame_bytes (crc_ccitt e) True [join_payload (get_id a u) (random_uuid e (w_rng u))]"
  define v where "v = u\<lparr>w_rng := Suc (w_rng u),
    w_posted := w_posted u @ map (\<lambda>b. Run_on_send b m) (broadcast_targets u), w_pending := w_pending u @ [Ws_read a]\<rparr>"
  have run: "change_client e (Handshake a) w = Inr v"
    by (simp add: complete_op_def Let_def websocket_on_accept_eq u_def v_def m_def)
  have "node_ok e (finish_op (Ws_accept a) w)"
    using assms(1) by (simp add: node_ok_def finish_op_def container_wf_def)
  then have "node_ok e u"
    unfolding u_def by (intro node_ok_update_session) simp_all
  then have ok: "node_ok e v"
    by (simp add: node_ok_def container_wf_def v_def)
  have hears: "hears p u" "hears p v"
    using assms(2) hears_cong [of u w p] hears_cong [of v u p] by (simp_all add: u_def v_def update_session_def)
  have id: "get_id b u = get_id b w" "get_id b v = get_id b w" for b
    by (simp_all add: u_def v_def get_id_def update_session_def)
  have "w_posted v = w_posted w @ map (\<lambda>b. Run_on_send b m) (broadcast_targets u)"
    by (simp add: v_def) (simp add: u_def update_session_def)
  moreover have "presence_frame e (Arrived (get_id a w)) m"
    by (auto simp: presence_frame_def m_def id)
  ultimately have "\<exists>ts. w_posted v = w_posted w @ ts \<and>
      list_all2 (presence_frame e) (presence_of (Handshake a) w) (sends_to p ts)"
    by (simp add: sends_to_heard [OF hears(1)])
  then show ?thesis
    using run ok hears(2) id(2) by (simp add: announces_def del: change_client.simps)
qed

lemma removal_announces:
  assumes "node_ok e w" and "hears p w" and "i \<noteq> get_id p w"
  shows "\<exists>w'. change_client e (Removal i) w = Inr w' \<and> announces e p w (presence_of (Removal i) w) w'"
proof (cases "find_by_id w i")
  case None
  then show ?thesis
    using assms by (simp add: remove_session_def announces_def)
next
  case (Some a)
  let ?u = "container_erase a w"
  have a: "get_id a w = i"
    using Some assms(1) by (simp add: node_ok_def find_by_id_eq_Some get_id_def)
  then have hu: "hears p ?u"
    using assms(2,3) by (intro hears_erase) auto
  have same: "get_type a ?u = get_type a w" "get_id b ?u = get_id b w" for b
    by (simp_all add: get_type_def get_id_def container_erase_def)
  obtain v where v: "session_disconnect e a ?u = Inr v"
    "v = (case get_type a w of tcp \<Rightarrow> close_socket a ?u
      | websocket \<Rightarrow> (close_socket a ?u)\<lparr>w_rng := Suc (w_rng ?u), w_posted := w_posted ?u @ leave_tasks e a ?u\<rparr>)"
    by (simp add: session_disconnect_eq same)
  then have r: "remove_session e i w = Inr (True, v)"
    using Some by (simp add: remove_session_def)
  then have "node_ok e v"
    using remove_session_evolves [OF assms(1), of i] by auto
  moreover have "hears p v"
    using hu hears_cong [of v ?u p] by (simp add: v(2) split: session_type.split)
  moreover have "get_id p v = get_id p w"
    by (simp add: v(2) get_id_def container_erase_def split: session_type.split)
  moreover have "presence_frame e (Departed i)
      (frame_bytes (crc_ccitt e) True [leave_payload (get_id a ?u) (random_uuid e (w_rng ?u))])"
    by (auto simp: presence_frame_def same a)
  then have "list_all2 (presence_frame e) [Departed i] (sends_to p (leave_tasks e a ?u))"
    by (simp add: leave_tasks_def sends_to_heard [OF hu])
  then have "\<exists>ts. w_posted v = w_posted w @ ts \<and>
      list_all2 (presence_frame e) (presence_of (Removal i) w) (sends_to p ts)"
    by (cases "get_type a w") (simp_all add: v(2) Some, simp_all add: container_erase_def)
  ultimately show ?thesis
    using r by (simp add: announces_def)
qed

lemma change_announces:
  assumes "node_ok e w" and "hears p w" and "c \<noteq> Removal (get_id p w)"
  shows "\<exists>w'. change_client e c w = Inr w' \<and> announces e p w (presence_of c w) w'"
  using assms by (cases c) (auto intro!: handshake_announces removal_announces simp del: change_client.simps presence_of.simps)

lemma announces_trans:
  assumes "announces e p u ps v" and "announces e p v qs w"
  shows "announces e p u (ps @ qs) w"
proof -
  obtain ss ts where "w_posted v = w_posted u @ ss" "list_all2 (presence_frame e) ps (sends_to p ss)"
    "w_posted w = w_posted v @ ts" "list_all2 (presence_frame e) qs (sends_to p ts)"
    using assms unfolding announces_def by blast
  then have "w_posted w = w_posted u @ (ss @ ts)"
    "list_all2 (presence_frame e) (ps @ qs) (sends_to p (ss @ ts))"
    by (simp_all add: list_all2_appendI)
  then show ?thesis
    using assms unfolding announces_def by metis
qed

lemma changes_announce:
  assumes "node_ok e w" and "hears p w" and "Removal (get_id p w) \<notin> set cs"
  shows "\<exists>ps w'. change_clients e cs w = Inr (ps, w') \<and> announces e p w ps w'"
  using assms
proof (induction cs arbitrary: w)
  case Nil
  then show ?case by (simp add: announces_def)
next
  case (Cons c cs)
  then obtain v where v: "change_client e c w = Inr v" "announces e p w (presence_of c w) v"
    using change_announces [of e w p c] by auto
  then have "node_ok e v" "hears p v" "Removal (get_id p v) \<notin> set cs"
    using Cons.prems(3) by (simp_all add: announces_def)
  from Cons.IH [OF this] obtain ps w' where "change_clients e cs v = Inr (ps, w')" "announces e p v ps w'"
    by blast
  then show ?case
    using v announces_trans [OF v(2)] by auto
qed

section \<open>What the peer makes of it\<close>

lemma get_type_evolves: "evolves w w' \<Longrightarrow> a < w_next w \<Longrightarrow> get_type a w' = get_type a w"
  by (simp add: evolves_def same_core_def get_type_def)

text \<open>One frame, through the parser and the handler, and the answer that is sent.\<close>

lemma request_answered:
  assumes "get_handlers e op request as_response tx rest a w = Inr (b, w')"
    and "length (buffers b) = 1" and "payload_sum (buffers b) \<le> 1000" and "length rest < 60000"
    and "get_type a w' = get_type a w"
  shows "\<exists>out. get_data (crc_ccitt e) b (get_type a w = tcp) = Inr out \<and> session_kernel_handle e
    (Some (frame_bytes (crc_ccitt e) False [message_header op request tx @ rest])) a w = Inr (Some out, w')"
proof -
  have "process (get_handlers e) [message_header op request tx @ rest] as_response a w = Inr (Some b, w')"
    unfolding process_one using assms(1) by simp
  moreover obtain out where "get_data (crc_ccitt e) b (get_type a w = tcp) = Inr out"
    using one_response_fits [OF assms(2,3)] by blast
  ultimately show ?thesis
    using kernel_handle_frame [of "[message_header op request tx @ rest]" e a w] assms(4,5)
    by (simp add: kernel_spec_def short_def)
qed

lemma presence_handled:
  assumes "node_ok e w" and "a < w_next w" and "get_type a w = tcp"
  shows "\<exists>w' out. session_kernel_handle e
      (Some (frame_bytes (crc_ccitt e) False [presence_payload ev tx])) a w = Inr (Some out, w') \<and>
    node_ok e w' \<and> evolves w w' \<and> get_node_id a w' = get_node_id a w \<and>
    directory w' = presence_event (get_node_id a w) ev (directory w) \<and>
    (\<exists>b. list_all is_response (buffers b) \<and> buffers b \<noteq> [] \<and> get_data (crc_ccitt e) b True = Inr out)"
proof (cases ev)
  case (Arrived i)
  let ?v = "joined e i a w"
  let ?b = "response_add_join tx (of_nat (count_by_id ?v i)) as_response"
  have h: "get_handlers e (op_code_value join) request as_response tx (put_uuid i) a w = Inr (?b, ?v)"
    using assms(2,3) by (simp add: get_handlers_def join_handler_eq)
  note v = joined_registry [OF assms(1), of i a]
  have "w_heap ?v a = w_heap w a"
    using assms(2) by (simp add: joined_def add_session_def container_insert_def with_stand_in_def split: option.split)
  then have n: "get_node_id a ?v = get_node_id a w" "get_type a ?v = get_type a w"
    by (simp_all add: get_node_id_def get_type_def)
  have "length (buffers ?b) = 1" "payload_sum (buffers ?b) \<le> 1000" "list_all is_response (buffers ?b)"
    by (simp_all add: response_add_join_def response_to_is_response [OF response_to_header])
  with request_answered [OF h _ _ _ n(2)] show ?thesis
    using v(2,3) n(1) assms(3)
    by (auto simp: Arrived join_payload_def directory_joined [OF assms(1)] enter_def simp del: append_assoc
        intro!: exI [of _ ?v] exI [of _ ?b])
next
  case (Departed i)
  let ?v = "left_by i w"
  let ?b = "response_add_leave tx (of_nat (count_by_id w i)) as_response"
  have h: "get_handlers e (op_code_value leave) request as_response tx (put_uuid i) a w = Inr (?b, ?v)"
    using assms by (simp add: get_handlers_def leave_handler_eq node_ok_def)
  note v = left_registry [OF assms(1), of i]
  have "w_heap ?v = w_heap w"
    by (simp add: left_by_def container_erase_def split: option.split)
  then have n: "get_node_id a ?v = get_node_id a w" "get_type a ?v = get_type a w"
    by (simp_all add: get_node_id_def get_type_def)
  have "length (buffers ?b) = 1" "payload_sum (buffers ?b) \<le> 1000" "list_all is_response (buffers ?b)"
    by (simp_all add: response_add_leave_def response_to_is_response [OF response_to_header])
  with request_answered [OF h _ _ _ n(2)] show ?thesis
    using v(2,3) n(1) assms(3)
    by (auto simp: Departed leave_payload_def directory_left [OF assms(1)] simp del: append_assoc
        intro!: exI [of _ ?v] exI [of _ ?b])
qed

lemma presence_frame_body: "presence_frame e ev m \<Longrightarrow>
    \<exists>tx. drop 4 m = frame_bytes (crc_ccitt e) False [presence_payload ev tx]"
  by (auto simp: presence_frame_def frame_bytes_def)

lemma directory_update_header [simp]:
  "directory (update_session a (\<lambda>s. s\<lparr>s_header_length := n\<rparr>) w) = directory w"
  by (simp add: directory_update_session)

lemma presence_frame_answered:
  assumes "node_ok e w" and "a < w_next w" and "get_type a w = tcp" and "presence_frame e' ev m"
    and "crc_ccitt e' = crc_ccitt e"
  shows "\<exists>w'. answer_frame e a m w = Inr w' \<and> node_ok e w' \<and> a < w_next w' \<and> get_type a w' = tcp \<and>
    get_node_id a w' = get_node_id a w \<and> directory w' = presence_event (get_node_id a w) ev (directory w)"
proof -
  let ?u = "update_session a (\<lambda>s. s\<lparr>s_header_length := get32 (take 4 m)\<rparr>) w"
  obtain tx where m: "drop 4 m = frame_bytes (crc_ccitt e) False [presence_payload ev tx]"
    using presence_frame_body [OF assms(4)] assms(5) by auto
  have u: "node_ok e ?u" "a < w_next ?u" "get_type a ?u = tcp" "get_node_id a ?u = get_node_id a w"
    using assms(1-3) by (simp_all add: node_ok_update_session)
      (simp_all add: update_session_def get_type_def get_node_id_def)
  obtain v out where v: "session_kernel_handle e (Some (drop 4 m)) a ?u = Inr (Some out, v)" "node_ok e v"
    "evolves ?u v" "get_node_id a v = get_node_id a w"
    "directory v = presence_event (get_node_id a w) ev (directory w)"
    using presence_handled [OF u(1-3), of ev tx] by (auto simp: m u(4))
  have "answer_frame e a m w = Inr (session_send a out v)"
    by (simp add: answer_frame_def answer_and_def v(1))
  moreover have "a < w_next v" "get_type a v = tcp"
    using get_type_evolves [OF v(3) u(2)] evolves_next [OF v(3)] u(2,3) by simp_all
  ultimately show ?thesis
    using v(2,4,5) by (simp add: get_type_def get_node_id_def) (simp add: session_send_eq)
qed

lemma presence_frames_handled:
  assumes "list_all2 (presence_frame e') ps ms" and "node_ok e w" and "a < w_next w" and "get_type a w = tcp"
    and "crc_ccitt e' = crc_ccitt e"
  shows "\<exists>w'. handle_frames e a ms w = Inr w' \<and> node_ok e w' \<and>
    directory w' = fold (presence_event (get_node_id a w)) ps (directory w)"
  using assms(1-4)
proof (induction ps ms arbitrary: w rule: list_all2_induct)
  case Nil
  then show ?case by simp
next
  case (Cons ev ps m ms)
  obtain v where v: "answer_frame e a m w = Inr v" "node_ok e v" "a < w_next v" "get_type a v = tcp"
    "get_node_id a v = get_node_id a w" "directory v = presence_event (get_node_id a w) ev (directory w)"
    using presence_frame_answered [OF Cons.prems Cons.hyps(1) assms(5)] by blast
  then show ?case using Cons.IH [OF v(2-4)] by auto
qed

section \<open>Replication\<close>

text \<open>
  C10. A peer replicates who is connected: whatever WebSocket clients of a node complete their handshakes and
  whatever sessions are removed, in any order, the node never raises, and the frames it posts for a peer
  that hears its broadcasts, read by that peer in the order of posting, change the peer's directory by
  exactly the corresponding sequence of arrivals and departures, filed under the node id the peer knows.
\<close>

theorem presence_replicated:
  assumes "node_ok e wa" and "hears p wa" and "Removal (get_id p wa) \<notin> set cs"
    and "node_ok e' wb" and "b < w_next wb" and "get_type b wb = tcp" and "crc_ccitt e' = crc_ccitt e"
  shows "\<exists>ps wa' ts wb'. change_clients e cs wa = Inr (ps, wa') \<and> w_posted wa' = w_posted wa @ ts \<and>
    handle_frames e' b (sends_to p ts) wb = Inr wb' \<and>
    directory wb' = fold (presence_event (get_node_id b wb)) ps (directory wb)"
proof -
  obtain ps wa' ts where a: "change_clients e cs wa = Inr (ps, wa')" "w_posted wa' = w_posted wa @ ts"
    "list_all2 (presence_frame e) ps (sends_to p ts)"
    using changes_announce [OF assms(1-3)] unfolding announces_def by blast
  then show ?thesis
    using presence_frames_handled [OF a(3) assms(4-6)] assms(7) by auto
qed

text \<open>Which ids a directory gives to WebSocket sessions of one node, and of any.\<close>

definition clients_of :: "uuid \<Rightarrow> directory \<Rightarrow> uuid set" where
  "clients_of n d = {i. d i = Some (websocket, n)}"

definition websocket_ids :: "directory \<Rightarrow> uuid set" where
  "websocket_ids d = {i. \<exists>m. d i = Some (websocket, m)}"

text \<open>Every handshake is completed while the session is still in the container.\<close>

fun registered_change :: "client_change \<Rightarrow> world \<Rightarrow> bool" where
  "registered_change (Handshake a) w \<longleftrightarrow> find_by_id w (get_id a w) = Some a \<and> get_type a w = websocket"
| "registered_change (Removal i) w \<longleftrightarrow> True"

fun registered_changes :: "env \<Rightarrow> client_change list \<Rightarrow> world \<Rightarrow> bool" where
  "registered_changes e [] w \<longleftrightarrow> True"
| "registered_changes e (c # cs) w \<longleftrightarrow> registered_change c w \<and>
     (case change_client e c w of Inl _ \<Rightarrow> True | Inr w' \<Rightarrow> registered_changes e cs w')"

lemma directory_handshake:
  assumes "change_client e (Handshake a) w = Inr w'"
  shows "directory w' = directory w"
proof -
  let ?u = "update_session a (\<lambda>s. s\<lparr>s_open := True\<rparr>) (finish_op (Ws_accept a) w)"
  have "w_sessions w' = w_sessions ?u" "w_heap w' = w_heap ?u"
    using assms by (auto simp: complete_op_def websocket_on_accept_eq Let_def)
  then have "directory w' = directory ?u" by (intro directory_cong) simp_all
  then show ?thesis by (simp add: directory_update_session)
qed

lemma change_keeps_clients:
  assumes "node_ok e w" and "change_client e c w = Inr w'" and "registered_change c w"
    and "clients_of n d \<subseteq> websocket_ids (directory w)"
  shows "clients_of n (fold (presence_event n) (presence_of c w) d) \<subseteq> websocket_ids (directory w')"
proof (cases c)
  case (Handshake a)
  have "directory w (get_id a w) = Some (websocket, get_node_id a w)"
    using assms(3) by (simp add: Handshake directory_def get_type_def get_node_id_def)
  then show ?thesis
    using assms(4) directory_handshake [OF assms(2) [unfolded Handshake]]
    by (auto simp: Handshake clients_of_def websocket_ids_def split: if_splits)
next
  case (Removal i)
  obtain r where "remove_session e i w = Inr (r, w')"
    using assms(2) by (auto simp: Removal chain_def split: sum.splits)
  then have "directory w' = (directory w)(i := None)"
    using directory_removed [of w e i r w'] assms(1) by (simp add: node_ok_def)
  then show ?thesis
    using assms(4)
    by (auto simp: Removal clients_of_def websocket_ids_def directory_def get_type_def
        split: option.splits session_type.splits)
qed

lemma changes_keep_clients:
  assumes "node_ok e w" and "hears p w" and "Removal (get_id p w) \<notin> set cs"
    and "registered_changes e cs w" and "change_clients e cs w = Inr (ps, w')"
    and "clients_of n d \<subseteq> websocket_ids (directory w)"
  shows "clients_of n (fold (presence_event n) ps d) \<subseteq> websocket_ids (directory w')"
  using assms
proof (induction cs arbitrary: w ps d)
  case Nil
  then show ?case by simp
next
  case (Cons c cs)
  then obtain v where v: "change_client e c w = Inr v" "announces e p w (presence_of c w) v"
    using change_announces [of e w p c] by auto
  then have ok: "node_ok e v" "hears p v" "Removal (get_id p v) \<notin> set cs"
    using Cons.prems(3) by (simp_all add: announces_def)
  obtain qs where qs: "change_clients e cs v = Inr (qs, w')" "ps = presence_of c w @ qs"
    using Cons.prems(5) v(1) by (auto simp: chain_def split: sum.splits)
  show ?case
    using Cons.IH [OF ok _ qs(1) change_keeps_clients [OF Cons.prems(1) v(1) _ Cons.prems(6)]]
      Cons.prems(4) v(1) qs(2) by simp
qed

text \<open>
  C22. No ghosts: when a peer lists only WebSocket clients that a node has, and every handshake completes
  while its session is registered, the peer still lists only clients the node has after any sequence of
  handshakes and removals it has read of.
\<close>

theorem presence_no_ghosts:
  assumes "node_ok e wa" and "hears p wa" and "Removal (get_id p wa) \<notin> set cs"
    and "registered_changes e cs wa"
    and "node_ok e' wb" and "b < w_next wb" and "get_type b wb = tcp" and "crc_ccitt e' = crc_ccitt e"
    and "clients_of (get_node_id b wb) (directory wb) \<subseteq> websocket_ids (directory wa)"
  shows "\<exists>ps wa' ts wb'. change_clients e cs wa = Inr (ps, wa') \<and> w_posted wa' = w_posted wa @ ts \<and>
    handle_frames e' b (sends_to p ts) wb = Inr wb' \<and>
    clients_of (get_node_id b wb) (directory wb') \<subseteq> websocket_ids (directory wa')"
proof -
  obtain ps wa' ts where a: "change_clients e cs wa = Inr (ps, wa')" "w_posted wa' = w_posted wa @ ts"
    "list_all2 (presence_frame e) ps (sends_to p ts)"
    using changes_announce [OF assms(1-3)] unfolding announces_def by blast
  then obtain wb' where "handle_frames e' b (sends_to p ts) wb = Inr wb'"
    "directory wb' = fold (presence_event (get_node_id b wb)) ps (directory wb)"
    using presence_frames_handled [OF a(3) assms(5-7)] assms(8) by auto
  then show ?thesis
    using a(1,2) changes_keep_clients [OF assms(1-4) a(1) assms(9)] by auto
qed

text \<open>
  C40. A late handshake leaves a ghost: when a session is removed after its handshake has succeeded but
  before the completion handler runs (a disconnect from another thread), the leave goes out before the
  join.  The peer then lists a client that the node no longer has, and since the failing read of the
  removed session finds nothing to remove, no further leave follows.
\<close>

theorem late_handshake_leaves_ghost:
  assumes "node_ok e wa" and "hears p wa" and "find_by_id wa i = Some a" and "get_type a wa = websocket"
    and "node_ok e' wb" and "b < w_next wb" and "get_type b wb = tcp" and "crc_ccitt e' = crc_ccitt e"
  shows "\<exists>ps wa' ts wb'. change_clients e [Removal i, Handshake a] wa = Inr (ps, wa') \<and>
    w_posted wa' = w_posted wa @ ts \<and> handle_frames e' b (sends_to p ts) wb = Inr wb' \<and>
    directory wb' i = Some (websocket, get_node_id b wb) \<and> directory wa' i = None \<and>
    websocket_on_read e a True bytes wa' = Inr wa'"
proof -
  have wf: "container_wf wa" using assms(1) by (simp add: node_ok_def)
  have ia: "s_id (w_heap wa a) = i" using assms(3) wf by (simp add: find_by_id_eq_Some)
  have "s_type (w_heap wa p) = tcp"
    using assms(2) by (auto simp: hears_def dest: broadcast_targets_tcp)
  moreover have "p \<in> set (w_sessions wa)"
    using assms(2) by (auto simp: hears_def dest: broadcast_targets_tcp)
  ultimately have "i \<noteq> get_id p wa"
    using assms(3,4) find_by_id_eq_Some [OF wf, of i p] by (auto simp: get_id_def get_type_def)
  then have "Removal (get_id p wa) \<notin> set [Removal i, Handshake a]" by auto
  from changes_announce [OF assms(1,2) this]
  obtain ps wa' ts where run: "change_clients e [Removal i, Handshake a] wa = Inr (ps, wa')"
    and sent: "w_posted wa' = w_posted wa @ ts" "list_all2 (presence_frame e) ps (sends_to p ts)"
    unfolding announces_def by blast
  obtain r v where v: "remove_session e i wa = Inr (r, v)" "evolves wa v"
    using remove_session_evolves [OF assms(1)] by blast
  have "a < w_next wa"
    using assms(1,3) by (auto simp: node_ok_def find_by_id_eq_Some)
  then have "get_id a v = i"
    using v(2) ia by (simp add: evolves_def same_core_def get_id_def)
  then have ps: "ps = [Departed i, Arrived i]" and last: "change_client e (Handshake a) v = Inr wa'"
    using run v(1) assms(3,4) by (auto simp: chain_def split: sum.splits)
  have gone: "directory wa' i = None"
    using directory_handshake [OF last] directory_removed [OF wf v(1)] by simp
  have "s_id (w_heap wa' a) = i"
    using last \<open>get_id a v = i\<close>
    by (auto simp: complete_op_def websocket_on_accept_eq Let_def get_id_def update_session_def)
  then have "websocket_on_read e a True bytes wa' = Inr wa'"
    using gone by (simp add: websocket_on_read_def drop_session_def remove_session_def get_id_def)
  moreover obtain wb' where "handle_frames e' b (sends_to p ts) wb = Inr wb'"
    "directory wb' = fold (presence_event (get_node_id b wb)) ps (directory wb)"
    using presence_frames_handled [OF sent(2) assms(5-7)] assms(8) by auto
  ultimately show ?thesis
    using run sent(1) gone by (auto simp: ps)
qed

section \<open>Concrete runs\<close>

text \<open>The client 12 of the demo node, and a peer that has heard of nobody.\<close>

definition demo_peer :: world where
  "demo_peer = demo_world\<lparr>w_sessions := [1], w_node_id := 100\<rparr>"

lemma demo_peer_ok: "node_ok demo_env demo_peer"
  using demo_container_law by (simp add: node_ok_def demo_peer_def container_wf_def demo_world_def)

lemma demo_hears: "hears 0 demo_world"
  by (simp add: hears_def broadcast_targets_def get_type_def)

lemma demo_peer_facts: "1 < w_next demo_peer" "get_type 1 demo_peer = tcp" "get_node_id 1 demo_peer = 100"
  "directory demo_peer 12 = None" "get_id 0 demo_world = 10" "find_by_id demo_world 12 = Some 2"
  "get_type 2 demo_world = websocket" "clients_of 100 (directory demo_peer) = {}" "get_id 2 demo_world = 12"
  by (auto simp: demo_peer_def get_type_def get_node_id_def get_id_def directory_def find_by_id_def
      clients_of_def split: if_splits)

theorem presence_replicated_witness:
  "\<exists>ts wb'. handle_frames demo_env 1 (sends_to 0 ts) demo_peer = Inr wb' \<and>
     directory wb' 12 = Some (websocket, 100)"
proof -
  have cs: "Removal (get_id 0 demo_world) \<notin> set [Handshake 2]" by simp
  from presence_replicated [OF demo_node_ok demo_hears cs demo_peer_ok demo_peer_facts(1,2)]
  obtain ps wa' ts wb' where r: "change_clients demo_env [Handshake 2] demo_world = Inr (ps, wa')"
    "handle_frames demo_env 1 (sends_to 0 ts) demo_peer = Inr wb'"
    "directory wb' = fold (presence_event 100) ps (directory demo_peer)"
    by (auto simp: demo_peer_facts simp del: change_clients.simps One_nat_def)
  have "ps = [Arrived 12]"
    using r(1) by (auto simp: chain_def demo_peer_facts split: sum.splits)
  then show ?thesis
    using r(2,3) demo_peer_facts(4) by (intro exI [of _ ts] exI [of _ wb'] conjI) simp_all
qed

theorem presence_no_ghosts_witness:
  "\<exists>ps wa' wb'. change_clients demo_env [Handshake 2, Removal 12] demo_world = Inr (ps, wa') \<and>
     clients_of 100 (directory wb') \<subseteq> websocket_ids (directory wa')"
proof -
  have cs: "Removal (get_id 0 demo_world) \<notin> set [Handshake 2, Removal 12]"
    by (simp add: demo_peer_facts)
  have reg: "registered_changes demo_env [Handshake 2, Removal 12] demo_world"
    by (simp add: demo_peer_facts split: sum.split)
  from presence_no_ghosts [OF demo_node_ok demo_hears cs reg demo_peer_ok demo_peer_facts(1,2)]
  show ?thesis by (auto simp: demo_peer_facts simp del: change_clients.simps One_nat_def)
qed

theorem late_handshake_leaves_ghost_witness:
  "\<exists>wa' wb' ps. change_clients demo_env [Removal 12, Handshake 2] demo_world = Inr (ps, wa') \<and>
     directory wb' 12 = Some (websocket, 100) \<and> directory wa' 12 = None"
  using late_handshake_leaves_ghost [OF demo_node_ok demo_hears demo_peer_facts(6,7) demo_peer_ok
      demo_peer_facts(1,2), of "[]"]
  by (auto simp: demo_peer_facts simp del: change_clients.simps One_nat_def)

end
