(* ===== verification/Write_Failure.thy ===== *)
theory Write_Failure
  imports Runtime_Actions
begin

text \<open>
  What becomes of a TCP session after a failed write: \<^verbatim>\<open>on_write\<close> leaves the message that failed at the head
  of the queue, so that nothing can be written behind the part of it that may have gone out.
\<close>

section \<open>A stalled session\<close>

definition stalled :: "addr \<Rightarrow> world \<Rightarrow> bool" where
  "stalled a w \<longleftrightarrow> get_queue a w \<noteq> [] \<and> (\<forall>m. Write a m \<notin> set (w_pending w))"

lemma started_no_write: "Write a m \<notin> set (started x)"
  by (cases x rule: started.cases) auto

lemma stalled_goes_on:
  assumes "goes_on x u w'" and "a < w_next u" and "stalled a u"
  shows "stalled a w'"
proof -
  obtain v where v: "emits u v" "w' = v\<lparr>w_pending := w_pending v @ started x\<rparr>"
    using assms(1) unfolding goes_on_def by blast
  then have "get_queue a v = get_queue a u" "w_pending v = w_pending u"
    using assms(2) by (simp_all add: emits_def evolves_def same_core_def get_queue_def)
  then show ?thesis
    using assms(3) by (simp add: v(2) stalled_def get_queue_def started_no_write)
qed

text \<open>The write outstanding is the only one, and of the message at the head of the queue.\<close>

lemma write_outstanding:
  assumes "runtime_ok e w" and "Write a m \<in> set (w_pending w)"
  shows "\<exists>rest. get_queue a w = m # rest" and "Write a m' \<notin> set (w_pending (finish_op (Write a m) w))"
proof -
  have out: "outstanding_writes a w = [] \<or> outstanding_writes a w = take 1 (get_queue a w)"
    using assms(1) unfolding runtime_ok_def by blast
  have m: "m \<in> set (tcp_inflight a w)" using assms(2) by (simp add: tcp_inflight_member)
  then have o: "outstanding_writes a w \<noteq> []" by (auto simp: outstanding_writes_def)
  then obtain q rest where q: "get_queue a w = q # rest" "outstanding_writes a w = [q]"
    using out by (cases "get_queue a w") auto
  then have "tcp_inflight a w = [m]"
    using m by (auto simp: outstanding_writes_def append_eq_Cons_conv)
  then show "\<exists>rest. get_queue a w = m # rest" "Write a m' \<notin> set (w_pending (finish_op (Write a m) w))"
    using q tcp_inflight_finish [OF assms(2)]
    by (auto simp: outstanding_writes_def simp flip: tcp_inflight_member)
qed

lemma failed_write_stalls:
  assumes "node_action e w (Completed (Write a m) True bytes) (Inr w')" and "runtime_ok e w"
    and "index_law e" and "a < w_next w"
  shows "stalled a w'" and "\<exists>rest. get_queue a w' = m # rest"
proof -
  have pending: "Write a m \<in> set (w_pending w)"
    using assms(1) by cases simp_all
  have speaks: "speaks_frames (Completed (Write a m) True bytes)" by simp
  from assms(1-3) speaks show "stalled a w'"
  proof (cases rule: action_shape)
    case (moves u)
    have u: "get_queue a u = get_queue a w" "w_pending u = w_pending (finish_op (Write a m) w)" "a < w_next u"
      using moves(1) assms(4) by (auto simp: taken_def same_core_def get_queue_def finish_op_def)
    then have "stalled a u"
      using write_outstanding [OF assms(2) pending] by (auto simp: stalled_def)
    then show ?thesis by (rule stalled_goes_on [OF moves(2) u(3)])
  qed simp_all
  from assms(1-3) speaks show "\<exists>rest. get_queue a w' = m # rest"
  proof (cases rule: action_shape)
    case (moves u)
    then obtain v where "emits u v" "w_heap w' = w_heap v" "a < w_next u"
      using assms(4) by (auto simp: goes_on_def taken_def)
    then have "get_queue a w' = get_queue a w"
      using moves(1) by (simp add: emits_def evolves_def taken_def same_core_def get_queue_def)
    then show ?thesis using write_outstanding(1) [OF assms(2) pending] by simp
  qed simp_all
qed

lemma action_stalled:
  assumes "node_action e w x (Inr w')" and "runtime_ok e w" and "index_law e" and "speaks_frames x"
    and "a < w_next w" and "s_type (w_heap w a) = tcp" and "stalled a w"
  shows "stalled a w'"
  using assms(1-4)
proof (cases rule: action_shape)
  case (moves u)
  have "set (w_pending u) \<subseteq> set (w_pending w)"
    using moves(1) set_remove1_subset by (cases x) (fastforce simp: taken_def)+
  moreover have "get_queue a u = get_queue a w" "a < w_next u"
    using moves(1) assms(5) by (simp_all add: taken_def same_core_def get_queue_def)
  ultimately have "stalled a u" using assms(7) by (auto simp: stalled_def)
  then show ?thesis using stalled_goes_on [OF moves(2)] \<open>a < w_next u\<close> by simp
next
  case (sends b m u)
  have u: "get_queue c u = get_queue c w" "w_pending u = w_pending w" for c
    using sends(1,2) by (auto simp: taken_def same_core_def get_queue_def)
  have "stalled a u" using assms(7) by (simp add: stalled_def u)
  then show ?thesis
    by (auto simp: sends(3) stalled_def on_send_def tcp_on_send_def websocket_on_send_def start_op_def
        get_queue_def update_session_def Let_def split: session_type.splits if_splits)
next
  case (writes b m bytes)
  then have "b \<noteq> a" using assms(7) by (auto simp: stalled_def)
  then show ?thesis
    using assms(7) writes write_fields(2) [OF writes(2) assms(2) writes(3), of a]
    by (auto simp: stalled_def tcp_on_write_def start_op_def finish_op_def update_session_def Let_def
        dest: notin_set_remove1 split: list.splits if_splits)
next
  case (ws_writes b m bytes)
  have "op_typed (w_heap w) (Ws_write b m)"
    using assms(2) ws_writes(2) unfolding runtime_ok_def list_all_iff by blast
  then have "b \<noteq> a" using assms(6) by auto
  then show ?thesis
    using assms(7) ws_writes ws_write_fields(2) [OF ws_writes(2,3), of a]
    by (auto simp: stalled_def websocket_on_write_def start_op_def finish_op_def update_session_def Let_def
        dest: notin_set_remove1 split: list.splits if_splits)
qed

end
