(* ===== verification/Peer_Link.thy ===== *)
theory Peer_Link
  imports Write_Failure "HOL-Library.Sublist"
begin

text \<open>
  One direction of a TCP connection between two running nodes: a session of the sending node, the bytes
  on the wire, and a session of the receiving node, each node free to do anything else it can do in
  between.  What the receiver parses are exactly the frames the sender was given to send, in order.
\<close>

section \<open>Nodes whose callers send frames\<close>

inductive speaking :: "env \<Rightarrow> world \<Rightarrow> bool" for e where
  start: "speaking e (node_run p q (node_parse_args th port ws cpn (new_state e)))"
| step: "speaking e w \<Longrightarrow> node_action e w x (Inr w') \<Longrightarrow> speaks_frames x \<Longrightarrow> speaking e w'"

lemma speaking_reachable: "speaking e w \<Longrightarrow> reachable e w"
proof (induction rule: speaking.induct)
  case (step w x w')
  then show ?case using node_action_attempt [of e w "Inr w'"] by (auto intro: reachable.step)
qed (rule reachable.start)

lemma speaking_framed:
  assumes "speaking e w" and "container_law e" and "index_law e"
  shows "framed w"
  using assms(1)
proof (induction rule: speaking.induct)
  case (start p q th port ws cpn)
  then show ?case
    by (simp add: framed_def node_run_def websocket_do_accept_def new_websocket_listener_def tcp_do_accept_def
        new_tcp_listener_def start_op_def node_parse_args_def new_state_def Let_def)
next
  case (step w x w')
  then show ?case
    using action_framed [OF step.hyps(2) _ assms(3) step.hyps(3)]
      reachable_runtime_ok [OF speaking_reachable assms(2,3)] by blast
qed

text \<open>
  C26. A node whose callers hand over frames writes frames: in every state it can reach, whatever a TCP
  session is writing, has queued or is about to queue is empty or a complete frame whose length header
  says how many bytes follow.
\<close>

theorem writes_are_frames:
  assumes "speaking e w" and "container_law e" and "index_law e"
    and "a < w_next w" and "s_type (w_heap w a) = tcp"
  shows "list_all (\<lambda>m. m = [] \<or> is_frame m) (pipeline a w) \<and> set (tcp_inflight a w) \<subseteq> set (pipeline a w)"
proof -
  have "runtime_ok e w" by (rule reachable_runtime_ok [OF speaking_reachable [OF assms(1)] assms(2,3)])
  then have "outstanding_writes a w = [] \<or> outstanding_writes a w = take 1 (get_queue a w)"
    unfolding runtime_ok_def by blast
  then have "set (outstanding_writes a w) \<subseteq> set (get_queue a w)"
    using set_take_subset [of 1 "get_queue a w"] by (elim disjE) simp_all
  then have "set (tcp_inflight a w) \<subseteq> set (pipeline a w)"
    by (auto simp: outstanding_writes_def pipeline_def)
  then show ?thesis
    using framed_pipeline [OF speaking_framed [OF assms(1-3)] assms(4,5)] by (simp add: sendable_def [abs_def])
qed

section \<open>The connection\<close>

text \<open>
  \<open>l_written\<close> are the messages whose writes have completed at the sender, \<open>l_broken\<close> the one whose write failed,
  if any, and \<open>l_received\<close> the bodies handed to the receiver's parser, all since the connection was made.
\<close>

record link =
  l_left :: world
  l_right :: world
  l_wire :: "byte list"
  l_written :: "byte list list"
  l_broken :: "byte list list"
  l_received :: "byte list list"

text \<open>
  A successful write puts its message on the wire, a failed one any first part of it; a successful read takes
  its bytes from there.  The receiver's reads may fail at any time.
\<close>

inductive link_step :: "env \<Rightarrow> addr \<Rightarrow> env \<Rightarrow> addr \<Rightarrow> link \<Rightarrow> link \<Rightarrow> bool" for e a e' b where
  left: "node_action e (l_left l) x (Inr w') \<Longrightarrow> speaks_frames x \<Longrightarrow>
    (\<And>m error bytes. x \<noteq> Completed (Write a m) error bytes) \<Longrightarrow>
    link_step e a e' b l (l\<lparr>l_left := w'\<rparr>)"
| written: "node_action e (l_left l) (Completed (Write a m) False bytes) (Inr w') \<Longrightarrow>
    link_step e a e' b l (l\<lparr>l_left := w', l_wire := l_wire l @ m, l_written := l_written l @ [m]\<rparr>)"
| broken: "node_action e (l_left l) (Completed (Write a m) True bytes) (Inr w') \<Longrightarrow>
    link_step e a e' b l (l\<lparr>l_left := w', l_wire := l_wire l @ take k m, l_broken := [m]\<rparr>)"
| right: "node_action e' (l_right l) x (Inr w') \<Longrightarrow> speaks_frames x \<Longrightarrow>
    (\<And>op bytes. reads_at b op \<Longrightarrow> x \<noteq> Completed op False bytes) \<Longrightarrow>
    link_step e a e' b l (l\<lparr>l_right := w'\<rparr>)"
| header: "4 \<le> length (l_wire l) \<Longrightarrow>
    node_action e' (l_right l) (Completed (Read_header b) False (take 4 (l_wire l))) (Inr w') \<Longrightarrow>
    link_step e a e' b l (l\<lparr>l_right := w', l_wire := drop 4 (l_wire l)\<rparr>)"
| body: "n \<le> length (l_wire l) \<Longrightarrow>
    node_action e' (l_right l) (Completed (Read_body b n) False (take n (l_wire l))) (Inr w') \<Longrightarrow>
    link_step e a e' b l
      (l\<lparr>l_right := w', l_wire := drop n (l_wire l), l_received := l_received l @ [take n (l_wire l)]\<rparr>)"

section \<open>The alignment of reader and writer\<close>

definition nonempty :: "byte list list \<Rightarrow> byte list list" where
  "nonempty ms = filter (\<lambda>m. m \<noteq> []) ms"

lemma nonempty_simps [simp]:
  "nonempty [] = []" "nonempty (ms @ ns) = nonempty ms @ nonempty ns"
  "nonempty (m # ms) = (if m = [] then nonempty ms else m # nonempty ms)"
  by (simp_all add: nonempty_def)

text \<open>
  The wire holds what the reader still expects, all of it unless a write failed.
\<close>

definition covers :: "bool \<Rightarrow> byte list \<Rightarrow> byte list \<Rightarrow> bool" where
  "covers whole wire bytes \<longleftrightarrow> prefix wire bytes \<and> (whole \<longrightarrow> wire = bytes)"

lemma covers_Nil [simp]: "covers whole [] []"
  by (simp add: covers_def)

lemma covers_take:
  assumes "covers whole wire (h @ bytes)" and "length h \<le> length wire"
  shows "take (length h) wire = h" and "covers whole (drop (length h) wire) bytes"
proof -
  obtain rest where "h @ bytes = wire @ rest" using assms(1) by (auto simp: covers_def prefix_def)
  then show "take (length h) wire = h" "covers whole (drop (length h) wire) bytes"
    using assms by (auto simp: covers_def append_eq_append_conv2)
qed

lemma covers_write: "covers True wire bytes \<Longrightarrow> covers True (wire @ m) (bytes @ m)"
  by (simp add: covers_def)

lemma covers_break: "covers True wire bytes \<Longrightarrow> covers False (wire @ take k m) (bytes @ m)"
  by (simp add: covers_def take_is_prefix)

text \<open>\<open>cur\<close> is the body being read, if its header has been, and \<open>fs\<close> the frames behind it.\<close>

definition wire_matches :: "addr \<Rightarrow> world \<Rightarrow> bool \<Rightarrow> byte list \<Rightarrow> byte list list \<Rightarrow> byte list list \<Rightarrow> bool" where
  "wire_matches b w whole wire cur fs \<longleftrightarrow>
     (reading b w \<in> {([Read_header b], []), ([], [Run_read_header b])} \<and> cur = [] \<and> covers whole wire (concat fs)) \<or>
     (\<exists>n body. reading b w = ([Read_body b n], []) \<and> cur = [body] \<and> length body = n \<and>
        covers whole wire (body @ concat fs)) \<or>
     reading b w = ([], [])"

definition tcp_end :: "env \<Rightarrow> addr \<Rightarrow> world \<Rightarrow> bool" where
  "tcp_end e a w \<longleftrightarrow> runtime_ok e w \<and> framed w \<and> a < w_next w \<and> s_type (w_heap w a) = tcp"

text \<open>The messages that have gone out, the last of them in part if its write failed.\<close>

definition sent :: "link \<Rightarrow> byte list list" where
  "sent l = l_written l @ l_broken l"

definition aligned :: "env \<Rightarrow> addr \<Rightarrow> env \<Rightarrow> addr \<Rightarrow> link \<Rightarrow> bool" where
  "aligned e a e' b l \<longleftrightarrow>
     tcp_end e a (l_left l) \<and> tcp_end e' b (l_right l) \<and> list_all sendable (sent l) \<and>
     (l_broken l = [] \<or> stalled a (l_left l)) \<and>
     (\<exists>cur fs. l_received l @ cur @ map (drop 4) fs = map (drop 4) (nonempty (sent l)) \<and>
        list_all is_frame fs \<and> wire_matches b (l_right l) (l_broken l = []) (l_wire l) cur fs)"

lemma tcp_end_action:
  assumes "node_action e w x (Inr w')" and "tcp_end e a w" and "index_law e" and "speaks_frames x"
  shows "tcp_end e a w'"
  using assms action_runtime_ok [OF assms(1) _ assms(3)] action_framed [OF assms(1) _ assms(3,4)]
    action_sessions [OF assms(1) _ assms(3,4)]
  by (simp add: tcp_end_def)

lemma write_sendable:
  assumes "node_action e w (Completed (Write a m) False bytes) (Inr w')" and "tcp_end e a w" and "index_law e"
  shows "sendable m" and "pipeline a w = m # pipeline a w'"
proof -
  show p: "pipeline a w = m # pipeline a w'"
    using action_pipeline [OF assms(1) _ assms(3), of a] assms(2) by (auto simp: tcp_end_def)
  have "list_all sendable (pipeline a w)"
    using assms(2) by (auto simp: tcp_end_def intro: framed_pipeline)
  then show "sendable m" by (simp add: p)
qed

lemma wire_matches_right:
  assumes "node_action e w x (Inr w')" and "tcp_end e b w" and "index_law e" and "speaks_frames x"
    and "\<And>op bytes. reads_at b op \<Longrightarrow> x \<noteq> Completed op False bytes" and "wire_matches b w whole wire cur fs"
  shows "wire_matches b w' whole wire cur fs"
proof (cases "touches b x")
  case False
  then have "reading b w' = reading b w"
    using action_reading [OF assms(1) _ assms(3,4), of b] assms(2) by (simp add: tcp_end_def)
  then show ?thesis using assms(6) by (simp add: wire_matches_def)
next
  case True
  then have rd: "reading b w' = (filter (reads_at b) (started x), [])"
    using action_reading [OF assms(1) _ assms(3,4), of b] assms(2) by (simp add: tcp_end_def)
  from action_enabled [OF assms(1) True] show ?thesis
  proof (elim disjE exE conjE)
    fix t assume x: "x = Ran t" and t: "t \<in> set (snd (reading b w))"
    then have "t = Run_read_header b" "cur = []" "covers whole wire (concat fs)"
      using assms(6) by (auto simp: wire_matches_def)
    then show ?thesis using rd x by (simp add: wire_matches_def)
  next
    fix op error bytes assume x: "x = Completed op error bytes" and op: "op \<in> set (fst (reading b w))"
    then have "reads_at b op" by (simp add: reading_def)
    then have "error" using assms(5) x by (cases error) auto
    then have "filter (reads_at b) (started x) = []"
      using x \<open>reads_at b op\<close> by (cases op) auto
    then show ?thesis using rd by (simp add: wire_matches_def)
  qed
qed

lemma wire_matches_header:
  assumes "node_action e w (Completed (Read_header b) False (take 4 wire)) (Inr w')" and "tcp_end e b w"
    and "index_law e" and "wire_matches b w whole wire cur fs" and "list_all is_frame fs" and "4 \<le> length wire"
  shows "\<exists>cur' fs'. cur' @ map (drop 4) fs' = cur @ map (drop 4) fs \<and> list_all is_frame fs' \<and>
    wire_matches b w' whole (drop 4 wire) cur' fs'"
proof -
  let ?x = "Completed (Read_header b) False (take 4 wire)"
  have t: "touches b ?x" by (simp add: touches_def)
  then have rd: "reading b w' = ([Read_body b (unat (get32 (take 4 wire)))], [])"
    using action_reading [OF assms(1) _ assms(3), of b] assms(2) by (simp add: tcp_end_def)
  have "Read_header b \<in> set (fst (reading b w))"
    using action_enabled [OF assms(1) t] by simp
  then have m: "cur = []" "covers whole wire (concat fs)"
    using assms(4) by (auto simp: wire_matches_def)
  obtain f fs' where fs: "fs = f # fs'"
    using assms(6) m(2) by (cases fs) (auto simp: covers_def)
  then have f: "4 \<le> length f" "unat (get32 (take 4 f)) + 4 = length f" "list_all is_frame fs'"
    using assms(5) by (simp_all add: is_frame_def)
  have "covers whole wire (take 4 f @ drop 4 f @ concat fs')"
    using m(2) by (simp add: fs) (simp flip: append_assoc)
  then have "take 4 wire = take 4 f" "covers whole (drop 4 wire) (drop 4 f @ concat fs')"
    using covers_take [of whole wire "take 4 f" "drop 4 f @ concat fs'"] f(1) assms(6)
    by (simp_all add: min_absorb2)
  then have "wire_matches b w' whole (drop 4 wire) [drop 4 f] fs'"
    using rd f(2) by (simp add: wire_matches_def)
  then show ?thesis
    using f(3) by (intro exI [of _ "[drop 4 f]"] exI [of _ fs']) (simp add: m(1) fs)
qed

lemma wire_matches_body:
  assumes "node_action e w (Completed (Read_body b n) False (take n wire)) (Inr w')" and "tcp_end e b w"
    and "index_law e" and "wire_matches b w whole wire cur fs" and "n \<le> length wire"
  shows "cur = [take n wire] \<and> wire_matches b w' whole (drop n wire) [] fs"
proof -
  let ?x = "Completed (Read_body b n) False (take n wire)"
  have t: "touches b ?x" by (simp add: touches_def)
  then have rd: "reading b w' = ([Read_header b], [])"
    using action_reading [OF assms(1) _ assms(3), of b] assms(2) by (simp add: tcp_end_def)
  have "Read_body b n \<in> set (fst (reading b w))"
    using action_enabled [OF assms(1) t] by simp
  then obtain body where "cur = [body]" "length body = n" "covers whole wire (body @ concat fs)"
    using assms(4) by (auto simp: wire_matches_def)
  then show ?thesis
    using rd covers_take [of whole wire body "concat fs"] assms(5) by (simp add: wire_matches_def)
qed

lemma wire_matches_write:
  assumes "wire_matches b w True wire cur fs"
  shows "wire_matches b w True (wire @ m) cur (fs @ nonempty [m])"
    and "wire_matches b w False (wire @ take k m) cur (fs @ nonempty [m])"
  using assms covers_write [of wire _ m] covers_break [of wire _ k m]
  by (cases "m = []"; fastforce simp: wire_matches_def)+

text \<open>One more message, written or not, behind the others.\<close>

lemma aligned_sent:
  assumes "aligned e a e' b l" and "l_broken l = []" and "sendable m" and "tcp_end e a (l_left l')"
    and "l_right l' = l_right l" and "l_received l' = l_received l" and "sent l' = sent l @ [m]"
    and "l_broken l' = [] \<and> l_wire l' = l_wire l @ m \<or>
      l_broken l' \<noteq> [] \<and> stalled a (l_left l') \<and> l_wire l' = l_wire l @ take k m"
  shows "aligned e a e' b l'"
proof -
  obtain cur fs where eq: "l_received l @ cur @ map (drop 4) fs = map (drop 4) (nonempty (sent l))"
    and fs: "list_all is_frame fs" and wire: "wire_matches b (l_right l) True (l_wire l) cur fs"
    using assms(1,2) unfolding aligned_def by auto
  have "l_received l' @ cur @ map (drop 4) (fs @ nonempty [m]) = map (drop 4) (nonempty (sent l'))"
    using eq by (simp add: assms(6,7) flip: append_assoc)
  moreover have "list_all is_frame (fs @ nonempty [m])"
    using fs assms(3) by (auto simp: sendable_def)
  moreover have "wire_matches b (l_right l') (l_broken l' = []) (l_wire l') cur (fs @ nonempty [m])"
    using assms(8) wire_matches_write(1) [OF wire, of m] wire_matches_write(2) [OF wire, of k m]
    by (auto simp: assms(5))
  moreover have "tcp_end e' b (l_right l')" "list_all sendable (sent l')" "l_broken l' = [] \<or> stalled a (l_left l')"
    using assms(1,3,8) by (auto simp: aligned_def assms(5,7))
  ultimately show ?thesis
    using assms(4) unfolding aligned_def by blast
qed

lemma link_step_aligned:
  assumes "link_step e a e' b l l'" and "aligned e a e' b l" and "index_law e" and "index_law e'"
  shows "aligned e a e' b l'"
proof -
  obtain cur fs where ends: "tcp_end e a (l_left l)" "tcp_end e' b (l_right l)" "list_all sendable (sent l)"
    and stall: "l_broken l = [] \<or> stalled a (l_left l)"
    and eq: "l_received l @ cur @ map (drop 4) fs = map (drop 4) (nonempty (sent l))"
    and fs: "list_all is_frame fs" and wire: "wire_matches b (l_right l) (l_broken l = []) (l_wire l) cur fs"
    using assms(2) unfolding aligned_def by blast
  have free: "l_broken l = []" if "Write a m \<in> set (w_pending (l_left l))" for m
    using stall that by (auto simp: stalled_def)
  show ?thesis
    using assms(1)
  proof cases
    case (left x w')
    have "l_broken l = [] \<or> stalled a w'"
      using stall action_stalled [OF left(2) _ assms(3) left(3)] ends(1) by (auto simp: tcp_end_def)
    then show ?thesis
      using tcp_end_action [OF left(2) ends(1) assms(3) left(3)] ends eq fs wire left(1)
      by (auto simp: aligned_def sent_def)
  next
    case (written m bytes w')
    have "l_broken l = []" using free written(2) by (auto elim: node_action.cases)
    moreover have "tcp_end e a w'"
      using tcp_end_action [OF written(2) ends(1) assms(3)] by simp
    ultimately show ?thesis
      using write_sendable(1) [OF written(2) ends(1) assms(3)] unfolding written(1)
      by (intro aligned_sent [OF assms(2), where m = m]) (simp_all add: sent_def)
  next
    case (broken m bytes w' k)
    have "l_broken l = []" using free broken(2) by (auto elim: node_action.cases)
    moreover have "tcp_end e a w'"
      using tcp_end_action [OF broken(2) ends(1) assms(3)] by simp
    moreover have "stalled a w'" "\<exists>rest. get_queue a w' = m # rest"
      using failed_write_stalls [OF broken(2) _ assms(3)] ends(1) by (simp_all add: tcp_end_def)
    moreover from calculation(2,4) have "sendable m"
      using framed_pipeline [of w' a] by (auto simp: tcp_end_def pipeline_def)
    ultimately show ?thesis
      unfolding broken(1) by (intro aligned_sent [OF assms(2), where m = m and k = k]) (simp_all add: sent_def)
  next
    case (right x w')
    have "wire_matches b w' (l_broken l = []) (l_wire l) cur fs"
      by (rule wire_matches_right [OF right(2) ends(2) assms(4) right(3) right(4) wire])
    then show ?thesis
      using tcp_end_action [OF right(2) ends(2) assms(4) right(3)] ends stall eq fs right(1)
      by (auto simp: aligned_def sent_def)
  next
    case (header w')
    obtain cur' fs' where "cur' @ map (drop 4) fs' = cur @ map (drop 4) fs" "list_all is_frame fs'"
      "wire_matches b w' (l_broken l = []) (drop 4 (l_wire l)) cur' fs'"
      using wire_matches_header [OF header(3) ends(2) assms(4) wire fs header(2)] by blast
    moreover have "tcp_end e' b w'"
      using tcp_end_action [OF header(3) ends(2) assms(4)] by simp
    ultimately show ?thesis
      using ends stall eq unfolding header(1) aligned_def
      by (intro conjI exI [of _ cur'] exI [of _ fs']) (simp_all add: sent_def)
  next
    case (body n w')
    have "cur = [take n (l_wire l)]" "wire_matches b w' (l_broken l = []) (drop n (l_wire l)) [] fs"
      using wire_matches_body [OF body(3) ends(2) assms(4) wire body(2)] by simp_all
    moreover have "tcp_end e' b w'"
      using tcp_end_action [OF body(3) ends(2) assms(4)] by simp
    ultimately show ?thesis
      using ends stall eq fs unfolding body(1) aligned_def
      by (intro conjI exI [of _ "[]"] exI [of _ fs]) (simp_all add: sent_def)
  qed
qed

text \<open>The sender writes what it was given, in that order.\<close>

lemma link_step_pipeline:
  assumes "link_step e a e' b l l'" and "aligned e a e' b l" and "index_law e"
  shows "\<exists>ms. l_written l' @ pipeline a (l_left l') = l_written l @ pipeline a (l_left l) @ ms"
proof -
  have a: "tcp_end e a (l_left l)" using assms(2) by (simp add: aligned_def)
  show ?thesis
    using assms(1)
  proof cases
    case (left x w')
    then show ?thesis
      using action_pipeline [OF left(2) _ assms(3) left(3), of a] a by (auto simp: tcp_end_def)
  next
    case (written m bytes w')
    then show ?thesis using write_sendable(2) [OF written(2) a assms(3)] by simp
  next
    case (broken m bytes w' k)
    then show ?thesis
      using action_pipeline [OF broken(2) _ assms(3), of a] a by (auto simp: tcp_end_def)
  qed simp_all
qed

section \<open>What arrives\<close>

text \<open>A new connection: nothing on the wire, and the receiver about to read its first header.\<close>

definition connected :: "env \<Rightarrow> addr \<Rightarrow> env \<Rightarrow> addr \<Rightarrow> link \<Rightarrow> bool" where
  "connected e a e' b l \<longleftrightarrow>
     tcp_end e a (l_left l) \<and> tcp_end e' b (l_right l) \<and> l_wire l = [] \<and> sent l = [] \<and> l_received l = [] \<and>
     reading b (l_right l) \<in> {([Read_header b], []), ([], [Run_read_header b])}"

lemma connected_aligned: "connected e a e' b l \<Longrightarrow> aligned e a e' b l"
  by (auto simp: connected_def aligned_def wire_matches_def sent_def intro!: exI [of _ "[]"])

lemma link_steps_aligned:
  assumes "(link_step e a e' b)\<^sup>*\<^sup>* l0 l" and "connected e a e' b l0" and "index_law e" and "index_law e'"
  shows "aligned e a e' b l \<and>
    (\<exists>ms. l_written l @ pipeline a (l_left l) = pipeline a (l_left l0) @ ms)"
  using assms(1)
proof (induction rule: rtranclp_induct)
  case base
  then show ?case using connected_aligned [OF assms(2)] assms(2) by (simp add: connected_def sent_def)
next
  case (step l l')
  then obtain ms ns where "l_written l @ pipeline a (l_left l) = pipeline a (l_left l0) @ ms"
    "l_written l' @ pipeline a (l_left l') = l_written l @ pipeline a (l_left l) @ ns"
    using link_step_pipeline [OF step.hyps(2) _ assms(3)] by blast
  then have "l_written l' @ pipeline a (l_left l') = pipeline a (l_left l0) @ (ms @ ns)"
    by (simp flip: append_assoc)
  then show ?case using link_step_aligned [OF step.hyps(2) _ assms(3,4)] step.IH by blast
qed

text \<open>
  C11. Reader and writer never lose step: over any run of two connected nodes, whatever else both of them do,
  however reads are interleaved with writes, and even when a write fails half way, the bodies the receiver has
  handed to its parser are the frames that have gone out, whole and without their headers, in order and from
  the first on; what the sender has written is what it had been given to send, in order, and everything given
  later comes behind; while the receiver waits for a header, the wire holds the frames not yet received,
  which it may cut short only when a write failed; and after a failed write the sender never writes again.
\<close>

theorem link_in_order:
  assumes "connected e a e' b l0" and "(link_step e a e' b)\<^sup>*\<^sup>* l0 l" and "index_law e" and "index_law e'"
  shows "\<exists>transit. l_received l @ transit = map (drop 4) (nonempty (sent l)) \<and>
    list_all is_frame (nonempty (sent l)) \<and>
    (\<exists>later. l_written l @ pipeline a (l_left l) = pipeline a (l_left l0) @ later) \<and>
    (reading b (l_right l) = ([Read_header b], []) \<longrightarrow>
      (\<exists>fs. list_all is_frame fs \<and> transit = map (drop 4) fs \<and> covers (l_broken l = []) (l_wire l) (concat fs))) \<and>
    (l_broken l = [] \<or> stalled a (l_left l))"
proof -
  have steps: "aligned e a e' b l" "\<exists>ms. l_written l @ pipeline a (l_left l) = pipeline a (l_left l0) @ ms"
    using link_steps_aligned [OF assms(2,1,3,4)] by blast+
  then obtain cur fs where "list_all sendable (sent l)" "list_all is_frame fs"
    "l_received l @ cur @ map (drop 4) fs = map (drop 4) (nonempty (sent l))"
    "wire_matches b (l_right l) (l_broken l = []) (l_wire l) cur fs" "l_broken l = [] \<or> stalled a (l_left l)"
    unfolding aligned_def by blast
  moreover from this(1) have "list_all is_frame (nonempty (sent l))"
    by (auto simp: list_all_iff nonempty_def sendable_def)
  ultimately show ?thesis
    using steps(2) by - (rule exI [of _ "cur @ map (drop 4) fs"], auto simp: wire_matches_def)
qed

section \<open>A concrete connection\<close>

text \<open>
  Two nodes that have just accepted a TCP connection each, seen as the two ends of one; the sender's caller
  broadcasts a frame, which is queued, written and read.
\<close>

definition demo_link :: link where
  "demo_link = \<lparr>l_left = demo_accepted, l_right = demo_accepted, l_wire = [], l_written = [], l_broken = [],
    l_received = []\<rparr>"

lemma demo_tcp_end: "tcp_end demo_env 0 demo_accepted"
  using reachable_runtime_ok [OF demo_accepted_reachable demo_container_law demo_index_law]
  by (simp add: tcp_end_def demo_accepted_eq framed_def demo_accepted_posted get_queue_def)

lemma demo_connected: "connected demo_env 0 demo_env 0 demo_link"
  using demo_tcp_end
  by (simp add: connected_def demo_link_def sent_def reading_def demo_accepted_eq demo_accepted_posted)

lemma demo_broadcast_step:
  assumes "is_frame m"
  shows "link_step demo_env 0 demo_env 0 demo_link (demo_link\<lparr>l_left := broadcast_to_nodes m demo_accepted\<rparr>)"
proof (rule link_step.left)
  show "node_action demo_env (l_left demo_link) (Called (Broadcast m)) (Inr (broadcast_to_nodes m demo_accepted))"
    using node_action.called [of demo_env demo_accepted "Broadcast m"] by (simp add: demo_link_def)
qed (simp_all add: assms)

theorem link_in_order_witness:
  "\<exists>m transit later. is_frame m \<and>
     (let l = demo_link\<lparr>l_left := broadcast_to_nodes m demo_accepted\<rparr>
      in l_received l @ transit = map (drop 4) (nonempty (sent l)) \<and>
         l_written l @ pipeline 0 (l_left l) = pipeline 0 demo_accepted @ later \<and> later = [m])"
proof -
  obtain m where m: "is_frame m"
    using get_data_frame_bytes [of "request_add_ping 1 as_request" crc_16_ccitt True]
      get_data_is_frame [of "request_add_ping 1 as_request" crc_16_ccitt]
    by (force simp: request_add_ping_def frame_fits_small)
  let ?l = "demo_link\<lparr>l_left := broadcast_to_nodes m demo_accepted\<rparr>"
  have "broadcast_targets demo_accepted = [0]"
    by (simp add: broadcast_targets_def demo_accepted_eq get_type_def)
  then have p: "pipeline 0 (l_left ?l) = pipeline 0 demo_accepted @ [m]"
    by (simp add: pipeline_def broadcast_eq get_queue_def demo_accepted_posted)
  obtain transit later where "l_received ?l @ transit = map (drop 4) (nonempty (sent ?l))"
    "l_written ?l @ pipeline 0 (l_left ?l) = pipeline 0 (l_left demo_link) @ later"
    using link_in_order [OF demo_connected r_into_rtranclp [of "link_step demo_env 0 demo_env 0",
          OF demo_broadcast_step [OF m]] demo_index_law demo_index_law]
    by blast
  moreover from this(2) have "later = [m]" using p by (simp add: demo_link_def)
  ultimately show ?thesis using m by (auto simp: Let_def demo_link_def)
qed

lemma demo_speaking: "speaking demo_env demo_accepted"
proof -
  have "node_action demo_env demo_started (Completed Tcp_listen False [])
      (complete_op demo_env Tcp_listen False [] demo_started)"
    by (rule node_action.completed)
      (simp_all add: demo_started_def node_run_def websocket_do_accept_def tcp_do_accept_def start_op_def
        new_websocket_listener_def)
  moreover have "speaking demo_env demo_started"
    unfolding demo_started_def by (rule speaking.start)
  ultimately show ?thesis
    by (auto simp: complete_op_def demo_accepted_def intro: speaking.step)
qed

text \<open>The demo node dials another one: what it is about to write to the new session is a frame.\<close>

theorem writes_are_frames_witness:
  "\<exists>w m. node_action demo_env demo_accepted (Called (Connect_to ''peer'' 7000)) (Inr w) \<and> pipeline 1 w = [m] \<and> is_frame m"
proof -
  let ?w = demo_accepted
  have ok: "container_wf ?w" "set (w_sessions ?w) \<subseteq> {..<w_next ?w}" "find_by_id ?w (s_id (dialled_session demo_env ?w)) = None"
    by (simp_all add: container_wf_def demo_accepted_eq find_by_id_def dialled_session_def demo_accepted_rng)
  let ?f = "frame_bytes (crc_ccitt demo_env) True (first_payloads demo_env True (connections_per_node (w_config ?w)) ?w)"
  obtain w' where w': "state_connect demo_env ''peer'' 7000 True (connections_per_node (w_config ?w)) ?w = Inr (True, w')"
    "w_heap w' = (w_heap ?w)(1 := dialled_session demo_env ?w)" "w_next w' = 2"
    "w_posted w' = w_posted ?w @ [Run_on_send 1 ?f, Run_read_header 1]"
    using state_connect_effect [OF demo_container_law ok(1) refl refl ok(2), of "''peer''" 7000 True
        "connections_per_node (w_config ?w)"] ok(3) by (auto simp: demo_accepted_eq)
  then have "node_action demo_env ?w (Called (Connect_to ''peer'' 7000)) (Inr w')"
    using node_action.called [of demo_env ?w "Connect_to ''peer'' 7000"] by (simp add: node_connect_def)
  moreover from this have "speaking demo_env w'"
    using speaking.step [OF demo_speaking] by simp
  then have "list_all (\<lambda>m. m = [] \<or> is_frame m) (pipeline 1 w')"
    using writes_are_frames [OF _ demo_container_law demo_index_law, of w' 1] w'(2,3)
    by (simp add: dialled_session_def)
  moreover have "pipeline 1 w' = [?f]"
    using w'(2,4) by (simp add: pipeline_def get_queue_def dialled_session_def demo_accepted_posted)
  moreover have "0 < length ?f"
    by (simp add: frame_bytes_def)
  ultimately show ?thesis by auto
qed

end
