(* ===== verification/Delivery.thy ===== *)
theory Delivery
  imports Runtime_Actions Runtime_Termination
begin

text \<open>
  What becomes of the messages a node has queued or posted while its writes succeed: left to itself it writes
  every one of them, in order, and ends with all its queues empty, those of sessions whose writing has failed
  before excepted.
\<close>

section \<open>The node left to itself\<close>

text \<open>
  A step with what it writes: a posted task is run, or a write completes.  \<open>delivery\<close> collects what is written on
  the way, as pairs of session and message.
\<close>

inductive delivering_step :: "env \<Rightarrow> world \<Rightarrow> (addr \<times> byte list) list \<Rightarrow> world \<Rightarrow> bool" for e where
  run: "w_posted w = before @ t # after \<Longrightarrow> next_on_strand before t \<Longrightarrow>
    run_task e t (w\<lparr>w_posted := before @ after\<rparr>) = Inr w' \<Longrightarrow> delivering_step e w [] w'"
| written: "Write a m \<in> set (w_pending w) \<Longrightarrow> complete_op e (Write a m) False [] w = Inr w' \<Longrightarrow>
    delivering_step e w [(a, m)] w'"
| ws_written: "Ws_write a m \<in> set (w_pending w) \<Longrightarrow> complete_op e (Ws_write a m) False [] w = Inr w' \<Longrightarrow>
    delivering_step e w [(a, m)] w'"

inductive delivery :: "env \<Rightarrow> world \<Rightarrow> (addr \<times> byte list) list \<Rightarrow> world \<Rightarrow> bool" for e w where
  none: "delivery e w [] w"
| step: "delivery e w ms v \<Longrightarrow> delivering_step e v out w' \<Longrightarrow> delivery e w (ms @ out) w'"

definition written_to :: "addr \<Rightarrow> (addr \<times> byte list) list \<Rightarrow> byte list list" where
  "written_to a ms = map snd (filter (\<lambda>(b, m). b = a) ms)"

lemma written_to_simps [simp]:
  "written_to a [] = []" "written_to a (xs @ ys) = written_to a xs @ written_to a ys"
  "written_to a [(b, m)] = (if b = a then [m] else [])"
  by (simp_all add: written_to_def)

text \<open>Nothing is left to do: no task is posted and no write outstanding.\<close>

definition quiescent :: "world \<Rightarrow> bool" where
  "quiescent w \<longleftrightarrow> w_posted w = [] \<and> \<not> list_ex is_write (w_pending w)"

text \<open>
  A write of the session has failed: its messages stay queued, as nothing starts the next write.
\<close>

definition stalled :: "addr \<Rightarrow> world \<Rightarrow> bool" where
  "stalled a w \<longleftrightarrow> get_queue a w \<noteq> [] \<and> outstanding_writes a w = []"

lemma delivering_internal:
  assumes "delivering_step e w out w'"
  shows "internal_step e w w'"
  using assms
proof cases
  case (run before t "after")
  show ?thesis by (rule internal_step.run [OF run(2-4)])
next
  case (written a m)
  show ?thesis by (rule internal_step.written [OF written(2) _ written(3)]) simp
next
  case (ws_written a m)
  show ?thesis by (rule internal_step.written [OF ws_written(2) _ ws_written(3)]) simp
qed

section \<open>One step and one session\<close>

lemma outstanding_writes_cong: "w_pending v = w_pending w \<Longrightarrow> outstanding_writes a v = outstanding_writes a w"
  by (simp add: outstanding_writes_def tcp_inflight_def ws_inflight_def)

lemma outstanding_writes_other:
  "b \<noteq> a \<Longrightarrow> outstanding_writes b (finish_op (Write a m) w) = outstanding_writes b w"
  "b \<noteq> a \<Longrightarrow> outstanding_writes b (finish_op (Ws_write a m) w) = outstanding_writes b w"
  "outstanding_writes b (start_op (Read_header a) w) = outstanding_writes b w"
  "outstanding_writes b (start_op (Ws_accept a) w) = outstanding_writes b w"
  "outstanding_writes b (update_session a f w) = outstanding_writes b w"
  by (simp_all add: outstanding_writes_def)

lemma outstanding_writes_on_send:
  "outstanding_writes b (on_send a m w) = [] \<longleftrightarrow> outstanding_writes b w = [] \<and> \<not> (b = a \<and> get_queue a w = [])"
  by (cases "get_type a w")
    (auto simp: on_send_def tcp_on_send_def websocket_on_send_def Let_def outstanding_writes_def)

definition kept :: "addr \<Rightarrow> world \<Rightarrow> (addr \<times> byte list) list \<Rightarrow> world \<Rightarrow> bool" where
  "kept a w out w' \<longleftrightarrow> pipeline a w = written_to a out @ pipeline a w' \<and> (stalled a w' \<longleftrightarrow> stalled a w) \<and>
     (stalled a w \<longrightarrow> written_to a out = [])"

lemma connect_sends_elsewhere:
  assumes "node_ok e w" and "a < w_next w" and "state_connect e host port d cpn w = Inr (r, w')"
  shows "pipeline a w' = pipeline a w" and "w_pending w' = w_pending w" and "get_queue a w' = get_queue a w"
proof -
  from assms(1) have ok: "container_law e" "container_wf w" "set (w_sessions w) \<subseteq> {..<w_next w}"
    by (simp_all add: node_ok_def)
  note eff = state_connect_effect [OF ok(1,2) refl refl ok(3), of host port d cpn]
  have "(\<exists>ts. w_posted w' = w_posted w @ ts \<and> sends_to a ts = []) \<and> w_pending w' = w_pending w \<and> w_heap w' a = w_heap w a"
    using eff assms(2,3) by (auto split: if_splits)
  then show "pipeline a w' = pipeline a w" "w_pending w' = w_pending w" "get_queue a w' = get_queue a w"
    by (auto simp: pipeline_def get_queue_def)
qed

lemma task_kept:
  assumes "runtime_ok e w" and "w_posted w = before @ t # after" and "next_on_strand before t"
    and "run_task e t (w\<lparr>w_posted := before @ after\<rparr>) = Inr w'" and "a < w_next w"
  shows "kept a w [] w'"
proof -
  let ?u = "w\<lparr>w_posted := before @ after\<rparr>"
  have ok: "node_ok e ?u" using runtime_ok_take_task(1) [OF assms(1,2)] by (simp add: runtime_ok_def)
  have u: "get_queue b ?u = get_queue b w" "outstanding_writes b ?u = outstanding_writes b w" for b
    by (simp add: get_queue_def) (rule outstanding_writes_cong, simp)
  have quiet: "kept a w [] w'" if "pipeline a w' = pipeline a ?u" "get_queue a w' = get_queue a w"
    "outstanding_writes a w' = outstanding_writes a w" "\<And>b m. t \<noteq> Run_on_send b m"
    using that assms(2) by (simp add: kept_def stalled_def pipeline_def sends_to_not_send u)
  show ?thesis
  proof (cases t)
    case (Run_on_send b m)
    have w': "w' = on_send b m ?u"
      using assms(4) by (simp add: Run_on_send run_task_def on_send_def split: session_type.splits)
    have "sends_to b before = []"
      using assms(3) by (intro sends_to_none) (simp add: next_on_strand_def Run_on_send)
    then have "pipeline a w' = pipeline a w"
      using assms(2) by (auto simp: pipeline_def w' on_send_fields Run_on_send u)
    moreover have "stalled a w' \<longleftrightarrow> stalled a w"
      by (auto simp: w' stalled_def on_send_fields outstanding_writes_on_send u)
    ultimately show ?thesis by (simp add: kept_def)
  next
    case (Run_connect host port)
    then obtain r where "state_connect e host port False 0 ?u = Inr (r, w')"
      using assms(4) by (auto simp: run_task_def chain_def split: sum.splits)
    note c = connect_sends_elsewhere [OF ok _ this, of a]
    show ?thesis
      using c assms(5) u outstanding_writes_cong [of w' ?u a] by (intro quiet) (simp_all add: Run_connect)
  next
    case (Run_read_header b)
    then show ?thesis
      using assms(4) by (intro quiet)
        (auto simp: run_task_def tcp_read_header_def outstanding_writes_other u pipeline_def)
  next
    case (Run_ws_accept b)
    then show ?thesis
      using assms(4) by (intro quiet) (auto simp: run_task_def outstanding_writes_other u pipeline_def)
  qed
qed

text \<open>The write that completes is the head of the queue, and the next one is started.\<close>

lemma next_write_started:
  "tcp_on_write e a False w = Inr w' \<Longrightarrow> get_queue a w' = [] \<or> outstanding_writes a w' \<noteq> []"
  "websocket_on_write e a False w = Inr w' \<Longrightarrow> get_queue a w' = [] \<or> outstanding_writes a w' \<noteq> []"
  "b \<noteq> a \<Longrightarrow> tcp_on_write e a False w = Inr w' \<Longrightarrow> outstanding_writes b w' = outstanding_writes b w"
  "b \<noteq> a \<Longrightarrow> websocket_on_write e a False w = Inr w' \<Longrightarrow> outstanding_writes b w' = outstanding_writes b w"
  by (auto simp: tcp_on_write_def websocket_on_write_def Let_def outstanding_writes_def get_queue_update
      split: list.splits if_splits)

lemma write_kept:
  assumes "runtime_ok e w" and "op = Write b m \<or> op = Ws_write b m" and "op \<in> set (w_pending w)"
    and "complete_op e op False [] w = Inr w'"
  shows "kept a w [(b, m)] w'"
proof -
  have cases: "Write b m \<in> set (w_pending w) \<and> tcp_on_write e b False (finish_op (Write b m) w) = Inr w' \<or>
      Ws_write b m \<in> set (w_pending w) \<and> websocket_on_write e b False (finish_op (Ws_write b m) w) = Inr w'"
    using assms(2-4) by (auto simp: complete_op_def)
  have m: "m \<in> set (outstanding_writes b w)"
    using assms(2,3) by (auto simp: outstanding_writes_def tcp_inflight_member ws_inflight_member)
  moreover have "outstanding_writes b w = [] \<or> outstanding_writes b w = take 1 (get_queue b w)"
    using assms(1) by (simp add: runtime_ok_def)
  ultimately have "hd (get_queue b w) = m" by (cases "get_queue b w") auto
  moreover have "get_queue b w = hd (get_queue b w) # get_queue b w'" "w_posted w' = w_posted w"
    "b \<noteq> a \<Longrightarrow> get_queue a w' = get_queue a w"
    using cases write_fields(1-3) [OF _ assms(1)] ws_write_fields(1-3) by (metis list.sel(1))+
  moreover have "get_queue b w' = [] \<or> outstanding_writes b w' \<noteq> []"
    using cases next_write_started(1,2) by blast
  moreover have "b \<noteq> a \<Longrightarrow> outstanding_writes a w' = outstanding_writes a w"
    using cases next_write_started(3,4) [of a b] outstanding_writes_other(1,2) by metis
  ultimately show ?thesis
    using m by (auto simp: kept_def pipeline_def stalled_def)
qed

lemma step_kept:
  assumes "delivering_step e w out w'" and "runtime_ok e w" and "a < w_next w"
  shows "kept a w out w'"
  using assms(1)
proof cases
  case (run before t "after")
  then show ?thesis using task_kept [OF assms(2) run(2-4) assms(3)] by simp
qed (use write_kept [OF assms(2)] in blast)+

text \<open>Sessions dialled on the way start with nothing queued and nothing stalled.\<close>

lemma step_new_sessions:
  assumes "delivering_step e w out w'" and "runtime_ok e w"
  shows "w_next w \<le> w_next w' \<and> (\<forall>a. w_next w \<le> a \<longrightarrow> a < w_next w' \<longrightarrow> \<not> stalled a w')"
  using assms(1)
proof cases
  case (run before t "after")
  let ?u = "w\<lparr>w_posted := before @ after\<rparr>"
  have ok: "node_ok e ?u" using runtime_ok_take_task(1) [OF assms(2) run(2)] by (simp add: runtime_ok_def)
  have same: "w_next (update_session a f v) = w_next v" for a f v
    by (simp add: update_session_def)
  show ?thesis
  proof (cases t)
    case (Run_connect host port)
    then obtain r where "state_connect e host port False 0 ?u = Inr (r, w')"
      using run(4) by (auto simp: run_task_def chain_def split: sum.splits)
    then have "evolves ?u w'"
      using state_connect_evolves [OF ok, of host port False 0] by auto
    then show ?thesis by (auto simp: evolves_def stalled_def get_queue_def)
  qed (use run(4) in \<open>auto simp: run_task_def tcp_read_header_def tcp_on_send_def websocket_on_send_def Let_def same
      split: session_type.splits if_splits\<close>)
next
  case (written a m)
  then have "w_next w' = w_next w"
    by (auto simp: complete_op_def tcp_on_write_def Let_def update_session_def split: list.splits if_splits)
  then show ?thesis by simp
next
  case (ws_written a m)
  then have "w_next w' = w_next w"
    by (auto simp: complete_op_def websocket_on_write_def Let_def update_session_def split: list.splits if_splits)
  then show ?thesis by simp
qed

section \<open>All steps\<close>

lemma delivery_invariant:
  assumes "delivery e w ms w'" and "reachable e w" and "container_law e" and "index_law e"
  shows "reachable e w' \<and> w_next w \<le> w_next w' \<and> (\<forall>a < w_next w. kept a w ms w') \<and>
    (\<forall>a. w_next w \<le> a \<longrightarrow> a < w_next w' \<longrightarrow> \<not> stalled a w')"
  using assms(1)
proof induction
  case none
  then show ?case using assms(2) by (auto simp: kept_def)
next
  case (step ms v out w')
  have v: "runtime_ok e v" using reachable_runtime_ok step.IH assms(3,4) by blast
  note new = step_new_sessions [OF step.hyps(2) v]
  have "kept a w (ms @ out) w'" if "a < w_next w" for a
  proof -
    have "kept a v out w'" using step_kept [OF step.hyps(2) v, of a] step.IH that by linarith
    moreover have "kept a w ms v" using step.IH that by blast
    ultimately show ?thesis by (auto simp: kept_def)
  qed
  moreover have "\<not> stalled a w'" if "w_next w \<le> a" "a < w_next w'" for a
  proof (cases "a < w_next v")
    case True
    then show ?thesis using step.IH that(1) step_kept [OF step.hyps(2) v, of a] by (simp add: kept_def)
  qed (use new that in auto)
  ultimately show ?case
    using new step.IH internal_step_reachable [OF delivering_internal [OF step.hyps(2)]] by auto
qed

lemma not_quiescent_steps:
  assumes "runtime_ok e w" and "\<not> quiescent w"
  shows "\<exists>out w'. delivering_step e w out w'"
proof (cases "w_posted w")
  case (Cons t ts)
  let ?v = "w\<lparr>w_posted := [] @ ts\<rparr>"
  have ok: "node_ok e ?v"
    using runtime_ok_take_task(1) [OF assms(1), of "[]" t ts] Cons by (simp add: runtime_ok_def)
  have "\<exists>w'. run_task e t ?v = Inr w'"
  proof (cases t)
    case (Run_connect host port)
    obtain r w' where "state_connect e host port False 0 ?v = Inr (r, w')"
      by (rule state_connect_evolves [OF ok])
    then show ?thesis by (simp add: run_task_def Run_connect)
  qed (simp_all add: run_task_def split: session_type.split)
  then show ?thesis
    using Cons delivering_step.run [of w "[]" t ts e] by (auto simp: next_on_strand_def)
next
  case Nil
  then obtain op where op: "op \<in> set (w_pending w)" "is_write op"
    using assms(2) by (auto simp: quiescent_def list_ex_iff)
  obtain a m where am: "op = Write a m \<or> op = Ws_write a m"
    using op(2) by (cases op) auto
  then have "get_queue a (finish_op op w) \<noteq> []"
    using runtime_ok_finish(4) [OF assms(1) op(1) am] by simp
  then have "\<exists>w'. complete_op e op False [] w = Inr w'"
    using am by (auto simp: complete_op_def tcp_on_write_def websocket_on_write_def Let_def split: list.split)
  then show ?thesis using op(1) am by (auto intro: delivering_step.intros)
qed

lemma reaches_quiescence:
  assumes "runtime_ok e w"
  shows "\<exists>ms w'. delivery e w ms w' \<and> quiescent w'"
proof -
  have "\<exists>ms' w'. delivery e w ms' w' \<and> quiescent w'" if "delivery e w ms v" "runtime_ok e v" for ms v
    using that
  proof (induction v arbitrary: ms rule: wf_induct_rule [OF wf_less_work])
    case (1 v)
    show ?case
    proof (cases "quiescent v")
      case False
      then obtain out u where u: "delivering_step e v out u"
        using not_quiescent_steps [OF "1.prems"(2)] by blast
      note work = internal_step_work [OF delivering_internal [OF u] "1.prems"(2)]
      show ?thesis using "1.IH" [of u] work delivery.step [OF "1.prems"(1) u] by blast
    qed (use "1.prems" in blast)
  qed
  then show ?thesis using delivery.none assms by blast
qed

text \<open>
  C19. The work gets done: when its writes succeed, a node left to itself reaches, from every reachable state, a
  state with no task posted and no write outstanding, and short of it there is always a step to take.  Whatever
  the order of the steps, in that state every queue is empty and every session has been written exactly the
  messages that were queued or posted for it, each once and in order; only a session that was stalled already,
  by a failed write, gets nothing.
\<close>

theorem work_gets_done:
  assumes "reachable e w" and "container_law e" and "index_law e"
  shows "(\<exists>ms w'. delivery e w ms w' \<and> quiescent w') \<and>
    (\<forall>ms w'. delivery e w ms w' \<longrightarrow>
       reachable e w' \<and> (quiescent w' \<longleftrightarrow> \<not> (\<exists>out v. delivering_step e w' out v)) \<and>
       (quiescent w' \<longrightarrow>
          (\<forall>a < w_next w'. get_queue a w' = [] \<or> a < w_next w \<and> stalled a w) \<and>
          (\<forall>a < w_next w. written_to a ms = (if stalled a w then [] else get_queue a w @ sends_to a (w_posted w)))))"
proof (intro conjI allI impI)
  show "\<exists>ms w'. delivery e w ms w' \<and> quiescent w'"
    by (rule reaches_quiescence [OF reachable_runtime_ok [OF assms]])
next
  fix ms w' assume run: "delivery e w ms w'"
  note inv = delivery_invariant [OF run assms]
  have ok: "runtime_ok e w'" using reachable_runtime_ok inv assms(2,3) by blast
  show "reachable e w'" using inv by simp
  have "\<not> delivering_step e w' out v" if "quiescent w'" for out v
    using that by (auto simp: quiescent_def list_ex_iff elim!: delivering_step.cases)
  then show "quiescent w' \<longleftrightarrow> \<not> (\<exists>out v. delivering_step e w' out v)"
    using not_quiescent_steps [OF ok] by blast
  assume quiet: "quiescent w'"
  have "outstanding_writes a w' = []" for a
  proof (rule ccontr)
    assume "outstanding_writes a w' \<noteq> []"
    then have "hd (outstanding_writes a w') \<in> set (outstanding_writes a w')" by simp
    then show False
      using quiet by (auto simp: quiescent_def list_ex_iff outstanding_writes_def tcp_inflight_member ws_inflight_member)
  qed
  then have queue: "get_queue a w' = [] \<longleftrightarrow> \<not> stalled a w'" for a
    by (simp add: stalled_def)
  show "get_queue a w' = [] \<or> a < w_next w \<and> stalled a w" if "a < w_next w'" for a
    using that inv queue [of a] by (cases "a < w_next w") (auto simp: kept_def)
  show "written_to a ms = (if stalled a w then [] else get_queue a w @ sends_to a (w_posted w))" if "a < w_next w" for a
  proof -
    have "kept a w ms w'" using inv that by blast
    moreover have "w_posted w' = []" using quiet by (simp add: quiescent_def)
    ultimately show ?thesis using queue [of a] by (auto simp: kept_def pipeline_def)
  qed
qed

text \<open>A node that was given a broadcast writes it to its one peer.\<close>

theorem work_gets_done_witness:
  "\<exists>ms w'. delivery demo_env (broadcast_to_nodes [7] demo_accepted) ms w' \<and> quiescent w' \<and> written_to 0 ms = [[7]]"
proof -
  let ?w = "broadcast_to_nodes [7] demo_accepted"
  have reach: "reachable demo_env ?w"
    by (rule reachable.step [OF demo_accepted_reachable node_attempt.broadcast])
  have "broadcast_targets demo_accepted = [0]"
    by (simp add: broadcast_targets_def demo_accepted_eq get_type_def)
  then have "get_queue 0 ?w @ sends_to 0 (w_posted ?w) = [[7]]" "0 < w_next ?w" "\<not> stalled 0 ?w"
    by (simp_all add: broadcast_eq get_queue_def demo_accepted_eq demo_accepted_posted stalled_def)
  then show ?thesis
    using work_gets_done [OF reach demo_container_law demo_index_law] by metis
qed

end
