(* ===== verification/Listening.thy ===== *)
theory Listening
  imports Runtime_Termination Cluster_Directory
begin

text \<open>
  The accept loops of the two listeners: they never end, whatever else the node does and however often an accept
  fails, and every accepted connection is registered and read from.
\<close>

section \<open>Outstanding accepts\<close>

text \<open>
  How many accepts of each listener are outstanding.  An accept that completes is always followed by the
  next one.
\<close>

definition listening :: "world \<Rightarrow> nat \<times> nat" where
  "listening w = (count_list (w_pending w) Tcp_listen, count_list (w_pending w) Ws_listen)"

lemma listening_cong: "w_pending v = w_pending w \<Longrightarrow> listening v = listening w"
  by (simp add: listening_def)

lemma listening_evolves: "evolves w w' \<Longrightarrow> listening w' = listening w"
  by (rule listening_cong) (simp add: evolves_def)

lemma listening_start [simp]: "op_session op = Some a \<Longrightarrow> listening (start_op op w) = listening w"
  by (cases op) (simp_all add: listening_def)

lemma listening_update [simp]: "listening (update_session a f w) = listening w"
  by (rule listening_cong) (simp add: update_session_def)

lemma listening_finish:
  assumes "op_session op = Some a"
  shows "listening (finish_op op w) = listening w"
proof -
  have "count_list (remove1 op ops) l = count_list ops l" if "l \<noteq> op" for l ops
    using that by (induction ops) auto
  then show ?thesis using assms by (cases op) (simp_all add: listening_def finish_op_def)
qed

lemma listening_drop:
  assumes "node_ok e w" and "drop_session e a w = Inr w'"
  shows "listening w' = listening w"
  using drop_session_evolves [OF assms(1), of a] assms(2) listening_evolves by (metis sum.inject(2))

lemma listening_answer:
  assumes "node_ok e w" and "a < w_next w" and "op_session op = Some b"
    and "answer_and (start_op op) e frame a w = Inr w'"
  shows "listening w' = listening w"
  using assms(1,2)
proof (cases rule: answer_and_cases [of e w a "start_op op" frame])
  case (goes_on v)
  then show ?thesis using assms(3,4) listening_evolves [OF goes_on(3)] by simp
qed (use assms(4) in simp)

lemma listening_on_send:
  "listening (tcp_on_send a m w) = listening w" "listening (websocket_on_send a m w) = listening w"
  by (simp_all add: tcp_on_send_def websocket_on_send_def Let_def)

lemma listening_on_write:
  assumes "node_ok e w"
  shows "tcp_on_write e a error w = Inr w' \<Longrightarrow> listening w' = listening w"
    and "websocket_on_write e a error w = Inr w' \<Longrightarrow> listening w' = listening w"
  using listening_drop [OF assms, of a w']
  by (auto simp: tcp_on_write_def websocket_on_write_def Let_def split: list.splits if_splits)

lemma listening_session_task:
  assumes "node_ok e w" and "run_task e t w = Inr w'"
  shows "listening w' = listening w"
proof (cases t)
  case (Run_connect host port)
  obtain r v where "state_connect e host port False 0 w = Inr (r, v)" "evolves w v"
    using state_connect_evolves [OF assms(1)] by blast
  then show ?thesis
    using assms(2) listening_evolves by (simp add: run_task_def Run_connect)
qed (use assms(2) in \<open>auto simp: run_task_def tcp_read_header_def listening_on_send split: session_type.splits\<close>)

lemma listening_session_op:
  assumes "node_ok e (finish_op op w)" and "op_session op = Some a" and "a < w_next w"
    and "complete_op e op error bytes w = Inr w'"
  shows "listening w' = listening w"
proof -
  let ?v = "finish_op op w"
  have v: "listening ?v = listening w" by (rule listening_finish [OF assms(2)])
  note drop = listening_drop [OF assms(1), of a w']
  show ?thesis
  proof (cases op)
    case (Read_header b)
    let ?u = "update_session a (\<lambda>s. s\<lparr>s_header_length := get32 bytes\<rparr>) ?v"
    have "listening w' = listening ?u" if "drop_session e a ?u = Inr w'"
      using that assms(1) by (intro listening_drop [of e ?u a] node_ok_update_session) simp_all
    then show ?thesis
      using assms(2,4) v
      by (auto simp: complete_op_def Read_header tcp_on_header_def tcp_read_body_def Let_def split: if_splits)
  next
    case (Read_body b n)
    then show ?thesis
      using assms(2-4) v drop listening_answer [OF assms(1), of a "Read_header a" a bytes w']
      by (cases error) (simp_all add: complete_op_def on_body_answer_and tcp_read_header_def [abs_def],
          simp add: tcp_on_body_def)
  next
    case (Write b m)
    then show ?thesis
      using assms(2,4) v listening_on_write(1) [OF assms(1)] by (simp add: complete_op_def)
  next
    case (Ws_accept b)
    show ?thesis
    proof (cases error)
      case True
      then show ?thesis
        using assms(2,4) v drop by (simp add: complete_op_def Ws_accept websocket_on_accept_def)
    next
      case False
      have "w_pending w' = w_pending (start_op (Ws_read a) ?v)"
        using assms(2,4) False
        by (auto simp: complete_op_def Ws_accept websocket_on_accept_eq Let_def update_session_def)
      then have "listening w' = listening (start_op (Ws_read a) ?v)" by (rule listening_cong)
      then show ?thesis using v by simp
    qed
  next
    case (Ws_read b)
    then show ?thesis
      using assms(2-4) v drop listening_answer [OF assms(1), of a "Ws_read a" a bytes w']
      by (cases error) (simp_all add: complete_op_def on_body_answer_and websocket_read_body_def [abs_def],
          simp add: websocket_on_read_def)
  next
    case (Ws_write b m)
    then show ?thesis
      using assms(2,4) v listening_on_write(2) [OF assms(1)] by (simp add: complete_op_def)
  qed (use assms(2) in simp_all)
qed

lemma accept_starts_listening:
  assumes "node_ok e w"
  shows "w_pending (tcp_on_accepted e error w) = w_pending w @ [Tcp_listen]"
    and "w_pending (websocket_on_accepted e error w) = w_pending w @ [Ws_listen]"
proof -
  have "container_law e" using assms by (simp add: node_ok_def)
  then have add: "w_pending (snd (add_session e a u)) = w_pending u" for a u
    using add_session_fields(4) by (metis prod.collapse)
  have "w_pending (session_start a u) = w_pending u" for a u
    by (simp add: session_start_eq split: session_type.split)
  with add show "w_pending (tcp_on_accepted e error w) = w_pending w @ [Tcp_listen]"
    "w_pending (websocket_on_accepted e error w) = w_pending w @ [Ws_listen]"
    by (cases error; simp add: tcp_on_accepted_eq websocket_on_accepted_eq;
        simp add: tcp_on_accepted_def websocket_on_accepted_def tcp_do_accept_def websocket_do_accept_def)+
qed

lemma listening_attempt:
  assumes "node_attempt e w (Inr w')" and "runtime_ok e w"
  shows "listening w' = listening w"
  using assms(1)
proof (cases rule: node_attempt.cases)
  case (task before t "after")
  have "node_ok e (w\<lparr>w_posted := before @ after\<rparr>)"
    using runtime_ok_take_task(1) [OF assms(2) task(2)] by (simp add: runtime_ok_def)
  from listening_session_task [OF this task(1) [symmetric]] show ?thesis
    by (simp add: listening_def)
next
  case (completion op bytes error)
  note fin = runtime_ok_finish [OF assms(2) completion(2)]
  have ok: "node_ok e (finish_op op w)" using fin(1) by (simp add: runtime_ok_def)
  show ?thesis
  proof (cases "op_session op")
    case (Some a)
    then show ?thesis
      using listening_session_op [OF ok Some] fin(3) completion(1) by metis
  next
    case None
    then have "op = Tcp_listen \<or> op = Ws_listen" by (cases op) simp_all
    moreover have "count_list (w_pending w) op \<noteq> 0"
      using completion(2) by (simp add: count_list_0_iff)
    ultimately show ?thesis
      using completion(1) accept_starts_listening [OF ok, of error]
      by (auto simp: complete_op_def listening_def finish_op_def)
  qed
next
  case (connect host port)
  have "node_ok e w" using assms(2) by (simp add: runtime_ok_def)
  then obtain r v where "state_connect e host port True (connections_per_node (w_config w)) w = Inr (r, v)"
    "evolves w v" using state_connect_evolves by blast
  then show ?thesis using connect listening_evolves by (simp add: node_connect_def)
next
  case (disconnect n)
  have "node_ok e w" using assms(2) by (simp add: runtime_ok_def)
  then show ?thesis
    using disconnect remove_sessions_evolves listening_evolves
    by (metis node_disconnect_def state_disconnect_def sum.inject(2))
next
  case disconnect_all
  have "node_ok e w" using assms(2) by (simp add: runtime_ok_def)
  then show ?thesis
    using disconnect_all remove_sessions_evolves listening_evolves
    by (metis node_disconnect_all_def disconnect_all_def sum.inject(2))
next
  case (broadcast m)
  then show ?thesis by (simp add: broadcast_eq listening_def)
next
  case (send n m)
  then show ?thesis by (simp add: send_to_node_def session_send_eq listening_def Let_def)
qed

text \<open>
  The node never stops listening: in every reachable state exactly one accept of the TCP listener
  and one of the WebSocket listener are outstanding, also after failed accepts.
\<close>

lemma reachable_listening:
  assumes "reachable e w" and "container_law e" and "index_law e"
  shows "count_list (w_pending w) Tcp_listen = 1 \<and> count_list (w_pending w) Ws_listen = 1"
proof -
  have "listening w = (1, 1)"
    using assms(1)
  proof induction
    case (start p q th port ws cpn)
    show ?case
      by (simp add: listening_def node_run_def websocket_do_accept_def new_websocket_listener_def
          tcp_do_accept_def new_tcp_listener_def node_parse_args_def new_state_def start_op_def Let_def)
  next
    case (step w w')
    then show ?case using listening_attempt reachable_runtime_ok [OF step.hyps(1) assms(2,3)] by metis
  qed
  then show ?thesis by (simp add: listening_def)
qed

section \<open>Accepting\<close>

lemma accepted_posted:
  assumes "container_law e"
  shows "w_posted (tcp_on_accepted e error w) = w_posted w @ (if error then [] else [Run_read_header (w_next w)])"
    and "w_posted (websocket_on_accepted e error w) = w_posted w @ (if error then [] else [Run_ws_accept (w_next w)])"
proof -
  have add: "w_posted (snd (add_session e a u)) = w_posted u" "w_heap (snd (add_session e a u)) = w_heap u" for a u
    using add_session_fields(1,3) [OF _ assms] by (metis prod.collapse)+
  show "w_posted (tcp_on_accepted e error w) = w_posted w @ (if error then [] else [Run_read_header (w_next w)])"
    by (cases error; simp add: tcp_on_accepted_eq session_start_eq get_type_def add dialled_session_def;
        simp add: tcp_on_accepted_def tcp_do_accept_def)
  show "w_posted (websocket_on_accepted e error w) = w_posted w @ (if error then [] else [Run_ws_accept (w_next w)])"
    by (cases error; simp add: websocket_on_accepted_eq session_start_eq get_type_def add local_websocket_def;
        simp add: websocket_on_accepted_def websocket_do_accept_def)
qed



end
