(* ===== verification/Concurrent_State.thy ===== *)
theory Concurrent_State
  imports Evolution
begin

text \<open>
  The operations of \<^verbatim>\<open>state\<close> as several threads run them, at the granularity of the mutex of the container:
  each locked block is one step, and whatever other threads do may come between two blocks.  The code
  disconnects a session only after it has released the lock, because disconnecting a WebSocket session
  broadcasts, and a broadcast takes the lock again.
\<close>

section \<open>Threads\<close>

text \<open>
  Where a thread is: about to enter an operation, holding a session it has taken out of the container and
  not yet disconnected (\<open>Close\<close>, \<open>Drain_close\<close>), in the loop over the ids of a snapshot (\<open>Drain\<close>), or done,
  with the value returned.
\<close>

datatype pc =
    Add addr
  | Remove uuid
  | Close addr
  | Disconnect_node uuid
  | Disconnect_every
  | Drain "uuid list"
  | Drain_close addr "uuid list"
  | Finished bool

text \<open>The locked block of \<^verbatim>\<open>remove_session\<close>: find the session, keep a pointer to it, erase it.\<close>

definition take_session :: "uuid \<Rightarrow> world \<Rightarrow> addr option \<times> world" where
  "take_session i w =
     (case find_by_id w i of
        None \<Rightarrow> (None, w)
      | Some a \<Rightarrow> (Some a, container_erase a w))"

fun thread_step :: "env \<Rightarrow> pc \<Rightarrow> world \<Rightarrow> fault + (pc \<times> world)" where
  "thread_step e (Add a) w = (let (added, w') = add_session e a w in Inr (Finished added, w'))"
| "thread_step e (Remove i) w =
     (let (taken, w') = take_session i w
      in Inr (case taken of None \<Rightarrow> Finished False | Some a \<Rightarrow> Close a, w'))"
| "thread_step e (Close a) w = chain (session_disconnect e a w) (\<lambda>w'. Inr (Finished True, w'))"
| "thread_step e (Disconnect_node n) w =
     Inr (Drain (map (\<lambda>a. get_id a w) (node_range e (w_sessions w) (w_filed w) (w_heap w) n)), w)"
| "thread_step e Disconnect_every w = Inr (Drain (map (\<lambda>a. get_id a w) (w_sessions w)), w)"
| "thread_step e (Drain []) w = Inr (Finished True, w)"
| "thread_step e (Drain (i # ids)) w =
     (let (taken, w') = take_session i w
      in Inr (case taken of None \<Rightarrow> Drain ids | Some a \<Rightarrow> Drain_close a ids, w'))"
| "thread_step e (Drain_close a ids) w = chain (session_disconnect e a w) (\<lambda>w'. Inr (Drain ids, w'))"
| "thread_step e (Finished r) w = Inr (Finished r, w)"

fun finished :: "pc \<Rightarrow> bool" where
  "finished (Finished r) \<longleftrightarrow> True"
| "finished _ \<longleftrightarrow> False"

section \<open>One thread alone\<close>

text \<open>A thread that is not interrupted does what the operations of \<open>Node_State\<close> say.\<close>

lemma disconnect_returns: "\<exists>w'. session_disconnect e a w = Inr w'"
  by (simp add: session_disconnect_eq)

lemma remove_session_steps:
  "remove_session e i w = chain (thread_step e (Remove i) w) (\<lambda>(p, w1).
     chain (thread_step e p w1) (\<lambda>(q, w2). Inr (q = Finished True, w2)))"
proof (cases "find_by_id w i")
  case (Some a)
  obtain v where "session_disconnect e a (container_erase a w) = Inr v"
    using disconnect_returns by blast
  then show ?thesis using Some by (simp add: remove_session_def take_session_def)
qed (simp add: remove_session_def take_session_def)

fun run_thread :: "env \<Rightarrow> nat \<Rightarrow> pc \<Rightarrow> world \<Rightarrow> fault + (pc \<times> world)" where
  "run_thread e 0 p w = Inr (p, w)"
| "run_thread e (Suc k) p w =
     (if finished p then Inr (p, w) else chain (thread_step e p w) (\<lambda>(q, w'). run_thread e k q w'))"

lemma run_finished [simp]: "run_thread e k (Finished r) w = Inr (Finished r, w)"
  by (cases k) simp_all

lemma run_drain:
  "\<exists>w'. remove_sessions e ids w = Inr w' \<and>
    run_thread e (Suc (2 * length ids)) (Drain ids) w = Inr (Finished True, w')"
proof (induction ids arbitrary: w)
  case Nil
  then show ?case by simp
next
  case (Cons i ids)
  have more: "run_thread e (Suc k) p w = Inr (Finished r, w')"
    if "run_thread e k p w = Inr (Finished r, w')" for k p w r w'
    using that
  proof (induction k arbitrary: p w)
    case (Suc k)
    then show ?case
      by (cases "finished p"; cases "thread_step e p w") auto
  qed simp
  show ?case
  proof (cases "find_by_id w i")
    case None
    obtain w' where w': "remove_sessions e ids w = Inr w'"
      "run_thread e (Suc (2 * length ids)) (Drain ids) w = Inr (Finished True, w')"
      using Cons.IH by blast
    have "run_thread e (Suc (Suc (2 * length ids))) (Drain ids) w = Inr (Finished True, w')"
      by (rule more [OF w'(2)])
    then show ?thesis using w'(1) None by (simp add: remove_session_def take_session_def)
  next
    case (Some a)
    obtain v where v: "session_disconnect e a (container_erase a w) = Inr v"
      using disconnect_returns by blast
    obtain w' where "remove_sessions e ids v = Inr w'"
      "run_thread e (Suc (2 * length ids)) (Drain ids) v = Inr (Finished True, w')"
      using Cons.IH by blast
    then show ?thesis using Some v by (simp add: remove_session_def take_session_def)
  qed
qed

lemma run_alone:
  "\<exists>k w'. state_disconnect e n w = Inr w' \<and> run_thread e k (Disconnect_node n) w = Inr (Finished True, w')"
  "\<exists>k w'. disconnect_all e w = Inr w' \<and> run_thread e k Disconnect_every w = Inr (Finished True, w')"
proof -
  let ?ids = "map (\<lambda>a. get_id a w) (node_range e (w_sessions w) (w_filed w) (w_heap w) n)"
  obtain w' where "remove_sessions e ?ids w = Inr w'"
    "run_thread e (Suc (2 * length ?ids)) (Drain ?ids) w = Inr (Finished True, w')"
    using run_drain by blast
  then show "\<exists>k w'. state_disconnect e n w = Inr w' \<and> run_thread e k (Disconnect_node n) w = Inr (Finished True, w')"
    by (intro exI [of _ "Suc (Suc (2 * length ?ids))"] exI [of _ w']) (simp add: state_disconnect_def)
next
  let ?ids = "map (\<lambda>a. get_id a w) (w_sessions w)"
  obtain w' where "remove_sessions e ?ids w = Inr w'"
    "run_thread e (Suc (2 * length ?ids)) (Drain ?ids) w = Inr (Finished True, w')"
    using run_drain by blast
  then show "\<exists>k w'. disconnect_all e w = Inr w' \<and> run_thread e k Disconnect_every w = Inr (Finished True, w')"
    by (intro exI [of _ "Suc (Suc (2 * length ?ids))"] exI [of _ w']) (simp add: disconnect_all_def)
qed

section \<open>Any number of threads\<close>

text \<open>
  \<open>c_closed\<close> and \<open>c_refused\<close> record which sessions have been disconnected, and which were not added because
  their id was taken.
\<close>

record concurrent =
  c_world :: world
  c_threads :: "pc list"
  c_closed :: "addr list"
  c_refused :: "addr list"

fun closes :: "pc \<Rightarrow> addr list" where
  "closes (Close a) = [a]"
| "closes (Drain_close a ids) = [a]"
| "closes _ = []"

fun refuses :: "pc \<Rightarrow> pc \<Rightarrow> addr list" where
  "refuses (Add a) (Finished added) = (if added then [] else [a])"
| "refuses _ _ = []"

inductive concurrent_step :: "env \<Rightarrow> concurrent \<Rightarrow> concurrent \<Rightarrow> bool" for e where
  thread: "k < length (c_threads c) \<Longrightarrow> \<not> finished (c_threads c ! k) \<Longrightarrow>
    thread_step e (c_threads c ! k) (c_world c) = Inr (p, w') \<Longrightarrow>
    concurrent_step e c (c\<lparr>c_world := w', c_threads := (c_threads c)[k := p],
      c_closed := c_closed c @ closes (c_threads c ! k),
      c_refused := c_refused c @ refuses (c_threads c ! k) p\<rparr>)"

section \<open>No session is lost or closed twice\<close>

text \<open>The sessions a thread answers for: the one it is to add, or has taken out and is to disconnect.\<close>

fun holds :: "pc \<Rightarrow> addr multiset" where
  "holds (Add a) = {#a#}"
| "holds (Close a) = {#a#}"
| "holds (Drain_close a ids) = {#a#}"
| "holds _ = {#}"

definition held :: "pc list \<Rightarrow> addr multiset" where
  "held ts = (\<Sum>p \<in># mset ts. holds p)"

text \<open>Where every session is: in the container, with a thread, disconnected, or refused.\<close>

definition places :: "concurrent \<Rightarrow> addr multiset" where
  "places c = mset (w_sessions (c_world c)) + held (c_threads c) + mset (c_closed c) + mset (c_refused c)"

lemma held_update:
  assumes "k < length ts"
  shows "held (ts[k := p]) + holds (ts ! k) = held ts + holds p"
proof -
  have "ts ! k \<in># mset ts" using assms by simp
  then have "mset ts = add_mset (ts ! k) (mset ts - {#ts ! k#})" by simp
  then have "held ts = holds (ts ! k) + (\<Sum>p \<in># mset ts - {#ts ! k#}. holds p)"
    unfolding held_def by (metis image_mset_add_mset sum_mset.add_mset)
  then show ?thesis
    using assms by (simp add: held_def mset_update)
qed

lemma disconnect_sessions: "session_disconnect e a w = Inr w' \<Longrightarrow> w_sessions w' = w_sessions w"
  by (auto simp: session_disconnect_eq split: session_type.splits)

lemma take_session_places:
  assumes "take_session i w = (r, w')"
  shows "mset (w_sessions w) = mset (w_sessions w') + (case r of None \<Rightarrow> {#} | Some a \<Rightarrow> {#a#})"
proof (cases "find_by_id w i")
  case (Some a)
  then have "a \<in> set (w_sessions w)"
    by (auto simp: find_by_id_def find_Some_iff)
  moreover have "r = Some a" "w' = container_erase a w"
    using Some assms by (simp_all add: take_session_def)
  ultimately show ?thesis by (simp add: container_erase_def)
qed (use assms in \<open>auto simp: take_session_def\<close>)

lemma thread_step_places:
  assumes "thread_step e p w = Inr (q, w')" and "container_law e" and "\<not> finished p"
  shows "mset (w_sessions w') + holds q + mset (closes p) + mset (refuses p q) = mset (w_sessions w) + holds p"
  using assms
proof (cases p)
  case (Add a)
  then show ?thesis
    using assms(1,2) by (auto simp: add_session_def container_insert_def container_law_def split: option.splits)
next
  case (Remove i)
  then show ?thesis
    using assms(1) take_session_places [of i w] by (auto split: option.splits prod.splits)
next
  case (Close a)
  then show ?thesis
    using assms(1) by (auto simp: chain_def disconnect_sessions split: sum.splits)
next
  case (Drain ids)
  then show ?thesis
    using assms(1) take_session_places [of "hd ids" w] by (cases ids) (auto split: option.splits prod.splits)
next
  case (Drain_close a ids)
  then show ?thesis
    using assms(1) by (auto simp: chain_def disconnect_sessions split: sum.splits)
qed auto

lemma concurrent_step_places:
  assumes "concurrent_step e c c'" and "container_law e"
  shows "places c' = places c"
  using assms(1)
proof cases
  case (thread k p w')
  let ?t = "c_threads c ! k"
  have "held ((c_threads c)[k := p]) + holds ?t = held (c_threads c) + holds p"
    by (rule held_update [OF thread(2)])
  moreover have "mset (w_sessions w') + holds p + mset (closes ?t) + mset (refuses ?t p) =
      mset (w_sessions (c_world c)) + holds ?t"
    by (rule thread_step_places [OF thread(4) assms(2) thread(3)])
  ultimately have "held ((c_threads c)[k := p]) + mset (w_sessions w') + mset (closes ?t) + mset (refuses ?t p) + holds p
      = held (c_threads c) + mset (w_sessions (c_world c)) + holds p"
    by (metis (no_types, lifting) add.assoc add.commute add_right_cancel)
  then show ?thesis
    by (simp add: places_def thread(1) ac_simps)
qed

lemma concurrent_steps_places:
  assumes "(concurrent_step e)\<^sup>*\<^sup>* c c'" and "container_law e"
  shows "places c' = places c"
  using assms(1) by (induction rule: rtranclp_induct) (simp_all add: concurrent_step_places [OF _ assms(2)])

text \<open>A disconnected session is closed and stays so.\<close>

lemma thread_step_open:
  assumes "thread_step e p w = Inr (q, w')"
  shows "s_open (w_heap w' b) \<longrightarrow> s_open (w_heap w b) \<and> b \<notin> set (closes p)"
proof -
  have d: "s_open (w_heap v b) \<longleftrightarrow> s_open (w_heap w b) \<and> b \<noteq> a" if "session_disconnect e a w = Inr v" for a v
    using that by (auto simp: session_disconnect_eq split: session_type.splits)
  show ?thesis
    using assms
    by (cases "(e, p, w)" rule: thread_step.cases)
      (auto simp: d add_session_def container_insert_def take_session_def container_erase_def chain_def
        split: option.splits sum.splits)
qed

lemma concurrent_steps_closed:
  assumes "(concurrent_step e)\<^sup>*\<^sup>* c c'" and "\<forall>a \<in> set (c_closed c). \<not> s_open (w_heap (c_world c) a)"
  shows "\<forall>a \<in> set (c_closed c'). \<not> s_open (w_heap (c_world c') a)"
  using assms
proof (induction rule: rtranclp_induct)
  case (step c c')
  from step.hyps(2) show ?case
  proof cases
    case (thread k p w')
    then show ?thesis using thread_step_open [OF thread(4)] step.IH step.prems by auto
  qed
qed simp

lemma held_finished: "list_all finished ts \<Longrightarrow> held ts = {#}"
proof (induction ts)
  case (Cons p ts)
  then show ?case by (cases p) (simp_all add: held_def)
qed (simp add: held_def)

text \<open>
  C14. Threads that add, remove and disconnect sessions at the same time lose none and close none twice:
  from distinct sessions, under every interleaving of their locked blocks, each session taken out of the
  container is held by one thread until it is disconnected, each is disconnected at most once, and once
  disconnected its socket is closed and it is not in the container.  When all threads are done, every
  session there was or was to be added is in the container, or disconnected, or was refused.
\<close>

theorem sessions_closed_once:
  assumes "(concurrent_step e)\<^sup>*\<^sup>* c c'" and "container_law e"
    and "\<forall>a. count (mset (w_sessions (c_world c)) + held (c_threads c)) a \<le> 1"
    and "c_closed c = []" and "c_refused c = []"
  shows "distinct (c_closed c') \<and> set (c_closed c') \<inter> set (w_sessions (c_world c')) = {} \<and>
    (\<forall>a \<in> set (c_closed c'). \<not> s_open (w_heap (c_world c') a)) \<and>
    (list_all finished (c_threads c') \<longrightarrow>
      mset (w_sessions (c_world c)) + held (c_threads c) =
        mset (w_sessions (c_world c')) + mset (c_closed c') + mset (c_refused c'))"
proof -
  have eq: "places c' = mset (w_sessions (c_world c)) + held (c_threads c)"
    using concurrent_steps_places [OF assms(1,2)] assms(4,5) by (simp add: places_def)
  then have one: "count (places c') a \<le> 1" for a using assms(3) by simp
  have "count (mset (c_closed c')) a \<le> 1" for a
    using one [of a] by (simp add: places_def)
  then have "distinct (c_closed c')"
    by (metis distinct_count_atmost_1 count_mset_0_iff le_antisym not_less_eq_eq One_nat_def Suc_le_eq not_gr_zero count_mset_gt_0)
  moreover have "a \<notin> set (w_sessions (c_world c'))" if "a \<in> set (c_closed c')" for a
  proof
    assume "a \<in> set (w_sessions (c_world c'))"
    then have "0 < count (mset (w_sessions (c_world c'))) a" "0 < count (mset (c_closed c')) a"
      using that by simp_all
    moreover have "count (mset (w_sessions (c_world c'))) a + count (mset (c_closed c')) a \<le> count (places c') a"
      by (simp add: places_def)
    ultimately show False using one [of a] by linarith
  qed
  moreover have "\<forall>a \<in> set (c_closed c'). \<not> s_open (w_heap (c_world c') a)"
    using concurrent_steps_closed [OF assms(1)] assms(4) by simp
  ultimately show ?thesis
    using eq held_finished by (auto simp: places_def)
qed

section \<open>Racing for one session\<close>

definition won :: "pc \<Rightarrow> bool" where
  "won p \<longleftrightarrow> (case p of Close a \<Rightarrow> True | Finished r \<Rightarrow> r | _ \<Rightarrow> False)"

definition racing :: "uuid \<Rightarrow> pc \<Rightarrow> bool" where
  "racing i p \<longleftrightarrow> (case p of Remove j \<Rightarrow> j = i | Close a \<Rightarrow> True | Finished r \<Rightarrow> True | _ \<Rightarrow> False)"

definition registered :: "uuid \<Rightarrow> world \<Rightarrow> nat" where
  "registered i w = (if find_by_id w i = None then 0 else 1)"

lemma disconnect_registered:
  assumes "session_disconnect e a w = Inr w'"
  shows "find_by_id w' = find_by_id w" and "container_wf w' = container_wf w"
proof -
  have "w_sessions w' = w_sessions w" "s_id (w_heap w' b) = s_id (w_heap w b)" for b
    using assms by (auto simp: session_disconnect_eq split: session_type.splits)
  then show "find_by_id w' = find_by_id w" "container_wf w' = container_wf w"
    by (intro find_by_id_cong container_wf_cong; simp)+
qed

lemma race_step:
  assumes "thread_step e p w = Inr (q, w')" and "racing i p" and "\<not> finished p" and "container_wf w"
  shows "racing i q \<and> container_wf w' \<and>
    registered i w' + (if won q then 1 else 0) = registered i w + (if won p then 1 else 0)"
proof (cases p)
  case (Remove j)
  then have j: "j = i" using assms(2) by (simp add: racing_def)
  show ?thesis
  proof (cases "find_by_id w i")
    case None
    then show ?thesis
      using assms Remove j by (auto simp: take_session_def racing_def won_def registered_def)
  next
    case (Some a)
    then have "find_by_id (container_erase a w) i = None"
      using assms(4) by (simp add: find_by_id_erase)
    moreover have "container_wf (container_erase a w)"
      using assms(4) by (rule container_wf_erase)
    ultimately show ?thesis
      using assms(1) Remove j Some by (auto simp: take_session_def racing_def won_def registered_def)
  qed
next
  case (Close a)
  then obtain v where v: "session_disconnect e a w = Inr v" "q = Finished True" "w' = v"
    using assms(1) by (auto simp: chain_def split: sum.splits)
  then show ?thesis
    using Close disconnect_registered [OF v(1)] assms(4) by (simp add: racing_def won_def registered_def)
qed (use assms(2,3) in \<open>simp_all add: racing_def\<close>)

definition winners :: "pc list \<Rightarrow> nat" where
  "winners ts = length (filter won ts)"

lemma winners_update:
  assumes "k < length ts"
  shows "winners (ts[k := p]) + (if won (ts ! k) then 1 else 0) = winners ts + (if won p then 1 else 0)"
proof -
  have "winners ts = winners (take k ts @ ts ! k # drop (Suc k) ts)"
    by (rule arg_cong [OF id_take_nth_drop [OF assms]])
  then have "winners ts = winners (take k ts) + (if won (ts ! k) then 1 else 0) + winners (drop (Suc k) ts)"
    by (simp add: winners_def)
  moreover have "winners (ts[k := p]) = winners (take k ts) + (if won p then 1 else 0) + winners (drop (Suc k) ts)"
    using assms by (simp add: upd_conv_take_nth_drop winners_def)
  ultimately show ?thesis by simp
qed

lemma race_invariant:
  assumes "(concurrent_step e)\<^sup>*\<^sup>* c c'" and "list_all (racing i) (c_threads c)" and "container_wf (c_world c)"
  shows "list_all (racing i) (c_threads c') \<and> container_wf (c_world c') \<and>
    length (c_threads c') = length (c_threads c) \<and>
    registered i (c_world c') + winners (c_threads c') = registered i (c_world c) + winners (c_threads c)"
  using assms(1)
proof (induction rule: rtranclp_induct)
  case base
  then show ?case using assms(2,3) by simp
next
  case (step c1 c2)
  from step.hyps(2) show ?case
  proof cases
    case (thread k p w')
    have r: "racing i (c_threads c1 ! k)"
      using step.IH thread(2) by (auto simp: list_all_iff)
    note s = race_step [OF thread(4) r thread(3)]
    have "list_all (racing i) ((c_threads c1)[k := p])"
      using s step.IH set_update_subset_insert [of "c_threads c1" k p] by (auto simp: list_all_iff)
    then show ?thesis
      using s step.IH winners_update [OF thread(2), of p] by (simp add: thread(1))
  qed
qed

lemma race_untouched:
  assumes "(concurrent_step e)\<^sup>*\<^sup>* c c'" and "list_all (racing i) (c_threads c)" and "container_wf (c_world c)"
    and "list_all ((=) (Remove i)) (c_threads c)"
  shows "find_by_id (c_world c') i = None \<or> list_all ((=) (Remove i)) (c_threads c')"
  using assms(1)
proof (induction rule: rtranclp_induct)
  case base
  then show ?case using assms(4) by simp
next
  case (step c1 c2)
  have inv: "list_all (racing i) (c_threads c1)" "container_wf (c_world c1)"
    using race_invariant [OF step.hyps(1) assms(2,3)] by simp_all
  from step.hyps(2) show ?case
  proof cases
    case (thread k p w')
    let ?t = "c_threads c1 ! k"
    have r: "racing i ?t" using inv(1) thread(2) by (auto simp: list_all_iff)
    note s = race_step [OF thread(4) r thread(3) inv(2)]
    have "find_by_id w' i = None"
    proof (cases "find_by_id (c_world c1) i")
      case None
      then have "registered i w' \<le> (if won ?t then 1 else 0)" using s by (simp add: registered_def)
      moreover have "won ?t \<Longrightarrow> find_by_id w' i = None"
        using None thread(4) r thread(3)
        by (cases ?t) (auto simp: won_def racing_def chain_def disconnect_registered split: sum.splits)
      ultimately show ?thesis by (auto simp: registered_def split: if_splits)
    next
      case (Some a)
      then have "\<forall>q \<in> set (c_threads c1). Remove i = q" using step.IH by (simp add: list_all_iff)
      then have "?t = Remove i" using nth_mem [OF thread(2)] by metis
      moreover have "find_by_id (container_erase a (c_world c1)) i = None"
        using Some inv(2) by (simp add: find_by_id_erase)
      ultimately show ?thesis using thread(4) Some by (simp add: take_session_def)
    qed
    then show ?thesis by (simp add: thread(1))
  qed
qed

text \<open>
  Of any number of threads that remove the same session at the same time exactly one is told that it did,
  and none when the id was not registered; afterwards it is not.
\<close>

lemma one_remover_wins:
  assumes "(concurrent_step e)\<^sup>*\<^sup>* c c'" and "c_threads c = replicate n (Remove i)" and "0 < n"
    and "container_wf (c_world c)" and "list_all finished (c_threads c')"
  shows "length (filter (\<lambda>p. p = Finished True) (c_threads c')) = (if find_by_id (c_world c) i = None then 0 else 1) \<and>
    length (c_threads c') = n \<and> find_by_id (c_world c') i = None"
proof -
  have start: "list_all (racing i) (c_threads c)" "list_all ((=) (Remove i)) (c_threads c)" "winners (c_threads c) = 0"
    by (simp_all add: assms(2) list_all_iff racing_def winners_def won_def)
  note inv = race_invariant [OF assms(1) start(1) assms(4)]
  have n: "length (c_threads c') = n" using inv by (simp add: assms(2))
  then obtain p where p: "p \<in> set (c_threads c')" using assms(3) by (cases "c_threads c'") auto
  then have "finished p" using assms(5) by (simp add: list_all_iff)
  then have "Remove i \<noteq> p" by auto
  then have "\<not> list_all ((=) (Remove i)) (c_threads c')"
    using p by (auto simp: list_all_iff)
  then have gone: "find_by_id (c_world c') i = None"
    using race_untouched [OF assms(1) start(1) assms(4) start(2)] by simp
  have "won q \<longleftrightarrow> q = Finished True" if "q \<in> set (c_threads c')" for q
  proof -
    have "finished q" using that assms(5) by (simp add: list_all_iff)
    then show ?thesis by (cases q) (simp_all add: won_def)
  qed
  then have "winners (c_threads c') = length (filter (\<lambda>p. p = Finished True) (c_threads c'))"
    unfolding winners_def by (intro arg_cong [of _ _ length] filter_cong) auto
  then show ?thesis
    using inv gone n start(3) by (simp add: registered_def)
qed

section \<open>A concrete race\<close>

definition demo_race :: concurrent where
  "demo_race = \<lparr>c_world = demo_world, c_threads = [Remove 11, Remove 11], c_closed = [], c_refused = []\<rparr>"

definition demo_race_over :: concurrent where
  "demo_race_over = \<lparr>c_world = close_socket 1 (container_erase 1 demo_world),
    c_threads = [Finished True, Finished False], c_closed = [1], c_refused = []\<rparr>"

lemma demo_race_runs: "(concurrent_step demo_env)\<^sup>*\<^sup>* demo_race demo_race_over"
proof -
  let ?w = "container_erase 1 demo_world"
  let ?c1 = "demo_race\<lparr>c_world := ?w, c_threads := [Close 1, Remove 11]\<rparr>"
  let ?c2 = "?c1\<lparr>c_threads := [Close 1, Finished False]\<rparr>"
  have lost: "find_by_id ?w 11 = None"
    by (simp add: find_by_id_def container_erase_def)
  have tcp: "get_type 1 ?w = tcp"
    by (simp add: get_type_def container_erase_def)
  have "concurrent_step demo_env demo_race ?c1"
    using concurrent_step.thread [of 0 demo_race demo_env "Close 1" ?w]
    by (simp add: demo_race_def take_session_def demo_lookup)
  moreover have "concurrent_step demo_env ?c1 ?c2"
    using concurrent_step.thread [of 1 ?c1 demo_env "Finished False" ?w] lost
    by (simp add: demo_race_def take_session_def)
  moreover have "concurrent_step demo_env ?c2 demo_race_over"
    using concurrent_step.thread [of 0 ?c2 demo_env "Finished True" "close_socket 1 ?w"] tcp
    by (simp add: demo_race_def demo_race_over_def session_disconnect_eq)
  ultimately show ?thesis by (meson converse_rtranclp_into_rtranclp r_into_rtranclp)
qed

theorem sessions_closed_once_witness:
  "distinct (c_closed demo_race_over) \<and> \<not> s_open (w_heap (c_world demo_race_over) 1)"
proof -
  have "\<forall>a. count (mset (w_sessions (c_world demo_race)) + held (c_threads demo_race)) a \<le> 1"
    by (simp add: demo_race_def held_def)
  from sessions_closed_once [OF demo_race_runs demo_container_law this]
  show ?thesis by (simp add: demo_race_def demo_race_over_def)
qed

end
