(* ===== verification/Lock_Discipline.thy ===== *)
theory Lock_Discipline
  imports Concurrent_State Node_Runtime
begin

text \<open>
  The shared mutex of the container itself, with everything in the node that takes it: the operations of
  \<^verbatim>\<open>state\<close>, the handlers of accepted connections, and the handlers of join, leave and discovery messages.  Here the
  locked blocks are not atomic: acquiring, every access inside a block, every turn of a loop over the
  container and releasing are steps of their own, and the threads interleave between any two of them.
\<close>

section \<open>Programs of locked operations\<close>

datatype lock_mode = Shared | Exclusive

text \<open>
  What a thread has still to do.  Under the mutex: \<open>Erase\<close> uses the iterator that \<open>Find\<close> or \<open>Erase_all\<close> (the loop
  of a leave) returned; \<open>Copy\<close>, \<open>Visit\<close>, \<open>Walk\<close> and \<open>Seek\<close> are the loops over a range of the container, with
  the elements still to come and what the loop has collected: ids to remove, node ids seen and sessions chosen
  for a message, nodes for a discovery answer, nothing but the address looked for.  Outside: \<open>Accept\<close>,
  \<open>Stand_in\<close> and \<open>Dial\<close> create a session to be inserted; \<open>Introduce\<close> sends the first frame over a dialled one.
\<close>

datatype act =
    Acquire lock_mode
  | Release
  | Insert addr
  | Insert_dialled addr bool "16 word"
  | Find uuid
  | Erase addr
  | Erase_all uuid
  | List_node uuid
  | List_all
  | Copy "addr list" "uuid list"
  | Collect "byte list"
  | Visit "addr list" "uuid list" "addr list" "byte list"
  | Pick uuid "byte list"
  | Count uuid
  | Peers addr
  | Walk "addr list" addr "(string \<times> 16 word) list"
  | Seek_all string "16 word"
  | Seek "addr list" string "16 word"
  | Disconnect addr
  | Send addr "byte list"
  | Start addr
  | Relisten session_type
  | Accept session_type
  | Stand_in uuid uuid
  | Dial string "16 word" bool "16 word"
  | Introduce addr bool "16 word"

definition locked_remove :: "uuid \<Rightarrow> act list" where
  "locked_remove i = [Acquire Exclusive, Find i]"

definition locked_disconnect :: "uuid \<Rightarrow> act list" where
  "locked_disconnect n = [Acquire Exclusive, List_node n]"

definition locked_disconnect_all :: "act list" where
  "locked_disconnect_all = [Acquire Exclusive, List_all]"

definition locked_broadcast :: "byte list \<Rightarrow> act list" where
  "locked_broadcast m = [Acquire Shared, Collect m]"

definition locked_send :: "uuid \<Rightarrow> byte list \<Rightarrow> act list" where
  "locked_send n m = [Acquire Shared, Pick n m]"

definition locked_accept :: "session_type \<Rightarrow> act list" where
  "locked_accept t = [Accept t]"

definition locked_connect :: "string \<Rightarrow> 16 word \<Rightarrow> bool \<Rightarrow> 16 word \<Rightarrow> act list" where
  "locked_connect host port with_discovery cpn = [Dial host port with_discovery cpn]"

definition locked_join :: "uuid \<Rightarrow> uuid \<Rightarrow> act list" where
  "locked_join websocket_id node_id = [Stand_in websocket_id node_id]"

definition locked_leave :: "uuid \<Rightarrow> act list" where
  "locked_leave websocket_id = [Acquire Exclusive, Erase_all websocket_id]"

definition locked_peers :: "addr \<Rightarrow> act list" where
  "locked_peers a = [Acquire Shared, Peers a]"

definition locked_meet :: "string \<Rightarrow> 16 word \<Rightarrow> act list" where
  "locked_meet host port = [Acquire Shared, Seek_all host port]"

text \<open>
  One step, with the steps that take its place.  An iterator that does not point into the container any more
  is undefined behaviour.
\<close>

fun act_step :: "env \<Rightarrow> act \<Rightarrow> world \<Rightarrow> fault + (act list \<times> world)" where
  "act_step e (Acquire m) w = Inr ([], w)"
| "act_step e Release w = Inr ([], w)"
| "act_step e (Insert a) w = Inr ([Release], snd (add_session e a w))"
| "act_step e (Insert_dialled a d cpn) w =
     (let (added, w') = add_session e a w
      in Inr (if added then [Release, Introduce a d cpn] else [Release], w'))"
| "act_step e (Find i) w =
     Inr (case find_by_id w i of None \<Rightarrow> [Release] | Some a \<Rightarrow> [Erase a, Release, Disconnect a], w)"
| "act_step e (Erase a) w =
     (if a \<in> set (w_sessions w) then Inr ([], container_erase a w) else Inl Out_of_bounds)"
| "act_step e (Erase_all i) w =
     Inr (case find_by_id w i of None \<Rightarrow> [Release] | Some a \<Rightarrow> [Erase a, Erase_all i], w)"
| "act_step e (List_node n) w = Inr ([Copy (node_range e (w_sessions w) (w_filed w) (w_heap w) n) []], w)"
| "act_step e List_all w = Inr ([Copy (get_sessions w) []], w)"
| "act_step e (Copy [] ids) w = Inr (Release # concat (map locked_remove ids), w)"
| "act_step e (Copy (a # as) ids) w =
     (if a \<in> set (w_sessions w) then Inr ([Copy as (ids @ [get_id a w])], w) else Inl Out_of_bounds)"
| "act_step e (Collect m) w = Inr ([Visit (get_sessions w) [] [] m], w)"
| "act_step e (Visit [] visited targets m) w = Inr (Release # map (\<lambda>t. Send t m) targets, w)"
| "act_step e (Visit (a # as) visited targets m) w =
     (if a \<notin> set (w_sessions w) then Inl Out_of_bounds
      else if get_type a w \<noteq> tcp then Inr ([Visit as visited targets m], w)
      else if get_node_id a w \<in> set visited then Inr ([Visit as visited targets m], w)
      else Inr ([Visit as (visited @ [get_node_id a w]) (targets @ [a]) m], w))"
| "act_step e (Pick n m) w =
     (let range = node_type_range e (w_sessions w) (w_filed w) (w_heap w) n tcp
      in if range = [] then Inr ([Release], w)
         else Inr ([Release, Send (range ! (unat (w_round_robin w n) mod length range)) m],
                w\<lparr>w_round_robin := (w_round_robin w)(n := w_round_robin w n + 1)\<rparr>))"
| "act_step e (Count i) w = Inr ([Release], w)"
| "act_step e (Peers a) w = Inr ([Walk (get_sessions w) a []], w)"
| "act_step e (Walk [] a nodes) w = Inr ([Release], w)"
| "act_step e (Walk (t # ts) a nodes) w =
     (if t \<notin> set (w_sessions w) then Inl Out_of_bounds
      else if get_node_id t w \<noteq> get_node_id a w \<and> get_node_id t w \<noteq> state_get_node_id w
      then Inr ([Walk ts a (nodes @ [(get_host t w, get_port t w)])], w)
      else Inr ([Walk ts a nodes], w))"
| "act_step e (Seek_all host port) w = Inr ([Seek (get_sessions w) host port], w)"
| "act_step e (Seek [] host port) w = Inr ([Release, Dial host port False 0], w)"
| "act_step e (Seek (t # ts) host port) w =
     (if t \<notin> set (w_sessions w) then Inl Out_of_bounds
      else if get_host t w = host \<and> get_port t w = port then Inr ([Release], w)
      else Inr ([Seek ts host port], w))"
| "act_step e (Disconnect a) w =
     (case get_type a w of
        tcp \<Rightarrow> Inr ([], tcp_disconnect a w)
      | websocket \<Rightarrow>
          (let w1 = (if s_open (w_heap w a) then update_session a (\<lambda>s. s\<lparr>s_open := False\<rparr>) w else w);
               (tx, w2) = draw_uuid e w1
           in chain (get_data (crc_ccitt e) (request_add_leave (get_id a w2) tx as_request) True)
                (\<lambda>data. Inr (locked_broadcast data, w2))))"
| "act_step e (Send a m) w = Inr ([], session_send a m w)"
| "act_step e (Start a) w = Inr ([], session_start a w)"
| "act_step e (Relisten t) w =
     Inr ([], case t of tcp \<Rightarrow> tcp_do_accept w | websocket \<Rightarrow> websocket_do_accept w)"
| "act_step e (Accept t) w =
     (let (a, w') = (case t of
            tcp \<Rightarrow> new_tcp_session e w
          | websocket \<Rightarrow>
              (let (i, w1) = draw_uuid e w; (a, w2) = new_websocket_session i w1
               in (a, set_node_id a (state_get_node_id w2) w2)))
      in Inr ([Acquire Exclusive, Insert a, Start a, Relisten t], w'))"
| "act_step e (Stand_in websocket_id node_id) w =
     (let (a, w1) = new_websocket_session websocket_id w
      in Inr ([Acquire Exclusive, Insert a, Acquire Shared, Count websocket_id], set_node_id a node_id w1))"
| "act_step e (Dial host port d cpn) w =
     (let n = w_dials w; w0 = w\<lparr>w_dials := Suc n\<rparr>
      in if \<not> resolve_ok e n host port then Inr ([], w0)
         else if \<not> dial_ok e n host port then Inr ([], w0)
         else let (a, w1) = new_tcp_session e w0 in Inr ([Acquire Exclusive, Insert_dialled a d cpn], w1))"
| "act_step e (Introduce a d cpn) w =
     (let (tx, w1) = draw_uuid e w;
          b1 = request_add_identify (state_get_node_id w1) cpn tx (tcp_port (get_configuration w1))
                 ''127.0.0.1'' as_request;
          (b2, w2) = (if d then request_discovery e b1 w1 else (b1, w1))
      in chain (get_data (crc_ccitt e) b2 True)
           (\<lambda>buffer. Inr ([], session_start a (session_send a buffer w2))))"

section \<open>Threads under the mutex\<close>

text \<open>A thread: how it holds the mutex, if it does, and its program.\<close>

type_synonym thread = "lock_mode option \<times> act list"

record locked =
  k_world :: world
  k_threads :: "thread list"

definition may_acquire :: "lock_mode \<Rightarrow> thread list \<Rightarrow> bool" where
  "may_acquire m ts \<longleftrightarrow>
     (case m of
        Shared \<Rightarrow> list_all (\<lambda>t. fst t \<noteq> Some Exclusive) ts
      | Exclusive \<Rightarrow> list_all (\<lambda>t. fst t = None) ts)"

fun locks :: "act \<Rightarrow> bool" where
  "locks (Acquire m) \<longleftrightarrow> True"
| "locks Release \<longleftrightarrow> True"
| "locks _ \<longleftrightarrow> False"

inductive locked_attempt :: "env \<Rightarrow> locked \<Rightarrow> fault + locked \<Rightarrow> bool" for e where
  acquire: "k < length (k_threads c) \<Longrightarrow> k_threads c ! k = (None, Acquire m # p) \<Longrightarrow>
    may_acquire m (k_threads c) \<Longrightarrow>
    locked_attempt e c (Inr (c\<lparr>k_threads := (k_threads c)[k := (Some m, p)]\<rparr>))"
| release: "k < length (k_threads c) \<Longrightarrow> k_threads c ! k = (Some m, Release # p) \<Longrightarrow>
    locked_attempt e c (Inr (c\<lparr>k_threads := (k_threads c)[k := (None, p)]\<rparr>))"
| act: "k < length (k_threads c) \<Longrightarrow> k_threads c ! k = (h, x # p) \<Longrightarrow> \<not> locks x \<Longrightarrow>
    locked_attempt e c (chain (act_step e x (k_world c)) (\<lambda>(xs, w').
      Inr (c\<lparr>k_world := w', k_threads := (k_threads c)[k := (h, xs @ p)]\<rparr>)))"

definition locked_step :: "env \<Rightarrow> locked \<Rightarrow> locked \<Rightarrow> bool" where
  "locked_step e c c' \<longleftrightarrow> locked_attempt e c (Inr c')"

section \<open>The discipline of the programs\<close>

text \<open>Outside the mutex and inside it, in each mode: what may come next.\<close>

fun begins :: "lock_mode \<Rightarrow> act \<Rightarrow> bool" where
  "begins Exclusive (Insert a) \<longleftrightarrow> True"
| "begins Exclusive (Insert_dialled a d cpn) \<longleftrightarrow> True"
| "begins Exclusive (Find i) \<longleftrightarrow> True"
| "begins Exclusive (Erase_all i) \<longleftrightarrow> True"
| "begins Exclusive (List_node n) \<longleftrightarrow> True"
| "begins Exclusive List_all \<longleftrightarrow> True"
| "begins Shared (Collect m) \<longleftrightarrow> True"
| "begins Shared (Pick n m) \<longleftrightarrow> True"
| "begins Shared (Count i) \<longleftrightarrow> True"
| "begins Shared (Peers a) \<longleftrightarrow> True"
| "begins Shared (Seek_all host port) \<longleftrightarrow> True"
| "begins _ _ \<longleftrightarrow> False"

fun lockless :: "act \<Rightarrow> bool" where
  "lockless (Disconnect a) \<longleftrightarrow> True"
| "lockless (Send a m) \<longleftrightarrow> True"
| "lockless (Start a) \<longleftrightarrow> True"
| "lockless (Relisten t) \<longleftrightarrow> True"
| "lockless (Accept t) \<longleftrightarrow> True"
| "lockless (Stand_in i n) \<longleftrightarrow> True"
| "lockless (Dial host port d cpn) \<longleftrightarrow> True"
| "lockless (Introduce a d cpn) \<longleftrightarrow> True"
| "lockless _ \<longleftrightarrow> False"

fun outer :: "act list \<Rightarrow> bool" where
  "outer [] \<longleftrightarrow> True"
| "outer (x # p) \<longleftrightarrow>
     (case x of
        Acquire m \<Rightarrow> (case p of y # q \<Rightarrow> begins m y \<and> outer q | [] \<Rightarrow> False)
      | _ \<Rightarrow> lockless x \<and> outer p)"

text \<open>Under the mutex a thread does one thing at a time, and an erased element is the last of its turn.\<close>

fun inner :: "lock_mode \<Rightarrow> act list \<Rightarrow> bool" where
  "inner m [] \<longleftrightarrow> False"
| "inner m (x # p) \<longleftrightarrow>
     (case x of
        Release \<Rightarrow> outer p
      | Erase a \<Rightarrow> m = Exclusive \<and>
          (case p of [] \<Rightarrow> False | y # q \<Rightarrow> (y = Release \<or> (\<exists>i. y = Erase_all i)) \<and> outer q)
      | Copy as ids \<Rightarrow> m = Exclusive \<and> outer p
      | Visit as visited targets msg \<Rightarrow> m = Shared \<and> outer p
      | Walk as a nodes \<Rightarrow> m = Shared \<and> outer p
      | Seek as host port \<Rightarrow> m = Shared \<and> outer p
      | _ \<Rightarrow> begins m x \<and> outer p)"

fun disciplined :: "thread \<Rightarrow> bool" where
  "disciplined (None, p) \<longleftrightarrow> outer p"
| "disciplined (Some m, p) \<longleftrightarrow> inner m p"

text \<open>What the iterators of a thread inside the mutex rely on, and the addresses of sessions to be inserted.\<close>

fun tracks :: "world \<Rightarrow> act list \<Rightarrow> bool" where
  "tracks w (Erase a # p) \<longleftrightarrow> a \<in> set (w_sessions w)"
| "tracks w (Copy as ids # p) \<longleftrightarrow> set as \<subseteq> set (w_sessions w)"
| "tracks w (Visit as visited targets m # p) \<longleftrightarrow>
     set as \<subseteq> set (w_sessions w) \<and> targets @ collect_targets w visited as = broadcast_targets w"
| "tracks w (Walk as a nodes # p) \<longleftrightarrow> set as \<subseteq> set (w_sessions w)"
| "tracks w (Seek as host port # p) \<longleftrightarrow> set as \<subseteq> set (w_sessions w)"
| "tracks w _ \<longleftrightarrow> True"

fun allocated :: "world \<Rightarrow> act \<Rightarrow> bool" where
  "allocated w (Insert a) \<longleftrightarrow> a < w_next w"
| "allocated w (Insert_dialled a d cpn) \<longleftrightarrow> a < w_next w"
| "allocated w _ \<longleftrightarrow> True"

definition grounded :: "world \<Rightarrow> bool" where
  "grounded w \<longleftrightarrow> set (w_sessions w) \<subseteq> {..<w_next w}"

definition locked_ok :: "locked \<Rightarrow> bool" where
  "locked_ok c \<longleftrightarrow> grounded (k_world c) \<and>
     list_all (\<lambda>t. disciplined t \<and> tracks (k_world c) (snd t) \<and> list_all (allocated (k_world c)) (snd t)) (k_threads c) \<and>
     (\<forall>i < length (k_threads c). \<forall>j < length (k_threads c). i \<noteq> j \<longrightarrow>
        fst (k_threads c ! i) = Some Exclusive \<longrightarrow> fst (k_threads c ! j) = None)"

lemma outer_acquire:
  assumes "outer (Acquire m # p)"
  shows "inner m p" and "tracks w p"
proof -
  obtain x q where "p = x # q" "begins m x" "outer q"
    using assms by (cases p) auto
  then show "inner m p" "tracks w p" by (cases m; cases x; simp)+
qed

lemma outer_append: "outer p \<Longrightarrow> outer q \<Longrightarrow> outer (p @ q)"
  by (induction p rule: outer.induct) (auto split: act.splits list.splits)

lemma outer_programs [simp]:
  "outer (locked_remove i)" "outer (locked_disconnect n)" "outer locked_disconnect_all"
  "outer (locked_broadcast m)" "outer (locked_send n m)" "outer (locked_accept t)"
  "outer (locked_connect host port d cpn)" "outer (locked_join i n)" "outer (locked_leave i)"
  "outer (locked_peers a)" "outer (locked_meet host port)"
  by (simp_all add: locked_remove_def locked_disconnect_def locked_disconnect_all_def locked_broadcast_def
      locked_send_def locked_accept_def locked_connect_def locked_join_def locked_leave_def locked_peers_def
      locked_meet_def)

lemma outer_removes: "outer p \<Longrightarrow> outer (concat (map locked_remove ids) @ p)"
  by (induction ids) (simp_all add: locked_remove_def)

lemma allocated_removes [simp]: "list_all (allocated w) (concat (map locked_remove ids))"
  by (induction ids) (simp_all add: locked_remove_def)

lemma outer_sends: "outer p \<Longrightarrow> outer (map (\<lambda>t. Send t m) ts @ p)"
  by (induction ts) simp_all

lemma allocated_sends [simp]: "list_all (allocated w) (map (\<lambda>t. Send t m) ts)"
  by (induction ts) simp_all

lemma tracks_outer: "outer p \<Longrightarrow> tracks w p"
  by (cases "(w, p)" rule: tracks.cases) simp_all

text \<open>What a step leaves as it was: all that other threads may be reading under the mutex.\<close>

definition same_registry :: "world \<Rightarrow> world \<Rightarrow> bool" where
  "same_registry w w' \<longleftrightarrow>
     w_sessions w' = w_sessions w \<and>
     (\<forall>a \<in> set (w_sessions w). get_type a w' = get_type a w \<and> get_node_id a w' = get_node_id a w)"

lemma same_registry_collect:
  "same_registry w w' \<Longrightarrow> set as \<subseteq> set (w_sessions w) \<Longrightarrow> collect_targets w' visited as = collect_targets w visited as"
  by (induction as arbitrary: visited) (simp_all add: same_registry_def)

lemma same_registry_tracks:
  assumes "same_registry w w'"
  shows "tracks w' p = tracks w p"
  using assms same_registry_collect [OF assms] same_registry_collect [OF assms, of "w_sessions w" "[]"]
  by (cases "(w, p)" rule: tracks.cases) (auto simp: same_registry_def broadcast_targets_def)

lemma same_registry_refl [simp]: "same_registry w w"
  by (simp add: same_registry_def)

lemma same_registry_trans: "same_registry w v \<Longrightarrow> same_registry v u \<Longrightarrow> same_registry w u"
  by (simp add: same_registry_def)

text \<open>Every step keeps the addresses of sessions in use and the container within them.\<close>

definition grows :: "world \<Rightarrow> world \<Rightarrow> bool" where
  "grows w w' \<longleftrightarrow> w_next w \<le> w_next w' \<and> grounded w'"

lemma grows_refl: "grounded w \<Longrightarrow> grows w w"
  by (simp add: grows_def)

lemma grows_allocated: "grows w w' \<Longrightarrow> allocated w x \<Longrightarrow> allocated w' x"
  by (cases x) (auto simp: grows_def)

lemma grows_allocated_all: "grows w w' \<Longrightarrow> list_all (allocated w) p \<Longrightarrow> list_all (allocated w') p"
  by (auto simp: list_all_iff intro: grows_allocated)

lemma grows_insert:
  assumes "grounded w" and "a < w_next w" and "container_law e"
  shows "grows w (snd (add_session e a w))"
proof -
  have "set (reindex e (w_sessions w) a) = insert a (set (w_sessions w))"
    using assms(3) mset_eq_setD by (fastforce simp: container_law_def)
  then show ?thesis
    using assms(1,2) by (simp add: grows_def grounded_def add_session_def container_insert_def split: option.split)
qed

lemma grows_erase: "grounded w \<Longrightarrow> grows w (container_erase a w)"
  using set_remove1_subset by (fastforce simp: grows_def grounded_def container_erase_def)

lemma node_range_sessions: "index_law e \<Longrightarrow> set (node_range e xs filed heap n) \<subseteq> set xs"
  by (simp add: index_law_def)

lemma inner_step:
  assumes "inner m (x # p)" and "\<not> locks x" and "tracks w (x # p)" and "list_all (allocated w) (x # p)"
    and "grounded w" and "container_law e" and "index_law e"
  shows "\<exists>xs w'. act_step e x w = Inr (xs, w') \<and> inner m (xs @ p) \<and> tracks w' (xs @ p) \<and>
    list_all (allocated w') (xs @ p) \<and> grows w w' \<and> (m = Shared \<longrightarrow> same_registry w w')"
proof -
  note grown = grows_refl [OF assms(5)] grows_insert [OF assms(5) _ assms(6)] grows_erase [OF assms(5)]
  have p: "list_all (allocated w) p" using assms(4) by simp
  show ?thesis
  proof (cases "(e, x, w)" rule: act_step.cases)
    case (3 e a w)
    then have "m = Exclusive" using assms(1) by (cases m) simp_all
    then show ?thesis
      using 3 assms(1,4) grown(2) [of a] grows_allocated_all by (auto simp: list_all_iff intro: grows_allocated)
  next
    case (4 e a d cpn w)
    then have "m = Exclusive" using assms(1) by (cases m) simp_all
    then show ?thesis
      using 4 assms(1,4) grown(2) [of a]
      by (cases "add_session e a w") (auto simp: list_all_iff intro: grows_allocated)
  next
    case (5 e i w)
    then show ?thesis
      using assms(1) grown(1) p by (cases m) (auto split: option.split dest: find_by_id_member)
  next
    case (6 e a w)
    then show ?thesis
      using assms(1,3) grown(3) [of a] grows_allocated_all [OF _ p, of "container_erase a w"]
      by (auto split: list.splits)
  next
    case (7 e i w)
    then show ?thesis
      using assms(1) grown(1) p by (cases m) (auto split: option.split dest: find_by_id_member)
  next
    case (15 e n msg w)
    have "grows w (w\<lparr>w_round_robin := r\<rparr>)" "same_registry w (w\<lparr>w_round_robin := r\<rparr>)" for r
      using 15 assms(5) by (simp_all add: grows_def grounded_def same_registry_def get_type_def get_node_id_def)
    then show ?thesis
      using 15 assms(1) p grows_allocated_all [OF _ p] grown(1) by (cases m) (simp_all add: Let_def)
  qed (use assms(1-3) grown(1) p node_range_sessions [OF assms(7)] in
    \<open>cases m; auto simp: broadcast_targets_def outer_removes outer_sends tracks_outer locked_connect_def\<close>)+
qed

lemma insert_programs [simp]:
  "outer (Acquire Exclusive # Insert a # p) = outer p"
  "outer (Acquire Exclusive # Insert_dialled a d cpn # p) = outer p"
  by simp_all

lemma allocate_keeps:
  assumes "grounded w" and "w_sessions v = w_sessions w" and "w_next v = w_next w"
    and "\<forall>a \<in> set (w_sessions w). w_heap v a = w_heap w a"
    and "w_sessions w' = w_sessions v" and "w_next w' = Suc (w_next v)" and "\<forall>a. a \<noteq> w_next v \<longrightarrow> w_heap w' a = w_heap v a"
  shows "same_registry w w' \<and> grows w w'"
  using assms by (auto simp: same_registry_def grows_def grounded_def get_type_def get_node_id_def)

lemma grows_posted:
  assumes "grounded w" and "w_sessions w' = w_sessions w" and "w_next w' = w_next w"
    and "\<forall>a. s_type (w_heap w' a) = s_type (w_heap w a) \<and> s_node_id (w_heap w' a) = s_node_id (w_heap w a)"
  shows "same_registry w w' \<and> grows w w'"
  using assms by (auto simp: same_registry_def grows_def grounded_def get_type_def get_node_id_def)

lemma outer_step:
  assumes "outer (x # p)" and "\<not> locks x" and "list_all (allocated w) (x # p)" and "grounded w"
  shows "\<exists>xs w'. act_step e x w = Inr (xs, w') \<and> outer (xs @ p) \<and> list_all (allocated w') (xs @ p) \<and>
    same_registry w w' \<and> grows w w'"
proof -
  have goal: ?thesis
    if "act_step e x w = Inr (xs, w')" "same_registry w w' \<and> grows w w'" "outer xs" "list_all (allocated w') xs" for xs w'
  proof -
    have "outer p" using assms(1,2) by (cases x) (auto split: list.splits)
    moreover have "list_all (allocated w') p" using that(2) assms(3) grows_allocated_all by auto
    ultimately show ?thesis using that outer_append by auto
  qed
  note simps = draw_uuid_def Let_def update_session_def new_tcp_session_def new_websocket_session_def allocate_def
    set_node_id_def
  show ?thesis
  proof (cases x)
    case (Disconnect a)
    let ?w = "if s_open (w_heap w a) then update_session a (\<lambda>s. s\<lparr>s_open := False\<rparr>) w else w"
    show ?thesis
    proof (cases "get_type a w")
      case tcp
      then show ?thesis
        using Disconnect assms(4)
        by (intro goal [of "[]" "tcp_disconnect a w"] grows_posted) (simp_all add: tcp_disconnect_def update_session_def)
    next
      case websocket
      then obtain data where "act_step e x w = Inr (locked_broadcast data, ?w\<lparr>w_rng := Suc (w_rng ?w)\<rparr>)"
        using Disconnect by (auto simp: draw_uuid_def Let_def)
      then show ?thesis
        using assms(4) by (elim goal, intro grows_posted) (simp_all add: update_session_def locked_broadcast_def)
    qed
  next
    case (Send a m)
    then show ?thesis
      using assms(4) by (intro goal [of "[]" "session_send a m w"] grows_posted) (simp_all add: session_send_eq)
  next
    case (Start a)
    then show ?thesis
      using assms(4)
      by (intro goal [of "[]" "session_start a w"] grows_posted) (simp_all add: session_start_eq split: session_type.split)
  next
    case (Relisten t)
    then show ?thesis
      using assms(4)
      by (intro goal [of "[]" "case t of tcp \<Rightarrow> tcp_do_accept w | websocket \<Rightarrow> websocket_do_accept w"] grows_posted)
        (simp_all add: tcp_do_accept_def websocket_do_accept_def start_op_def split: session_type.split)
  next
    case (Accept t)
    obtain w' where w': "act_step e x w = Inr ([Acquire Exclusive, Insert (w_next w), Start (w_next w), Relisten t], w')"
      "w_sessions w' = w_sessions w" "w_next w' = Suc (w_next w)" "\<forall>a. a \<noteq> w_next w \<longrightarrow> w_heap w' a = w_heap w a"
      by (cases t) (simp_all add: Accept simps)
    then show ?thesis
      using assms(4) by (intro goal [OF w'(1)] allocate_keeps [of w w]) simp_all
  next
    case (Stand_in i n)
    obtain w' where w': "act_step e x w = Inr ([Acquire Exclusive, Insert (w_next w), Acquire Shared, Count i], w')"
      "w_sessions w' = w_sessions w" "w_next w' = Suc (w_next w)" "\<forall>a. a \<noteq> w_next w \<longrightarrow> w_heap w' a = w_heap w a"
      by (simp add: Stand_in simps)
    then show ?thesis
      using assms(4) by (intro goal [OF w'(1)] allocate_keeps [of w w]) simp_all
  next
    case (Dial host port d cpn)
    show ?thesis
    proof (cases "resolve_ok e (w_dials w) host port \<and> dial_ok e (w_dials w) host port")
      case True
      obtain w' where w': "act_step e x w = Inr ([Acquire Exclusive, Insert_dialled (w_next w) d cpn], w')"
        "w_sessions w' = w_sessions w" "w_next w' = Suc (w_next w)" "\<forall>a. a \<noteq> w_next w \<longrightarrow> w_heap w' a = w_heap w a"
        using True by (simp add: Dial simps)
      then show ?thesis
        using assms(4) by (intro goal [OF w'(1)] allocate_keeps [of w w]) simp_all
    next
      case False
      then have "act_step e x w = Inr ([], w\<lparr>w_dials := Suc (w_dials w)\<rparr>)" by (auto simp: Dial Let_def)
      then show ?thesis
        using assms(4) by (elim goal, intro grows_posted) simp_all
    qed
  next
    case (Introduce a d cpn)
    let ?v = "w\<lparr>w_rng := if d then Suc (Suc (w_rng w)) else Suc (w_rng w)\<rparr>"
    obtain data where data: "act_step e x w = Inr ([], session_start a (session_send a data ?v))"
      by (cases d) (simp_all add: Introduce draw_uuid_def request_discovery_def drawn_def)
    let ?u = "session_start a (session_send a data ?v)"
    have "w_sessions ?u = w_sessions w \<and> w_next ?u = w_next w \<and> w_heap ?u = w_heap w"
      by (simp add: session_send_eq session_start_eq split: session_type.split)
    then show ?thesis
      using assms(4) by (intro goal [OF data] grows_posted) simp_all
  qed (use assms in auto)
qed

section \<open>Every interleaving keeps the discipline\<close>

lemma locked_ok_nth:
  assumes "locked_ok c" and "k < length (k_threads c)"
  shows "disciplined (k_threads c ! k)" and "tracks (k_world c) (snd (k_threads c ! k))"
    and "list_all (allocated (k_world c)) (snd (k_threads c ! k))" and "grounded (k_world c)"
    and "j < length (k_threads c) \<Longrightarrow> j \<noteq> k \<Longrightarrow> fst (k_threads c ! k) = Some Exclusive \<Longrightarrow> fst (k_threads c ! j) = None"
  using assms by (simp_all add: locked_ok_def list_all_length)

text \<open>A thread is replaced, and the others are not disturbed.\<close>

lemma locked_ok_update:
  assumes "locked_ok c" and "k < length (k_threads c)" and "disciplined (h, p)" and "tracks w' p"
    and "list_all (allocated w') p" and "grows (k_world c) w'"
    and "fst (k_threads c ! k) = Some Exclusive \<or> same_registry (k_world c) w'"
    and "h = fst (k_threads c ! k) \<or> h = None \<or> (\<exists>m. h = Some m \<and> may_acquire m (k_threads c))"
  shows "locked_ok (c\<lparr>k_world := w', k_threads := (k_threads c)[k := (h, p)]\<rparr>)"
proof -
  let ?ts = "(k_threads c)[k := (h, p)]"
  have "disciplined (?ts ! i)" if "i < length ?ts" for i
    using that assms(3) locked_ok_nth(1) [OF assms(1)] by (cases "i = k") simp_all
  moreover have "list_all (allocated w') (snd (?ts ! i))" if "i < length ?ts" for i
    using that assms(5) grows_allocated_all [OF assms(6) locked_ok_nth(3) [OF assms(1)]] by (cases "i = k") simp_all
  moreover have "tracks w' (snd (?ts ! i))" if i: "i < length ?ts" for i
  proof (cases "i = k")
    case False
    show ?thesis
    proof (cases "fst (k_threads c ! i)")
      case None
      then have "outer (snd (k_threads c ! i))"
        using locked_ok_nth(1) [OF assms(1), of i] i by (cases "k_threads c ! i") simp
      then show ?thesis using False by (simp add: tracks_outer)
    next
      case (Some m)
      then have "same_registry (k_world c) w'"
        using assms(7) locked_ok_nth(5) [OF assms(1,2), of i] i False by auto
      then show ?thesis
        using False i locked_ok_nth(2) [OF assms(1), of i] by (simp add: same_registry_tracks)
    qed
  qed (use assms(2,4) in simp)
  moreover have "fst (?ts ! j) = None" if "i < length ?ts" "j < length ?ts" "i \<noteq> j" "fst (?ts ! i) = Some Exclusive" for i j
  proof -
    have old: "fst (k_threads c ! i) = Some Exclusive \<Longrightarrow> fst (k_threads c ! j) = None"
      using that(1-3) assms(1) by (simp add: locked_ok_def)
    have free: "may_acquire m (k_threads c) \<Longrightarrow> l < length ?ts \<Longrightarrow>
        fst (k_threads c ! l) \<noteq> Some Exclusive \<and> (m = Exclusive \<longrightarrow> fst (k_threads c ! l) = None)" for m l
      by (cases m) (simp_all add: may_acquire_def list_all_length)
    consider "i = k" | "j = k" | "i \<noteq> k" "j \<noteq> k" by blast
    then show ?thesis
    proof cases
      case 1
      then show ?thesis using that assms(2,8) old free [of Exclusive j] by auto
    next
      case 2
      then show ?thesis using that assms(2,8) old free by auto
    qed (use that old in simp)
  qed
  ultimately show ?thesis
    using assms(6) unfolding locked_ok_def by (simp add: list_all_length grows_def)
qed

lemma locked_attempt_ok:
  assumes "locked_attempt e c r" and "locked_ok c" and "container_law e" and "index_law e"
  shows "\<exists>c'. r = Inr c' \<and> locked_ok c'"
  using assms(1)
proof cases
  case (acquire k m p)
  note old = locked_ok_nth [OF assms(2) acquire(2)]
  have "disciplined (Some m, p)" "tracks (k_world c) p"
    using old(1) acquire(3) outer_acquire by simp_all
  then show ?thesis
    using locked_ok_update [OF assms(2) acquire(2), of "Some m" p "k_world c"] old(3,4) acquire(1,3,4)
    by (auto simp: grows_refl)
next
  case (release k m p)
  note old = locked_ok_nth [OF assms(2) release(2)]
  have "outer p" using old(1) release(3) by (cases m) simp_all
  then show ?thesis
    using locked_ok_update [OF assms(2) release(2), of None p "k_world c"] old(3,4) release(1,3)
    by (auto simp: tracks_outer grows_refl)
next
  case (act k h x p)
  note old = locked_ok_nth [OF assms(2) act(2)]
  show ?thesis
  proof (cases h)
    case None
    then obtain xs w' where s: "act_step e x (k_world c) = Inr (xs, w')" "outer (xs @ p)"
      "list_all (allocated w') (xs @ p)" "same_registry (k_world c) w'" "grows (k_world c) w'"
      using outer_step [of x p "k_world c" e] old(1,3,4) act(3,4) by auto
    then show ?thesis
      using locked_ok_update [OF assms(2) act(2), of h "xs @ p" w'] act(1,3) None by (auto simp: tracks_outer)
  next
    case (Some m)
    then obtain xs w' where s: "act_step e x (k_world c) = Inr (xs, w')" "inner m (xs @ p)" "tracks w' (xs @ p)"
      "list_all (allocated w') (xs @ p)" "grows (k_world c) w'" "m = Shared \<longrightarrow> same_registry (k_world c) w'"
      using inner_step [of m x p "k_world c" e] old(1-4) act(3,4) assms(3,4) by auto
    then show ?thesis
      using locked_ok_update [OF assms(2) act(2), of h "xs @ p" w'] act(1,3) Some by (cases m) auto
  qed
qed

section \<open>Threads that use the container\<close>

datatype locked_call =
    Call_accept session_type
  | Call_connect string "16 word" bool "16 word"
  | Call_join uuid uuid
  | Call_leave uuid
  | Call_peers addr
  | Call_meet string "16 word"
  | Call_remove uuid
  | Call_disconnect uuid
  | Call_disconnect_all
  | Call_broadcast "byte list"
  | Call_send uuid "byte list"

fun program_of :: "locked_call \<Rightarrow> act list" where
  "program_of (Call_accept t) = locked_accept t"
| "program_of (Call_connect host port d cpn) = locked_connect host port d cpn"
| "program_of (Call_join i n) = locked_join i n"
| "program_of (Call_leave i) = locked_leave i"
| "program_of (Call_peers a) = locked_peers a"
| "program_of (Call_meet host port) = locked_meet host port"
| "program_of (Call_remove i) = locked_remove i"
| "program_of (Call_disconnect n) = locked_disconnect n"
| "program_of Call_disconnect_all = locked_disconnect_all"
| "program_of (Call_broadcast m) = locked_broadcast m"
| "program_of (Call_send n m) = locked_send n m"

text \<open>Each thread makes its calls one after the other.\<close>

definition calling :: "locked_call list list \<Rightarrow> world \<Rightarrow> locked" where
  "calling css w = \<lparr>k_world = w, k_threads = map (\<lambda>cs. (None, concat (map program_of cs))) css\<rparr>"

lemma outer_program [simp]: "outer (program_of c)"
  by (cases c) simp_all

lemma outer_calls: "outer (concat (map program_of cs))"
  by (induction cs) (auto intro: outer_append)

lemma allocated_program [simp]: "list_all (allocated w) (program_of c)"
  by (cases c) (simp_all add: locked_remove_def locked_disconnect_def locked_disconnect_all_def locked_broadcast_def
      locked_send_def locked_accept_def locked_connect_def locked_join_def locked_leave_def locked_peers_def
      locked_meet_def)

lemma allocated_calls: "list_all (allocated w) (concat (map program_of cs))"
  by (induction cs) simp_all

lemma calling_ok: "grounded w \<Longrightarrow> locked_ok (calling css w)"
  by (simp add: locked_ok_def calling_def list_all_length outer_calls tracks_outer allocated_calls [unfolded list_all_length])

lemma locked_steps_ok:
  assumes "(locked_step e)\<^sup>*\<^sup>* (calling css w) c" and "grounded w" and "container_law e" and "index_law e"
  shows "locked_ok c"
  using assms(1)
proof (induction rule: rtranclp_induct)
  case base
  show ?case by (rule calling_ok [OF assms(2)])
next
  case (step c c')
  then show ?case using locked_attempt_ok [OF _ step.IH assms(3,4)] by (auto simp: locked_step_def)
qed

text \<open>Only a thread that holds the mutex exclusively changes the container.\<close>

lemma locked_step_registry:
  assumes "locked_step e c c'" and "locked_ok c" and "container_law e" and "index_law e"
    and "w_sessions (k_world c') \<noteq> w_sessions (k_world c)"
  shows "\<exists>k < length (k_threads c). fst (k_threads c ! k) = Some Exclusive"
  using assms(1) unfolding locked_step_def
proof cases
  case (act k h x p)
  note old = locked_ok_nth [OF assms(2) act(2)]
  obtain xs w' where s: "act_step e x (k_world c) = Inr (xs, w')" "w_sessions (k_world c') = w_sessions w'"
    using act(1) by (auto simp: chain_def split: sum.splits)
  have "h = Some Exclusive"
  proof (cases h)
    case None
    then show ?thesis
      using outer_step [of x p "k_world c" e] old(1,3,4) act(3,4) s assms(5) by (auto simp: same_registry_def)
  next
    case (Some m)
    then show ?thesis
      using inner_step [of m x p "k_world c" e] old(1-4) act(3,4) s assms(3-5)
      by (cases m) (auto simp: same_registry_def)
  qed
  then show ?thesis using act(2,3) by auto
qed (use assms(5) in auto)

text \<open>
  C15. The mutex is enough: whatever threads accept and open connections, handle join, leave and discovery messages
  and call the operations of the state, and however their single accesses to the container interleave, no
  iterator is ever used after its element is gone; a thread that holds the mutex exclusively is the only one that
  holds it, and only such a thread changes the container; and the sessions a broadcast has chosen when its loop
  is through are those that the whole loop, run at once on the container as it is then, would choose.
\<close>

theorem locked_operations_safe:
  assumes "(locked_step e)\<^sup>*\<^sup>* (calling css w) c" and "grounded w" and "container_law e" and "index_law e"
  shows "(locked_attempt e c r \<longrightarrow> (\<exists>c'. r = Inr c')) \<and>
    (\<forall>i < length (k_threads c). \<forall>j < length (k_threads c). i \<noteq> j \<longrightarrow>
       fst (k_threads c ! i) = Some Exclusive \<longrightarrow> fst (k_threads c ! j) = None) \<and>
    (locked_step e c c' \<longrightarrow> w_sessions (k_world c') \<noteq> w_sessions (k_world c) \<longrightarrow>
       (\<exists>k < length (k_threads c). fst (k_threads c ! k) = Some Exclusive)) \<and>
    ((h, Visit [] visited targets m # p) \<in> set (k_threads c) \<longrightarrow> targets = collect_targets (k_world c) [] (get_sessions (k_world c)))"
proof -
  have ok: "locked_ok c" by (rule locked_steps_ok [OF assms])
  have "targets = broadcast_targets (k_world c)" if "(h, Visit [] visited targets m # p) \<in> set (k_threads c)"
    using ok that by (auto simp: locked_ok_def list_all_iff)
  moreover have "\<exists>c'. r = Inr c'" if "locked_attempt e c r"
    using locked_attempt_ok [OF that ok assms(3,4)] by blast
  ultimately show ?thesis
    using ok locked_step_registry [OF _ ok assms(3,4), of c'] by (simp add: locked_ok_def broadcast_targets_def)
qed

text \<open>Somebody can always go on: whoever holds the mutex, and anybody when it is free.\<close>

lemma unlocked_act_runs:
  assumes "locked_ok c" and "container_law e" and "index_law e"
    and "k < length (k_threads c)" and "k_threads c ! k = (h, x # p)" and "\<not> locks x"
  shows "\<exists>c'. locked_step e c c'"
  using locked_attempt_ok [OF locked_attempt.act [OF assms(4-6)] assms(1-3)] locked_attempt.act [OF assms(4-6), of e]
  unfolding locked_step_def by metis

lemma holder_runs:
  assumes "locked_ok c" and "container_law e" and "index_law e"
    and "k < length (k_threads c)" and "fst (k_threads c ! k) = Some m"
  shows "\<exists>c'. locked_step e c c'"
proof -
  have "inner m (snd (k_threads c ! k))"
    using locked_ok_nth(1) [OF assms(1,4)] assms(5) by (cases "k_threads c ! k") auto
  then obtain x p where p: "k_threads c ! k = (Some m, x # p)" "inner m (x # p)"
    using assms(5) by (cases "k_threads c ! k"; cases "snd (k_threads c ! k)") auto
  show ?thesis
  proof (cases "locks x")
    case True
    then have "x = Release" using p(2) by (cases x) (auto; cases m; simp)+
    then show ?thesis
      using locked_attempt.release [OF assms(4), of m p e] p(1) by (auto simp: locked_step_def)
  qed (use unlocked_act_runs [OF assms(1-4) p(1)] in blast)
qed

lemma waiter_runs:
  assumes "locked_ok c" and "container_law e" and "index_law e" and "list_all (\<lambda>t. fst t = None) (k_threads c)"
    and "k < length (k_threads c)" and "k_threads c ! k \<noteq> (None, [])"
  shows "\<exists>c'. locked_step e c c'"
proof -
  have "fst (k_threads c ! k) = None" using assms(4,5) by (simp add: list_all_length)
  then obtain x p where p: "k_threads c ! k = (None, x # p)"
    using assms(6) by (cases "k_threads c ! k"; cases "snd (k_threads c ! k)") auto
  then have "outer (x # p)" using locked_ok_nth(1) [OF assms(1,5)] by simp
  show ?thesis
  proof (cases "locks x")
    case True
    then obtain m where "x = Acquire m" using \<open>outer (x # p)\<close> by (cases x) auto
    moreover have "may_acquire m (k_threads c)"
      using assms(4) by (cases m) (auto simp: may_acquire_def list_all_iff)
    ultimately show ?thesis
      using locked_attempt.acquire [OF assms(5), of m p e] p by (auto simp: locked_step_def)
  qed (use unlocked_act_runs [OF assms(1-3,5) p] in blast)
qed

lemma somebody_runs:
  assumes "locked_ok c" and "container_law e" and "index_law e"
  shows "list_all (\<lambda>t. t = (None, [])) (k_threads c) \<or> (\<exists>c'. locked_step e c c')"
proof -
  consider "list_all (\<lambda>t. t = (None, [])) (k_threads c)"
    | k m where "k < length (k_threads c)" "fst (k_threads c ! k) = Some m"
    | k where "list_all (\<lambda>t. fst t = None) (k_threads c)" "k < length (k_threads c)" "k_threads c ! k \<noteq> (None, [])"
    unfolding list_all_length by (metis not_None_eq)
  then show ?thesis
    by cases (use holder_runs [OF assms] waiter_runs [OF assms] in blast)+
qed


lemmas then_step = converse_rtranclp_into_rtranclp [of "locked_step e" for e]

section \<open>A concrete race\<close>

text \<open>One thread is through with the loop of a broadcast while another waits to remove a session.\<close>

definition demo_broadcasting :: locked where
  "demo_broadcasting = \<lparr>k_world = demo_world,
     k_threads = [(Some Shared, [Visit [] [100] [0] [7]]), (None, locked_remove 11)]\<rparr>"

lemma demo_broadcasting_reached:
  "(locked_step demo_env)\<^sup>*\<^sup>* (calling [[Call_broadcast [7]], [Call_remove 11]] demo_world) demo_broadcasting"
proof -
  let ?c = "\<lambda>h p. \<lparr>k_world = demo_world, k_threads = [(h, p), (None, locked_remove 11)]\<rparr>"
  have act: "locked_step demo_env (?c (Some Shared) [x]) (?c (Some Shared) xs)"
    if "act_step demo_env x demo_world = Inr (xs, demo_world)" "\<not> locks x" for x xs
    using locked_attempt.act [of 0 "?c (Some Shared) [x]" "Some Shared" x "[]" demo_env] that
    by (simp add: locked_step_def)
  have "locked_step demo_env (?c None (locked_broadcast [7])) (?c (Some Shared) [Collect [7]])"
    using locked_attempt.acquire [of 0 "?c None (locked_broadcast [7])" Shared "[Collect [7]]" demo_env]
    by (simp add: locked_step_def locked_broadcast_def may_acquire_def)
  moreover have "locked_step demo_env (?c (Some Shared) [Collect [7]]) (?c (Some Shared) [Visit [0, 1, 2] [] [] [7]])"
    by (rule act) simp_all
  moreover have "locked_step demo_env (?c (Some Shared) [Visit [0, 1, 2] [] [] [7]]) (?c (Some Shared) [Visit [1, 2] [100] [0] [7]])"
    by (rule act) (simp_all add: get_type_def get_node_id_def)
  moreover have "locked_step demo_env (?c (Some Shared) [Visit [1, 2] [100] [0] [7]]) (?c (Some Shared) [Visit [2] [100] [0] [7]])"
    by (rule act) (simp_all add: get_type_def get_node_id_def)
  moreover have "locked_step demo_env (?c (Some Shared) [Visit [2] [100] [0] [7]]) (?c (Some Shared) [Visit [] [100] [0] [7]])"
    by (rule act) (simp_all add: get_type_def get_node_id_def)
  ultimately show ?thesis
    by (simp add: calling_def demo_broadcasting_def then_step)
qed

lemma demo_grounded: "grounded demo_world"
  by (simp add: grounded_def)

theorem locked_operations_safe_witness: "[0] = collect_targets demo_world [] (get_sessions demo_world)"
  using locked_operations_safe [OF demo_broadcasting_reached demo_grounded demo_container_law demo_index_law,
      of _ _ "Some Shared" "[100]" "[0]" "[7]" "[]"]
  by (simp add: demo_broadcasting_def)


end
