(* ===== verification/Lock_Equivalence.thy ===== *)
theory Lock_Equivalence
  imports Lock_Discipline Handlers
begin

text \<open>
  One thread alone under the mutex: its locked blocks, run access by access, amount to the operations of
  \<open>Node_State\<close>, \<open>Node_Runtime\<close> and \<open>Handlers\<close>, in which each block is one function of the node.
\<close>

section \<open>One thread alone\<close>

definition solo :: "world \<Rightarrow> lock_mode option \<Rightarrow> act list \<Rightarrow> locked" where
  "solo w h p = \<lparr>k_world = w, k_threads = [(h, p)]\<rparr>"

lemma solo_acquire: "locked_step e (solo w None (Acquire m # p)) (solo w (Some m) p)"
  using locked_attempt.acquire [of 0 "solo w None (Acquire m # p)" m p e]
  by (cases m) (simp_all add: solo_def locked_step_def may_acquire_def)

lemma solo_release: "locked_step e (solo w (Some m) (Release # p)) (solo w None p)"
  using locked_attempt.release [of 0 "solo w (Some m) (Release # p)" m p e]
  by (simp add: solo_def locked_step_def)

lemma solo_act:
  assumes "act_step e x w = Inr (xs, w')" and "\<not> locks x"
  shows "locked_step e (solo w h (x # p)) (solo w' h (xs @ p))"
  using locked_attempt.act [of 0 "solo w h (x # p)" h x p e] assms
  by (simp add: solo_def locked_step_def)

lemma solo_sends:
  "(locked_step e)\<^sup>*\<^sup>* (solo w None (map (\<lambda>t. Send t m) ts @ p)) (solo (foldl (\<lambda>v t. session_send t m v) w ts) None p)"
proof (induction ts arbitrary: w)
  case (Cons t ts)
  have "locked_step e (solo w None (map (\<lambda>t. Send t m) (t # ts) @ p))
      (solo (session_send t m w) None (map (\<lambda>t. Send t m) ts @ p))"
    using solo_act [of e "Send t m" w "[]" "session_send t m w" None] by simp
  then show ?case using Cons.IH [of "session_send t m w"] by (simp add: then_step)
qed simp

lemma solo_visits:
  assumes "set as \<subseteq> set (w_sessions w)"
  shows "(locked_step e)\<^sup>*\<^sup>* (solo w (Some Shared) (Visit as visited ts m # p))
    (solo w None (map (\<lambda>t. Send t m) (ts @ collect_targets w visited as) @ p))"
  using assms
proof (induction as arbitrary: visited ts)
  case Nil
  have "locked_step e (solo w (Some Shared) (Visit [] visited ts m # p))
      (solo w (Some Shared) (Release # map (\<lambda>t. Send t m) ts @ p))"
    using solo_act [of e "Visit [] visited ts m" w "Release # map (\<lambda>t. Send t m) ts" w "Some Shared"] by simp
  then show ?case using solo_release [of e w Shared] by (auto intro: then_step)
next
  case (Cons a as)
  let ?more = "if get_type a w \<noteq> tcp \<or> get_node_id a w \<in> set visited then Visit as visited ts m
    else Visit as (visited @ [get_node_id a w]) (ts @ [a]) m"
  have "act_step e (Visit (a # as) visited ts m) w = Inr ([?more], w)"
    using Cons.prems by simp
  from solo_act [OF this] have "locked_step e (solo w (Some Shared) (Visit (a # as) visited ts m # p))
      (solo w (Some Shared) (?more # p))"
    by simp
  moreover have "(locked_step e)\<^sup>*\<^sup>* (solo w (Some Shared) (?more # p))
      (solo w None (map (\<lambda>t. Send t m) (ts @ collect_targets w visited (a # as)) @ p))"
    using Cons.prems Cons.IH [of visited ts] Cons.IH [of "visited @ [get_node_id a w]" "ts @ [a]"] by auto
  ultimately show ?case by (rule then_step)
qed

lemma solo_broadcast:
  "(locked_step e)\<^sup>*\<^sup>* (solo w None (locked_broadcast m @ p)) (solo (broadcast_to_nodes m w) None p)"
proof -
  have "locked_step e (solo w None (locked_broadcast m @ p)) (solo w (Some Shared) (Collect m # p))"
    using solo_acquire by (simp add: locked_broadcast_def)
  moreover have "locked_step e (solo w (Some Shared) (Collect m # p))
      (solo w (Some Shared) (Visit (w_sessions w) [] [] m # p))"
    using solo_act [of e "Collect m" w "[Visit (w_sessions w) [] [] m]" w] by simp
  moreover have "(locked_step e)\<^sup>*\<^sup>* (solo w (Some Shared) (Visit (w_sessions w) [] [] m # p))
      (solo (broadcast_to_nodes m w) None p)"
    using rtranclp_trans [OF solo_visits solo_sends, of "w_sessions w" w e "[]" "[]" m p]
    by (simp add: broadcast_to_nodes_def)
  ultimately show ?thesis by (meson then_step)
qed

lemma solo_remove:
  "\<exists>r w'. remove_session e i w = Inr (r, w') \<and>
    (locked_step e)\<^sup>*\<^sup>* (solo w None (locked_remove i @ p)) (solo w' None p)"
proof (cases "find_by_id w i")
  case None
  have "locked_step e (solo w None (locked_remove i @ p)) (solo w (Some Exclusive) (Find i # p))"
    using solo_acquire by (simp add: locked_remove_def)
  moreover have "locked_step e (solo w (Some Exclusive) (Find i # p)) (solo w (Some Exclusive) (Release # p))"
    using solo_act [of e "Find i" w "[Release]" w] None by simp
  ultimately show ?thesis
    using solo_release [of e w Exclusive p] None by (auto simp: remove_session_def intro: then_step)
next
  case (Some a)
  let ?v = "container_erase a w"
  have "locked_step e (solo w None (locked_remove i @ p)) (solo w (Some Exclusive) (Find i # p))"
    using solo_acquire by (simp add: locked_remove_def)
  moreover have "locked_step e (solo w (Some Exclusive) (Find i # p))
      (solo w (Some Exclusive) (Erase a # Release # Disconnect a # p))"
    using solo_act [of e "Find i" w "[Erase a, Release, Disconnect a]" w] Some by simp
  moreover have "locked_step e (solo w (Some Exclusive) (Erase a # Release # Disconnect a # p))
      (solo ?v (Some Exclusive) (Release # Disconnect a # p))"
    using solo_act [of e "Erase a" w "[]" ?v] find_by_id_member [OF Some] by simp
  moreover have "locked_step e (solo ?v (Some Exclusive) (Release # Disconnect a # p)) (solo ?v None (Disconnect a # p))"
    by (rule solo_release)
  moreover have "\<exists>w'. session_disconnect e a ?v = Inr w' \<and>
      (locked_step e)\<^sup>*\<^sup>* (solo ?v None (Disconnect a # p)) (solo w' None p)"
  proof (cases "get_type a ?v")
    case tcp
    then have "locked_step e (solo ?v None (Disconnect a # p)) (solo (tcp_disconnect a ?v) None p)"
      using solo_act [of e "Disconnect a" ?v "[]" "tcp_disconnect a ?v"] by simp
    then show ?thesis using tcp by (auto simp: session_disconnect_def)
  next
    case websocket
    obtain w' where "session_disconnect e a ?v = Inr w'" using disconnect_returns by blast
    then obtain data u where "act_step e (Disconnect a) ?v = Inr (locked_broadcast data, u)" "w' = broadcast_to_nodes data u"
      using websocket
      by (auto simp: session_disconnect_def websocket_disconnect_def Let_def chain_def split: sum.splits prod.splits)
    then show ?thesis
      using solo_act [of e "Disconnect a" ?v "locked_broadcast data" u None p] solo_broadcast [of e u data p]
        \<open>session_disconnect e a ?v = Inr w'\<close>
      by (auto intro: then_step)
  qed
  ultimately show ?thesis
    using Some by (auto simp: remove_session_def intro: then_step)
qed

lemma solo_removes:
  "\<exists>w'. remove_sessions e ids w = Inr w' \<and>
    (locked_step e)\<^sup>*\<^sup>* (solo w None (concat (map locked_remove ids) @ p)) (solo w' None p)"
proof (induction ids arbitrary: w)
  case (Cons i ids)
  obtain r v where v: "remove_session e i w = Inr (r, v)"
    "(locked_step e)\<^sup>*\<^sup>* (solo w None (locked_remove i @ concat (map locked_remove ids) @ p))
      (solo v None (concat (map locked_remove ids) @ p))"
    using solo_remove by blast
  obtain w' where "remove_sessions e ids v = Inr w'"
    "(locked_step e)\<^sup>*\<^sup>* (solo v None (concat (map locked_remove ids) @ p)) (solo w' None p)"
    using Cons.IH by blast
  then show ?case using v rtranclp_trans [OF v(2)] by auto
qed simp

lemma solo_copies:
  assumes "set as \<subseteq> set (w_sessions w)"
  shows "(locked_step e)\<^sup>*\<^sup>* (solo w (Some Exclusive) (Copy as ids # p))
    (solo w None (concat (map locked_remove (ids @ map (\<lambda>a. get_id a w) as)) @ p))"
  using assms
proof (induction as arbitrary: ids)
  case Nil
  have "locked_step e (solo w (Some Exclusive) (Copy [] ids # p))
      (solo w (Some Exclusive) (Release # concat (map locked_remove ids) @ p))"
    using solo_act [of e "Copy [] ids" w "Release # concat (map locked_remove ids)" w "Some Exclusive"] by simp
  then show ?case using solo_release [of e w Exclusive] by (auto intro: then_step)
next
  case (Cons a as)
  have "locked_step e (solo w (Some Exclusive) (Copy (a # as) ids # p))
      (solo w (Some Exclusive) (Copy as (ids @ [get_id a w]) # p))"
    using solo_act [of e "Copy (a # as) ids" w "[Copy as (ids @ [get_id a w])]" w] Cons.prems by simp
  then show ?case using Cons.IH [of "ids @ [get_id a w]"] Cons.prems by (auto intro: then_step)
qed

lemma solo_snapshot:
  assumes "act_step e x w = Inr ([Copy as []], w)" and "\<not> locks x" and "set as \<subseteq> set (w_sessions w)"
  shows "\<exists>w'. remove_sessions e (map (\<lambda>a. get_id a w) as) w = Inr w' \<and>
    (locked_step e)\<^sup>*\<^sup>* (solo w None (Acquire Exclusive # x # p)) (solo w' None p)"
proof -
  obtain w' where w': "remove_sessions e (map (\<lambda>a. get_id a w) as) w = Inr w'"
    "(locked_step e)\<^sup>*\<^sup>* (solo w None (concat (map locked_remove (map (\<lambda>a. get_id a w) as)) @ p)) (solo w' None p)"
    using solo_removes by blast
  have "locked_step e (solo w (Some Exclusive) (x # p)) (solo w (Some Exclusive) (Copy as [] # p))"
    using solo_act [OF assms(1,2)] by simp
  moreover have "(locked_step e)\<^sup>*\<^sup>* (solo w (Some Exclusive) (Copy as [] # p)) (solo w' None p)"
    using rtranclp_trans [OF solo_copies [OF assms(3)], of e "[]" p] w'(2) by simp
  ultimately show ?thesis
    using w'(1) solo_acquire [of e w Exclusive "x # p"] by (meson then_step)
qed

section \<open>Accepting, dialling and the handlers\<close>

text \<open>A block that holds the mutex for one access.\<close>

lemma solo_block:
  assumes "act_step e x w = Inr (Release # xs, w')" and "\<not> locks x"
  shows "(locked_step e)\<^sup>*\<^sup>* (solo w None (Acquire m # x # p)) (solo w' None (xs @ p))"
proof -
  have "locked_step e (solo w (Some m) (x # p)) (solo w' (Some m) (Release # xs @ p))"
    using solo_act [OF assms] by simp
  then show ?thesis using solo_acquire [of e w m "x # p"] solo_release [of e w' m] by (meson then_step r_into_rtranclp)
qed

lemma solo_accept:
  "(locked_step e)\<^sup>*\<^sup>* (solo w None (locked_accept t @ p))
     (solo (case t of tcp \<Rightarrow> tcp_on_accepted e False w | websocket \<Rightarrow> websocket_on_accepted e False w) None p)"
proof -
  define av where "av = (case t of tcp \<Rightarrow> new_tcp_session e w
    | websocket \<Rightarrow> (let (i, w1) = draw_uuid e w; (a, w2) = new_websocket_session i w1
                   in (a, set_node_id a (state_get_node_id w2) w2)))"
  obtain a v where av: "av = (a, v)" by (cases av)
  let ?u = "snd (add_session e a v)" and ?relisten = "case t of tcp \<Rightarrow> tcp_do_accept | websocket \<Rightarrow> websocket_do_accept"
  have "locked_step e (solo w None (locked_accept t @ p))
      (solo v None (Acquire Exclusive # Insert a # Start a # Relisten t # p))"
    using solo_act [of e "Accept t" w "[Acquire Exclusive, Insert a, Start a, Relisten t]" v] av
    by (simp add: locked_accept_def av_def)
  moreover have "(locked_step e)\<^sup>*\<^sup>* (solo v None (Acquire Exclusive # Insert a # Start a # Relisten t # p))
      (solo ?u None (Start a # Relisten t # p))"
    using solo_block [of e "Insert a" v "[]" ?u] by simp
  moreover have "locked_step e (solo ?u None (Start a # Relisten t # p)) (solo (session_start a ?u) None (Relisten t # p))"
    using solo_act [of e "Start a" ?u "[]"] by simp
  moreover have "locked_step e (solo (session_start a ?u) None (Relisten t # p)) (solo (?relisten (session_start a ?u)) None p)"
    using solo_act [of e "Relisten t" "session_start a ?u" "[]"] by (cases t) simp_all
  ultimately have "(locked_step e)\<^sup>*\<^sup>* (solo w None (locked_accept t @ p)) (solo (?relisten (session_start a ?u)) None p)"
    by (meson rtranclp.rtrancl_into_rtrancl then_step)
  moreover have "?relisten (session_start a ?u) =
      (case t of tcp \<Rightarrow> tcp_on_accepted e False w | websocket \<Rightarrow> websocket_on_accepted e False w)"
    using av by (cases t) (auto simp: av_def tcp_on_accepted_def websocket_on_accepted_def Let_def split: prod.splits)
  ultimately show ?thesis by simp
qed

lemma solo_connect:
  "\<exists>r w'. state_connect e host port d cpn w = Inr (r, w') \<and>
     (locked_step e)\<^sup>*\<^sup>* (solo w None (Dial host port d cpn # p)) (solo w' None p)"
proof (cases "resolve_ok e (w_dials w) host port \<and> dial_ok e (w_dials w) host port")
  case False
  let ?v = "w\<lparr>w_dials := Suc (w_dials w)\<rparr>"
  have "state_connect e host port d cpn w = Inr (False, ?v)" using False by (auto simp: state_connect_def Let_def)
  then show ?thesis
    using False solo_act [of e "Dial host port d cpn" w "[]" ?v None p] by (auto simp: Let_def)
next
  case True
  obtain a v where v: "new_tcp_session e (w\<lparr>w_dials := Suc (w_dials w)\<rparr>) = (a, v)" by fastforce
  obtain added u where u: "add_session e a v = (added, u)" by fastforce
  let ?more = "if added then [Introduce a d cpn] else []"
  have "locked_step e (solo w None (Dial host port d cpn # p))
      (solo v None (Acquire Exclusive # Insert_dialled a d cpn # p))"
    using solo_act [of e "Dial host port d cpn" w "[Acquire Exclusive, Insert_dialled a d cpn]" v] True v
    by (simp add: Let_def)
  moreover have "(locked_step e)\<^sup>*\<^sup>* (solo v None (Acquire Exclusive # Insert_dialled a d cpn # p)) (solo u None (?more @ p))"
    using solo_block [of e "Insert_dialled a d cpn" v ?more u] u by simp
  ultimately have start: "(locked_step e)\<^sup>*\<^sup>* (solo w None (Dial host port d cpn # p)) (solo u None (?more @ p))"
    by (rule then_step)
  show ?thesis
  proof (cases added)
    case False
    then have "state_connect e host port d cpn w = Inr (False, u)" using True u v by (simp add: state_connect_def Let_def)
    then show ?thesis using start False by auto
  next
    case added: True
    obtain r where r: "act_step e (Introduce a d cpn) u = Inr ([], r)" "state_connect e host port d cpn w = Inr (True, r)"
      using True u v added
      by (cases d) (simp_all add: state_connect_def Let_def draw_uuid_def request_discovery_def drawn_def)
    have "locked_step e (solo u None (Introduce a d cpn # p)) (solo r None p)"
      using solo_act [OF r(1)] by simp
    then show ?thesis using r(2) start added by (auto intro: rtranclp.rtrancl_into_rtrancl)
  qed
qed

lemma solo_leave:
  "(locked_step e)\<^sup>*\<^sup>* (solo w (Some Exclusive) (Erase_all i # p)) (solo (snd (erase_by_id i n w)) None p)"
proof (induction i n w rule: erase_by_id.induct)
  case (1 i n w)
  show ?case
  proof (cases "find_by_id w i")
    case None
    then have "locked_step e (solo w (Some Exclusive) (Erase_all i # p)) (solo w (Some Exclusive) (Release # p))"
      using solo_act [of e "Erase_all i" w "[Release]" w] by simp
    then show ?thesis
      using solo_release [of e w Exclusive p] None by (subst erase_by_id.simps) (auto intro: then_step)
  next
    case (Some a)
    have "locked_step e (solo w (Some Exclusive) (Erase_all i # p)) (solo w (Some Exclusive) (Erase a # Erase_all i # p))"
      using solo_act [of e "Erase_all i" w "[Erase a, Erase_all i]" w] Some by simp
    moreover have "locked_step e (solo w (Some Exclusive) (Erase a # Erase_all i # p))
        (solo (container_erase a w) (Some Exclusive) (Erase_all i # p))"
      using solo_act [of e "Erase a" w "[]" "container_erase a w"] find_by_id_member [OF Some] by simp
    ultimately show ?thesis
      using 1 [OF Some] Some by (subst erase_by_id.simps) (auto intro: then_step)
  qed
qed

lemma solo_walk:
  "set as \<subseteq> set (w_sessions w) \<Longrightarrow>
    (locked_step e)\<^sup>*\<^sup>* (solo w (Some Shared) (Walk as a nodes # p)) (solo w None p)"
proof (induction as arbitrary: nodes)
  case Nil
  have "locked_step e (solo w (Some Shared) (Walk [] a nodes # p)) (solo w (Some Shared) (Release # p))"
    using solo_act [of e "Walk [] a nodes" w "[Release]" w] by simp
  then show ?case using solo_release [of e w Shared p] by (auto intro: then_step)
next
  case (Cons t ts)
  obtain nodes' where "act_step e (Walk (t # ts) a nodes) w = Inr ([Walk ts a nodes'], w)"
    using Cons.prems by (cases "get_node_id t w \<noteq> get_node_id a w \<and> get_node_id t w \<noteq> w_node_id w") auto
  from solo_act [OF this] show ?case using Cons by (auto intro: then_step)
qed

lemma solo_seek:
  "set as \<subseteq> set (w_sessions w) \<Longrightarrow>
    (locked_step e)\<^sup>*\<^sup>* (solo w (Some Shared) (Seek as host port # p))
      (solo w None (if list_ex (\<lambda>t. get_host t w = host \<and> get_port t w = port) as then p else Dial host port False 0 # p))"
proof (induction as)
  case Nil
  have "locked_step e (solo w (Some Shared) (Seek [] host port # p))
      (solo w (Some Shared) (Release # Dial host port False 0 # p))"
    using solo_act [of e "Seek [] host port" w "[Release, Dial host port False 0]" w] by simp
  then show ?case using solo_release [of e w Shared] by (auto intro: then_step)
next
  case (Cons t ts)
  show ?case
  proof (cases "get_host t w = host \<and> get_port t w = port")
    case True
    have "locked_step e (solo w (Some Shared) (Seek (t # ts) host port # p)) (solo w (Some Shared) (Release # p))"
      using solo_act [of e "Seek (t # ts) host port" w "[Release]" w] Cons.prems True by simp
    then show ?thesis using True solo_release [of e w Shared p] by (auto intro: then_step)
  next
    case False
    have "locked_step e (solo w (Some Shared) (Seek (t # ts) host port # p)) (solo w (Some Shared) (Seek ts host port # p))"
      using solo_act [of e "Seek (t # ts) host port" w "[Seek ts host port]" w] Cons.prems False by auto
    then show ?thesis using False Cons by (auto intro: then_step)
  qed
qed

section \<open>Call by call\<close>

text \<open>The calls as functions of the node, each locked block in one piece.\<close>

fun run_locked_call :: "env \<Rightarrow> locked_call \<Rightarrow> world \<Rightarrow> fault + world" where
  "run_locked_call e (Call_accept t) w =
     Inr (case t of tcp \<Rightarrow> tcp_on_accepted e False w | websocket \<Rightarrow> websocket_on_accepted e False w)"
| "run_locked_call e (Call_connect host port d cpn) w = chain (state_connect e host port d cpn w) (\<lambda>(_, w'). Inr w')"
| "run_locked_call e (Call_join i n) w =
     (let (a, w') = new_websocket_session i w in Inr (snd (add_session e a (set_node_id a n w'))))"
| "run_locked_call e (Call_leave i) w = Inr (snd (erase_by_id i 0 w))"
| "run_locked_call e (Call_peers a) w = Inr w"
| "run_locked_call e (Call_meet host port) w =
     (if already_connected host port w then Inr w
      else chain (state_connect e host port False 0 w) (\<lambda>(_, w'). Inr w'))"
| "run_locked_call e (Call_remove i) w = chain (remove_session e i w) (\<lambda>(_, w'). Inr w')"
| "run_locked_call e (Call_disconnect n) w = state_disconnect e n w"
| "run_locked_call e Call_disconnect_all w = disconnect_all e w"
| "run_locked_call e (Call_broadcast m) w = Inr (broadcast_to_nodes m w)"
| "run_locked_call e (Call_send n m) w = Inr (send_to_node e n m w)"

fun run_locked_calls :: "env \<Rightarrow> locked_call list \<Rightarrow> world \<Rightarrow> fault + world" where
  "run_locked_calls e [] w = Inr w"
| "run_locked_calls e (c # cs) w = chain (run_locked_call e c w) (run_locked_calls e cs)"

lemma solo_join:
  "(locked_step e)\<^sup>*\<^sup>* (solo w None (locked_join i n @ p))
     (solo (let (a, v) = new_websocket_session i w in snd (add_session e a (set_node_id a n v))) None p)"
proof -
  obtain a v where v: "new_websocket_session i w = (a, v)" by fastforce
  let ?v = "set_node_id a n v"
  let ?u = "snd (add_session e a ?v)"
  have "locked_step e (solo w None (locked_join i n @ p))
      (solo ?v None (Acquire Exclusive # Insert a # Acquire Shared # Count i # p))"
    using solo_act [of e "Stand_in i n" w "[Acquire Exclusive, Insert a, Acquire Shared, Count i]" ?v] v
    by (simp add: locked_join_def)
  moreover have "(locked_step e)\<^sup>*\<^sup>* (solo ?v None (Acquire Exclusive # Insert a # Acquire Shared # Count i # p))
      (solo ?u None (Acquire Shared # Count i # p))"
    using solo_block [of e "Insert a" ?v "[]" ?u] by simp
  moreover have "(locked_step e)\<^sup>*\<^sup>* (solo ?u None (Acquire Shared # Count i # p)) (solo ?u None p)"
    using solo_block [of e "Count i" ?u "[]" ?u] by simp
  ultimately have "(locked_step e)\<^sup>*\<^sup>* (solo w None (locked_join i n @ p)) (solo ?u None p)"
    by (rule then_step [OF _ rtranclp_trans])
  then show ?thesis using v by simp
qed

lemma solo_send:
  "(locked_step e)\<^sup>*\<^sup>* (solo w None (locked_send n m @ p)) (solo (send_to_node e n m w) None p)"
proof -
  let ?r = "node_type_range e (w_sessions w) (w_filed w) (w_heap w) n tcp"
  let ?t = "?r ! (unat (w_round_robin w n) mod length ?r)"
  let ?v = "if ?r = [] then w else w\<lparr>w_round_robin := (w_round_robin w)(n := w_round_robin w n + 1)\<rparr>"
  let ?sends = "if ?r = [] then [] else [?t]"
  have "act_step e (Pick n m) w = Inr (Release # map (\<lambda>t. Send t m) ?sends, ?v)"
    by (simp add: Let_def)
  from solo_block [OF this] have "(locked_step e)\<^sup>*\<^sup>* (solo w None (locked_send n m @ p))
      (solo ?v None (map (\<lambda>t. Send t m) ?sends @ p))"
    by (simp add: locked_send_def)
  moreover have "foldl (\<lambda>v t. session_send t m v) ?v ?sends = send_to_node e n m w"
    by (simp add: send_to_node_def Let_def)
  then have "(locked_step e)\<^sup>*\<^sup>* (solo ?v None (map (\<lambda>t. Send t m) ?sends @ p)) (solo (send_to_node e n m w) None p)"
    using solo_sends [of e ?v m ?sends p] by simp
  ultimately show ?thesis by (rule rtranclp_trans)
qed

lemma solo_call:
  assumes "index_law e"
  shows "\<exists>w'. run_locked_call e c w = Inr w' \<and>
    (locked_step e)\<^sup>*\<^sup>* (solo w None (program_of c @ p)) (solo w' None p)"
proof (cases c)
  case (Call_accept t)
  then show ?thesis using solo_accept by simp
next
  case (Call_connect host port d cpn)
  then show ?thesis using solo_connect [of e host port d cpn w p] by (auto simp: locked_connect_def)
next
  case (Call_join i n)
  then show ?thesis using solo_join [of e w i n p] by (auto simp: Let_def split: prod.split)
next
  case (Call_leave i)
  then show ?thesis
    using solo_leave [of e w i p 0] solo_acquire [of e w Exclusive "Erase_all i # p"]
    by (simp add: locked_leave_def then_step)
next
  case (Call_peers a)
  have "locked_step e (solo w (Some Shared) (Peers a # p)) (solo w (Some Shared) (Walk (w_sessions w) a [] # p))"
    using solo_act [of e "Peers a" w "[Walk (w_sessions w) a []]" w] by simp
  then show ?thesis
    using Call_peers solo_walk [of "w_sessions w" w e a "[]" p] solo_acquire [of e w Shared "Peers a # p"]
    by (simp add: locked_peers_def then_step)
next
  case (Call_meet host port)
  have "locked_step e (solo w (Some Shared) (Seek_all host port # p)) (solo w (Some Shared) (Seek (w_sessions w) host port # p))"
    using solo_act [of e "Seek_all host port" w "[Seek (w_sessions w) host port]" w] by simp
  then have "(locked_step e)\<^sup>*\<^sup>* (solo w None (program_of c @ p))
      (solo w None (if already_connected host port w then p else Dial host port False 0 # p))"
    using solo_seek [of "w_sessions w" w e host port p] solo_acquire [of e w Shared "Seek_all host port # p"]
    by (simp add: Call_meet locked_meet_def already_connected_def then_step)
  then show ?thesis
    using solo_connect [of e host port False 0 w p] by (auto simp: Call_meet split: if_splits intro: rtranclp_trans)
next
  case (Call_remove i)
  then show ?thesis using solo_remove [of e i w p] by auto
next
  case (Call_disconnect n)
  then show ?thesis
    using solo_snapshot [of e "List_node n" w _ p] node_range_sessions [OF assms]
    by (simp add: locked_disconnect_def state_disconnect_def)
next
  case Call_disconnect_all
  then show ?thesis
    using solo_snapshot [of e List_all w "w_sessions w" p]
    by (simp add: locked_disconnect_all_def disconnect_all_def)
next
  case (Call_broadcast m)
  then show ?thesis using solo_broadcast by simp
next
  case (Call_send n m)
  then show ?thesis using solo_send by simp
qed

text \<open>
  C21. The operations are what their locked blocks amount to: a thread that makes any calls alone, access by access
  under the mutex, ends, without the mutex, in the state that the same calls give when each of them is one
  function of the node.
\<close>

theorem locked_operations_alone:
  assumes "index_law e"
  shows "\<exists>w'. run_locked_calls e cs w = Inr w' \<and>
    (locked_step e)\<^sup>*\<^sup>* (calling [cs] w) \<lparr>k_world = w', k_threads = [(None, [])]\<rparr>"
proof -
  have "\<exists>w'. run_locked_calls e cs w = Inr w' \<and>
      (locked_step e)\<^sup>*\<^sup>* (solo w None (concat (map program_of cs))) (solo w' None [])"
  proof (induction cs arbitrary: w)
    case (Cons c cs)
    obtain v where v: "run_locked_call e c w = Inr v"
      "(locked_step e)\<^sup>*\<^sup>* (solo w None (program_of c @ concat (map program_of cs))) (solo v None (concat (map program_of cs)))"
      using solo_call [OF assms] by blast
    then show ?case using Cons.IH [of v] rtranclp_trans [OF v(2)] by auto
  qed simp
  then show ?thesis by (simp add: solo_def calling_def)
qed

theorem locked_operations_alone_witness:
  "\<exists>w'. run_locked_calls demo_env [Call_remove 11, Call_leave 12, Call_broadcast [0]] demo_world = Inr w' \<and>
     (locked_step demo_env)\<^sup>*\<^sup>* (calling [[Call_remove 11, Call_leave 12, Call_broadcast [0]]] demo_world)
       \<lparr>k_world = w', k_threads = [(None, [])]\<rparr>"
  by (rule locked_operations_alone [OF demo_index_law])

end
