(* ===== verification/Lock_Termination.thy ===== *)
theory Lock_Termination
  imports Lock_Discipline
begin

text \<open>
  The operations under the mutex of the container come to an end, however the scheduler interleaves their single
  accesses: the loops over ranges, the retries of a leave, the removals a disconnection is made of and the
  broadcasts those removals start in turn.
\<close>

section \<open>A measure of programs\<close>

text \<open>
  Three things are counted.  First the snapshots of the container still to be taken: how long the range of a
  secondary index is nobody promises, but no step takes a new one.  Then the sessions that are registered or may
  yet be inserted.  Last, for at most \<open>n\<close> of these, a weight of what is left to do, in which each act outweighs
  the acts that take its place.
\<close>

fun snapshot :: "act \<Rightarrow> bool" where
  "snapshot (List_node i) \<longleftrightarrow> True"
| "snapshot List_all \<longleftrightarrow> True"
| "snapshot _ \<longleftrightarrow> False"

fun inserts :: "act \<Rightarrow> nat" where
  "inserts (Insert a) = 1"
| "inserts (Insert_dialled a d cpn) = 1"
| "inserts (Accept t) = 1"
| "inserts (Stand_in i j) = 1"
| "inserts (Dial host port d cpn) = 1"
| "inserts (Seek_all host port) = 1"
| "inserts (Seek ts host port) = 1"
| "inserts _ = 0"

fun act_weight :: "nat \<Rightarrow> act \<Rightarrow> nat" where
  "act_weight n (Acquire m) = 1"
| "act_weight n Release = 1"
| "act_weight n (Insert a) = 2"
| "act_weight n (Insert_dialled a d cpn) = 3"
| "act_weight n (Find i) = 2 * n + 8"
| "act_weight n (Erase a) = 1"
| "act_weight n (Erase_all i) = 2"
| "act_weight n (List_node i) = 0"
| "act_weight n List_all = 0"
| "act_weight n (Copy as ids) = (2 * n + 10) * length as + (2 * n + 9) * length ids + 2"
| "act_weight n (Collect m) = 2 * n + 3"
| "act_weight n (Visit as visited targets m) = 2 * length as + length targets + 2"
| "act_weight n (Pick i m) = 3"
| "act_weight n (Count i) = 2"
| "act_weight n (Peers a) = n + 3"
| "act_weight n (Walk ts a nodes) = length ts + 2"
| "act_weight n (Seek_all host port) = n + 8"
| "act_weight n (Seek ts host port) = length ts + 7"
| "act_weight n (Disconnect a) = 2 * n + 5"
| "act_weight n (Send a m) = 1"
| "act_weight n (Start a) = 1"
| "act_weight n (Relisten t) = 1"
| "act_weight n (Accept t) = 6"
| "act_weight n (Stand_in i j) = 7"
| "act_weight n (Dial host port d cpn) = 5"
| "act_weight n (Introduce a d cpn) = 1"

text \<open>A retry that waits for its element to be erased weighs nothing: erasing makes the container smaller.\<close>

fun program_weight :: "nat \<Rightarrow> act list \<Rightarrow> nat" where
  "program_weight n [] = 0"
| "program_weight n (Erase a # Erase_all i # p) = 1 + program_weight n p"
| "program_weight n (x # p) = act_weight n x + program_weight n p"

lemma program_weight_Cons: "\<nexists>a. x = Erase a \<Longrightarrow> program_weight n (x # p) = act_weight n x + program_weight n p"
  by (cases x) simp_all

lemma program_weight_le: "program_weight n (x # p) \<le> act_weight n x + program_weight n p"
  by (cases "(n, x # p)" rule: program_weight.cases) simp_all

lemma program_weight_append:
  "program_weight n (xs @ p) \<le> sum_list (map (act_weight n) xs) + program_weight n p"
proof (induction xs)
  case (Cons x xs)
  then show ?case using program_weight_le [of n x "xs @ p"] by simp
qed simp

definition snapshots_in :: "act list \<Rightarrow> nat" where
  "snapshots_in p = length (filter snapshot p)"

definition inserts_in :: "act list \<Rightarrow> nat" where
  "inserts_in p = sum_list (map inserts p)"

lemma counts_append [simp]:
  "snapshots_in (xs @ ys) = snapshots_in xs + snapshots_in ys" "inserts_in (xs @ ys) = inserts_in xs + inserts_in ys"
  by (simp_all add: snapshots_in_def inserts_in_def)

lemma counts_simps [simp]:
  "snapshots_in [] = 0" "snapshots_in (x # p) = (if snapshot x then Suc (snapshots_in p) else snapshots_in p)"
  "inserts_in [] = 0" "inserts_in (x # p) = inserts x + inserts_in p"
  by (simp_all add: snapshots_in_def inserts_in_def)

lemma removes_counted:
  "snapshots_in (concat (map locked_remove ids)) = 0" "inserts_in (concat (map locked_remove ids)) = 0"
  "sum_list (map (act_weight n) (concat (map locked_remove ids))) = (2 * n + 9) * length ids"
  by (induction ids) (simp_all add: locked_remove_def algebra_simps)

lemma sends_counted:
  "snapshots_in (map (\<lambda>t. Send t m) ts) = 0" "inserts_in (map (\<lambda>t. Send t m) ts) = 0"
  "sum_list (map (act_weight n \<circ> (\<lambda>t. Send t m)) ts) = length ts"
  by (induction ts) simp_all

section \<open>Every act outweighs what takes its place\<close>

lemma insert_room:
  assumes "container_law e"
  shows "length (w_sessions (snd (add_session e a w))) \<le> Suc (length (w_sessions w))"
proof -
  have "mset (reindex e (w_sessions w) a) = add_mset a (mset (w_sessions w))"
    using assms by (simp add: container_law_def)
  then have "length (reindex e (w_sessions w) a) = Suc (length (w_sessions w))"
    by (metis size_add_mset size_mset)
  then show ?thesis by (simp add: add_session_def container_insert_def split: option.split)
qed

text \<open>
  An act that is no snapshot and the acts that take its place: either there is room for fewer sessions, or for as
  many and less is left to do.
\<close>

definition outweighs :: "nat \<Rightarrow> act \<Rightarrow> world \<Rightarrow> act list \<Rightarrow> world \<Rightarrow> bool" where
  "outweighs n x w xs w' \<longleftrightarrow>
     snapshots_in xs = 0 \<and>
     (snapshot x \<or> length (w_sessions w') + inserts_in xs < length (w_sessions w) + inserts x \<or>
      length (w_sessions w') + inserts_in xs = length (w_sessions w) + inserts x \<and>
      (\<forall>p. program_weight n (xs @ p) < program_weight n (x # p)))"

lemma outweighsI:
  assumes "snapshots_in xs = 0" and "\<nexists>a. x = Erase a"
    and "length (w_sessions w') + inserts_in xs \<le> length (w_sessions w) + inserts x"
    and "sum_list (map (act_weight n) xs) < act_weight n x"
  shows "outweighs n x w xs w'"
proof -
  have "program_weight n (xs @ p) < program_weight n (x # p)" for p
    using program_weight_append [of n xs p] program_weight_Cons [OF assms(2), of n p] assms(4) by linarith
  then show ?thesis using assms(1,3) by (auto simp: outweighs_def)
qed

lemma session_operations_length [simp]:
  "w_sessions (session_send a m w) = w_sessions w" "w_sessions (session_start a w) = w_sessions w"
  "w_sessions (tcp_disconnect a w) = w_sessions w" "w_sessions (update_session a f w) = w_sessions w"
  "w_sessions (tcp_do_accept w) = w_sessions w" "w_sessions (websocket_do_accept w) = w_sessions w"
  "w_sessions (set_node_id a i w) = w_sessions w"
  by (simp_all add: session_send_eq session_start_eq tcp_disconnect_def update_session_def tcp_do_accept_def
      websocket_do_accept_def start_op_def set_node_id_def split: session_type.split)

lemma act_step_outweighs:
  assumes "act_step e x w = Inr (xs, w')" and "\<not> locks x" and "container_law e"
    and "length (w_sessions w) \<le> n"
  shows "outweighs n x w xs w'"
proof -
  note counted = removes_counted sends_counted locked_broadcast_def locked_connect_def get_sessions_def
  show ?thesis
  proof (cases x)
    case (Insert a)
    then show ?thesis
      using assms(1) insert_room [OF assms(3), of a w] by (intro outweighsI) auto
  next
    case (Insert_dialled a d cpn)
    then show ?thesis
      using assms(1) insert_room [OF assms(3), of a w]
      by (intro outweighsI) (auto simp: case_prod_unfold Let_def split: if_splits)
  next
    case (Erase a)
    then show ?thesis
      using assms(1) length_pos_if_in_set [of a "w_sessions w"]
      by (auto simp: outweighs_def container_erase_def length_remove1 split: if_splits)
  next
    case (Erase_all i)
    then show ?thesis
      using assms(1) by (auto simp: outweighs_def split: option.splits)
  next
    case (List_node i)
    then show ?thesis using assms(1) by (auto simp: outweighs_def)
  next
    case List_all
    then show ?thesis using assms(1) by (auto simp: outweighs_def)
  next
    case (Copy as ids)
    then show ?thesis
      using assms(1) by (intro outweighsI; cases as) (auto simp: counted split: if_splits)
  next
    case (Visit as visited targets m)
    then show ?thesis
      using assms(1) by (intro outweighsI; cases as) (auto simp: counted split: if_splits)
  next
    case (Walk ts a nodes)
    then show ?thesis
      using assms(1) by (intro outweighsI; cases ts) (auto split: if_splits)
  next
    case (Seek ts host port)
    then show ?thesis
      using assms(1) by (intro outweighsI; cases ts) (auto split: if_splits)
  next
    case (Disconnect a)
    then show ?thesis
      using assms(1) by (intro outweighsI) (auto simp: counted draw_uuid_def Let_def split: session_type.splits)
  next
    case (Dial host port d cpn)
    then show ?thesis
      using assms(1) by (intro outweighsI)
        (auto simp: counted Let_def new_tcp_session_def allocate_def draw_uuid_def split: if_splits)
  next
    case (Accept t)
    then show ?thesis
      using assms(1) by (intro outweighsI)
        (auto simp: Let_def new_tcp_session_def new_websocket_session_def allocate_def draw_uuid_def split: session_type.splits)
  next
    case (Stand_in i j)
    then show ?thesis
      using assms(1) by (intro outweighsI) (auto simp: new_websocket_session_def allocate_def)
  next
    case (Introduce a d cpn)
    then show ?thesis
      using assms(1) by (intro outweighsI)
        (auto simp: draw_uuid_def Let_def chain_def request_discovery_def drawn_def split: if_splits sum.splits)
  next
    case (Pick i m)
    then show ?thesis using assms(1) by (intro outweighsI) (auto simp: Let_def split: if_splits)
  next
    case (Find i)
    then show ?thesis using assms(1) by (intro outweighsI) (auto split: option.splits)
  qed (use assms in \<open>intro outweighsI; auto simp: counted split: session_type.splits\<close>)+
qed

section \<open>All threads\<close>

definition thread_total :: "(act list \<Rightarrow> nat) \<Rightarrow> locked \<Rightarrow> nat" where
  "thread_total f c = sum_list (map (f \<circ> snd) (k_threads c))"

lemma thread_total_update:
  assumes "k < length (k_threads c)" and "k_threads c ! k = (h, p)"
  shows "thread_total f (c\<lparr>k_world := v, k_threads := (k_threads c)[k := (h', p')]\<rparr>) + f p = thread_total f c + f p'"
proof -
  let ?ns = "map (f \<circ> snd) (k_threads c)"
  have "thread_total f (c\<lparr>k_world := v, k_threads := (k_threads c)[k := (h', p')]\<rparr>) = sum_list (?ns[k := f p'])"
    by (simp add: thread_total_def map_update)
  also have "\<dots> = sum_list ?ns + f p' - ?ns ! k"
    using assms(1) by (intro sum_list_update) simp
  also have "?ns ! k = f p" using assms by simp
  finally show ?thesis
    using member_le_sum_list [of "f p" ?ns] assms nth_mem [of k ?ns] by (simp add: thread_total_def comp_def)
qed

text \<open>How many sessions there can ever be, and the measure of a configuration.\<close>

definition capacity :: "locked \<Rightarrow> nat" where
  "capacity c = length (w_sessions (k_world c)) + thread_total inserts_in c"

definition lock_measure :: "locked \<Rightarrow> nat \<times> nat \<times> nat" where
  "lock_measure c = (thread_total snapshots_in c, capacity c, thread_total (program_weight (capacity c)) c)"

definition less_to_do :: "(locked \<times> locked) set" where
  "less_to_do = inv_image (less_than <*lex*> less_than <*lex*> less_than) lock_measure"

lemma wf_less_to_do: "wf less_to_do"
  by (simp add: less_to_do_def wf_lex_prod)

lemma less_to_doI:
  assumes "thread_total snapshots_in c' \<le> thread_total snapshots_in c"
    and "thread_total snapshots_in c' < thread_total snapshots_in c \<or> capacity c' < capacity c \<or>
      capacity c' = capacity c \<and> thread_total (program_weight (capacity c)) c' < thread_total (program_weight (capacity c)) c"
  shows "(c', c) \<in> less_to_do"
  using assms by (auto simp: less_to_do_def lock_measure_def)

lemma locked_step_less:
  assumes "locked_step e c c'" and "container_law e"
  shows "(c', c) \<in> less_to_do"
proof -
  have popped: "(c\<lparr>k_threads := (k_threads c)[k := (h', p)]\<rparr>, c) \<in> less_to_do"
    if k: "k < length (k_threads c)" "k_threads c ! k = (h, x # p)" and x: "locks x" for k h h' x p
  proof -
    let ?c = "c\<lparr>k_threads := (k_threads c)[k := (h', p)]\<rparr>"
    have eq: "thread_total f ?c + f (x # p) = thread_total f c + f p" for f
      using thread_total_update [OF k, where f = f and v = "k_world c" and h' = h' and p' = p] by simp
    have same: "snapshots_in (x # p) = snapshots_in p" "inserts_in (x # p) = inserts_in p"
      and lighter: "program_weight (capacity c) p < program_weight (capacity c) (x # p)"
      using x by (cases x; simp)+
    have "capacity ?c = capacity c"
      using eq [of inserts_in] same(2) by (simp add: capacity_def)
    moreover have "thread_total (program_weight (capacity c)) ?c < thread_total (program_weight (capacity c)) c"
      using eq [of "program_weight (capacity c)"] lighter by linarith
    moreover have "thread_total snapshots_in ?c = thread_total snapshots_in c"
      using eq [of snapshots_in] same(1) by linarith
    ultimately show ?thesis by (intro less_to_doI) simp_all
  qed
  show ?thesis
    using assms(1) unfolding locked_step_def
  proof cases
    case (acquire k m p)
    then show ?thesis using popped [of k None "Acquire m" p "Some m"] by simp
  next
    case (release k m p)
    then show ?thesis using popped [of k "Some m" Release p None] by simp
  next
    case (act k h x p)
    obtain xs w' where s: "act_step e x (k_world c) = Inr (xs, w')"
      and c': "c' = c\<lparr>k_world := w', k_threads := (k_threads c)[k := (h, xs @ p)]\<rparr>"
      using act(1) by (auto simp: chain_def split: sum.splits)
    have eq: "thread_total f c' + f (x # p) = thread_total f c + f (xs @ p)" for f
      unfolding c' by (rule thread_total_update [OF act(2,3)])
    have "length (w_sessions (k_world c)) \<le> capacity c" by (simp add: capacity_def)
    then have out: "outweighs (capacity c) x (k_world c) xs w'"
      by (rule act_step_outweighs [OF s act(4) assms(2)])
    have snap: "thread_total snapshots_in c' + (if snapshot x then 1 else 0) = thread_total snapshots_in c"
      using eq [of snapshots_in] out by (simp add: outweighs_def split: if_splits)
    have cap: "capacity c' + length (w_sessions (k_world c)) + inserts x = capacity c + length (w_sessions w') + inserts_in xs"
      using eq [of inserts_in] by (simp add: capacity_def c')
    show ?thesis
    proof (cases "snapshot x")
      case True
      then show ?thesis using snap by (intro less_to_doI) simp_all
    next
      case False
      then consider "length (w_sessions w') + inserts_in xs < length (w_sessions (k_world c)) + inserts x"
        | "length (w_sessions w') + inserts_in xs = length (w_sessions (k_world c)) + inserts x"
          "program_weight (capacity c) (xs @ p) < program_weight (capacity c) (x # p)"
        using out unfolding outweighs_def by blast
      then have "capacity c' < capacity c \<or>
          capacity c' = capacity c \<and> thread_total (program_weight (capacity c)) c' < thread_total (program_weight (capacity c)) c"
        using cap eq [of "program_weight (capacity c)"] by cases linarith+
      then show ?thesis using snap False by (intro less_to_doI) simp_all
    qed
  qed
qed

text \<open>
  C23. The calls end: whatever threads accept and open connections, handle join, leave and discovery messages and
  call the operations of the state, no schedule of their accesses under the mutex goes on forever, and one that
  cannot be continued has let every thread finish all its calls and give the mutex back; so from every moment on
  the calls can be finished.
\<close>

theorem locked_operations_end:
  assumes "grounded w" and "container_law e" and "index_law e"
  shows "\<not> (\<exists>f. f 0 = calling css w \<and> (\<forall>i. locked_step e (f i) (f (Suc i)))) \<and>
    (\<forall>c. (locked_step e)\<^sup>*\<^sup>* (calling css w) c \<longrightarrow>
       ((\<forall>c'. \<not> locked_step e c c') \<longrightarrow> list_all (\<lambda>t. t = (None, [])) (k_threads c)) \<and>
       (\<exists>d. (locked_step e)\<^sup>*\<^sup>* c d \<and> list_all (\<lambda>t. t = (None, [])) (k_threads d)))"
proof (intro conjI allI impI)
  show "\<not> (\<exists>f. f 0 = calling css w \<and> (\<forall>i. locked_step e (f i) (f (Suc i))))"
    using locked_step_less [OF _ assms(2)] wf_less_to_do unfolding wf_iff_no_infinite_down_chain by blast
next
  have stuck: "list_all (\<lambda>t. t = (None, [])) (k_threads c) \<or> (\<exists>c'. locked_step e c c')"
    if "(locked_step e)\<^sup>*\<^sup>* (calling css w) c" for c
    by (rule somebody_runs [OF locked_steps_ok [OF that assms] assms(2,3)])
  fix c assume c: "(locked_step e)\<^sup>*\<^sup>* (calling css w) c"
  show "list_all (\<lambda>t. t = (None, [])) (k_threads c)" if "\<forall>c'. \<not> locked_step e c c'"
    using stuck [OF c] that by blast
  show "\<exists>d. (locked_step e)\<^sup>*\<^sup>* c d \<and> list_all (\<lambda>t. t = (None, [])) (k_threads d)"
    using c
  proof (induction c rule: wf_induct_rule [OF wf_less_to_do])
    case (1 c)
    show ?case
    proof (cases "list_all (\<lambda>t. t = (None, [])) (k_threads c)")
      case False
      then obtain c' where c': "locked_step e c c'" using stuck [OF "1.prems"] by blast
      then obtain d where "(locked_step e)\<^sup>*\<^sup>* c' d" "list_all (\<lambda>t. t = (None, [])) (k_threads d)"
        using "1.IH" [OF locked_step_less [OF c' assms(2)]] "1.prems" by (meson rtranclp.rtrancl_into_rtrancl)
      with c' show ?thesis by (meson converse_rtranclp_into_rtranclp)
    qed blast
  qed
qed

text \<open>A broadcast and the removal of a session, at the same time: both end.\<close>

theorem locked_operations_end_witness:
  "\<exists>d. (locked_step demo_env)\<^sup>*\<^sup>* (calling [[Call_broadcast [7]], [Call_remove 11]] demo_world) d \<and>
     list_all (\<lambda>t. t = (None, [])) (k_threads d)"
  using locked_operations_end [OF demo_grounded demo_container_law demo_index_law,
      of "[[Call_broadcast [7]], [Call_remove 11]]"] by blast

end
