(* ===== verification/Cluster_Formation.thy ===== *)
theory Cluster_Formation
  imports Connection_Pool Kernel_Properties
begin

text \<open>
  How a cluster grows: a node that dials one other learns from it, in the same exchange, of a third, and dials
  that one too.
\<close>

section \<open>The frames of the exchange\<close>

lemma drop_header: "drop 4 (frame_bytes crc True ms) = frame_bytes crc False ms"
  by (simp add: frame_bytes_def)

lemma identify_payload_built:
  "identify_payload w cpn tx = message_header 2 request tx
     @ (put_uuid (w_node_id w) @ put16 cpn @ put16 (tcp_port (w_config w)) @ string_bytes ''127.0.0.1'')"
  by (simp add: identify_payload_def)

lemma discovery_payload_single:
  assumes "length host < 65536"
  shows "read_nodes (discovery_payload [(host, port)]) (unat (get32 (take 4 (discovery_payload [(host, port)])))) 4 =
    [(host, port)]"
proof -
  have d: "discovery_payload [(host, port)] =
      put32 1 @ put16 port @ put16 (of_nat (length host)) @ string_bytes host @ []"
    by (simp add: discovery_payload_def)
  have "unat (get32 (take 4 (discovery_payload [(host, port)]))) = Suc 0"
    unfolding d u32.get_take_put by simp
  moreover have "read_nodes (discovery_payload [(host, port)]) (Suc 0) 4 = [(host, port)]"
    unfolding d using assms by (subst read_nodes_at) (simp_all add: unat_of_nat)
  ultimately show ?thesis by simp
qed

text \<open>The peers of node \<open>n\<close> that the node of \<open>w\<close> tells it of when it asks over session \<open>a\<close>.\<close>

definition other_peers :: "addr \<Rightarrow> uuid \<Rightarrow> world \<Rightarrow> (string \<times> 16 word) list" where
  "other_peers a n w =
     map (\<lambda>t. (s_host (w_heap w t), s_port (w_heap w t)))
       (filter (\<lambda>t. t \<noteq> a \<and> s_node_id (w_heap w t) \<noteq> n \<and> s_node_id (w_heap w t) \<noteq> w_node_id w) (w_sessions w))"

lemma discovered_after_identify:
  assumes "w_heap v = (w_heap w)(a := s)" and "s_node_id s = n" and "w_sessions v = w_sessions w"
    and "w_node_id v = w_node_id w"
  shows "discovered_nodes a v = other_peers a n w"
proof -
  have "filter (\<lambda>t. s_node_id (w_heap v t) \<noteq> n \<and> s_node_id (w_heap v t) \<noteq> w_node_id w) (w_sessions w) =
      filter (\<lambda>t. t \<noteq> a \<and> s_node_id (w_heap w t) \<noteq> n \<and> s_node_id (w_heap w t) \<noteq> w_node_id w) (w_sessions w)"
    by (rule filter_cong) (auto simp: assms(1,2))
  then show ?thesis
    using assms by (auto simp: discovered_nodes_def other_peers_def get_node_id_def get_host_def get_port_def
        intro!: map_cong)
qed

section \<open>The three nodes\<close>

text \<open>The peer answers an identify and a discovery request that come in one frame.\<close>

lemma answers_newcomer:
  assumes "get_type b wb = tcp" and "other_peers b (w_node_id wa) wb = nodes" and "length nodes \<le> 1"
    and "list_all (\<lambda>(h, p). length h < 65536) nodes"
  shows "\<exists>wb'. session_kernel_handle e (Some (frame_bytes (crc_ccitt e) False
        [identify_payload wa cpn tx, discovery_request_payload dx])) b wb =
      Inr (Some (frame_bytes (crc_ccitt e) True
        [message_header 2 response tx @ put_uuid (w_node_id wb),
         message_header 3 response dx @ discovery_payload nodes]), wb') \<and>
    get_node_id b wb' = w_node_id wa"
proof -
  let ?rest = "put_uuid (w_node_id wa) @ put16 cpn @ put16 (tcp_port (w_config wa)) @ string_bytes ''127.0.0.1''"
  obtain v where v: "identify_handler request as_response tx ?rest b wb =
      Inr (response_add_identify tx (w_node_id wb) as_response, v)"
    "w_heap v = (w_heap wb)(b := (w_heap wb b)\<lparr>s_node_id := get_uuid (take 16 ?rest),
       s_port := identify_port ?rest, s_host := identify_host ?rest\<rparr>)"
    "w_sessions v = w_sessions wb" "w_node_id v = w_node_id wb"
    using identify_request_effect [OF assms(1), of ?rest as_response tx] by auto
  have id: "get_uuid (take 16 ?rest) = w_node_id wa" by simp
  then have nodes: "discovered_nodes b v = nodes"
    using discovered_after_identify [OF v(2) _ v(3,4)] assms(2) by simp
  let ?ms = "[identify_payload wa cpn tx, discovery_request_payload dx]"
  let ?r = "response_add_discovery dx nodes (response_add_identify tx (w_node_id wb) as_response)"
  let ?out = "[message_header 2 response tx @ put_uuid (w_node_id wb),
    message_header 3 response dx @ discovery_payload nodes]"
  have "process (get_handlers e) [discovery_request_payload dx] b0 b v = Inr (Some (response_add_discovery dx nodes b0), v)" for b0
    unfolding discovery_request_payload_def process_one [where rest = "[]", unfolded append_Nil2]
    by (simp add: get_handlers_def discovery_handler_def nodes)
  moreover have "get_handlers e 2 request as_response tx ?rest b wb =
      Inr (response_add_identify tx (w_node_id wb) as_response, v)"
    by (simp add: get_handlers_def v(1))
  ultimately have "process (get_handlers e) ?ms as_response b wb = Inr (Some ?r, v)"
    unfolding identify_payload_built process_message by simp
  moreover have "get_type b v = tcp"
    using assms(1) by (simp add: get_type_def v(2))
  moreover have "buffers ?r = ?out"
    by (simp add: response_add_discovery_def response_add_identify_def Let_def)
  moreover have "frame_fits ?out"
    using assms(3,4) by (cases nodes)
      (auto simp: discovery_payload_def frame_fits_def max_requests_per_frame_def max_frame_payload_size_def)
  ultimately have "kernel_spec e ?ms b wb = Inr (Some (frame_bytes (crc_ccitt e) True ?out), v)"
    by (simp add: kernel_spec_def get_data_frame_bytes)
  then show ?thesis
    using kernel_handle_frame [of ?ms e b wb]
    by (auto simp: short_def discovery_request_payload_def get_node_id_def v(2) id)
qed

text \<open>The newcomer reads the answer: it learns whom it dialled, and dials the node it is told of.\<close>

lemma newcomer_reads_answer:
  assumes "get_type a v = tcp" and "length h \<le> 65497" and "u = set_node_id a n v"
    and "\<not> already_connected h p u" and "state_connect e h p False 0 u = Inr (True, w)" and "get_type a w = tcp"
  shows "session_kernel_handle e (Some (frame_bytes (crc_ccitt e) False
      [message_header 2 response tx @ put_uuid n, message_header 3 response dx @ discovery_payload [(h, p)]])) a v =
    Inr (Some [], w)"
proof -
  let ?d = "discovery_payload [(h, p)]"
  let ?ms = "[message_header 2 response tx @ put_uuid n, message_header 3 response dx @ ?d]"
  have "get_handlers e 2 response as_response tx (put_uuid n) a v = Inr (as_response, u)"
    using assms(1) by (simp add: get_handlers_def identify_handler_eq identified_def assms(3))
  moreover have "get_handlers e 3 response as_response dx ?d a u = Inr (as_response, w)"
  proof -
    have "\<not> length ?d < 4" by (simp add: discovery_payload_def)
    moreover have "connect_unknown e (read_nodes ?d (unat (get32 (take 4 ?d))) 4) u = Inr w"
      using discovery_payload_single [of h p] assms(2,4,5) by simp
    ultimately show ?thesis by (simp add: get_handlers_def discovery_response_connects)
  qed
  ultimately have "process (get_handlers e) ?ms as_response a v = Inr (Some as_response, w)"
    unfolding process_message by simp
  moreover have "list_all short ?ms"
    using assms(2) by (simp add: short_def discovery_payload_def)
  ultimately show ?thesis
    using kernel_handle_frame [of ?ms e a v] by (simp add: kernel_spec_def get_data_empty)
qed

text \<open>
  C2. A cluster forms: a node that connects to a peer which is connected to exactly one other node ends up
  connected to both.  The frame it posts makes the peer take on its node id and answer with the peer's own id
  and the address of the third node; handling that answer gives the first session the peer's id and dials
  the third node, over a new session that introduces the node and reads.
\<close>

theorem newcomer_joins_both:
  assumes "node_ok ea wa" and "fresh_uuids ea 5 wa" and "dials_succeed ea host port" and "dials_succeed ea h p"
    and "get_type b wb = tcp" and "other_peers b (w_node_id wa) wb = [(h, p)]" and "length h \<le> 65497"
    and "h \<noteq> [] \<or> p \<noteq> 0" and "\<not> already_connected h p wa" and "crc_ccitt eb = crc_ccitt ea" and "a = w_next wa"
  shows "\<exists>wa1 frame wb1 answer u wa2 tx. node_connect ea host port wa = Inr (True, wa1) \<and>
    w_posted wa1 = w_posted wa @ [Run_on_send a frame, Run_read_header a] \<and>
    session_kernel_handle eb (Some (drop 4 frame)) b wb = Inr (Some answer, wb1) \<and>
    get_node_id b wb1 = w_node_id wa \<and>
    session_kernel_handle ea (Some (drop 4 answer)) a wa1 = Inr (Some [], wa2) \<and>
    get_node_id a u = w_node_id wb \<and> state_connect ea h p False 0 u = Inr (True, wa2) \<and>
    set (w_sessions wa2) = {a, Suc a} \<union> set (w_sessions wa) \<and>
    w_posted wa2 = w_posted wa1 @ introduction ea wa (Suc a, tx)"
proof -
  let ?cpn = "connections_per_node (w_config wa)"
  have "fresh_uuids ea (2 + (if True then 3 else 2)) wa" using assms(2) by simp
  from dial_fresh [OF assms(1,3) this, of ?cpn]
  obtain wa1 where wa1: "state_connect ea host port True ?cpn wa = Inr (True, wa1)" "node_ok ea wa1"
    "fresh_uuids ea 2 wa1" "w_posted wa1 = w_posted wa @
      [Run_on_send a (frame_bytes (crc_ccitt ea) True (first_payloads ea True ?cpn wa)), Run_read_header a]"
    "set (w_sessions wa1) = insert a (set (w_sessions wa))" "w_heap wa1 = (w_heap wa)(a := dialled_session ea wa)"
    "w_next wa1 = Suc a" "w_node_id wa1 = w_node_id wa" "w_config wa1 = w_config wa"
    unfolding assms(11) by metis
  define ms where "ms = first_payloads ea True ?cpn wa"
  define tx dx where "tx = random_uuid ea (Suc (w_rng wa))" and "dx = random_uuid ea (Suc (Suc (w_rng wa)))"
  have ms: "ms = [identify_payload wa ?cpn tx, discovery_request_payload dx]"
    by (simp add: ms_def first_payloads_def tx_def dx_def)
  let ?out = "[message_header 2 response tx @ put_uuid (w_node_id wb), message_header 3 response dx @ discovery_payload [(h, p)]]"
  obtain wb1 where wb1: "session_kernel_handle eb (Some (frame_bytes (crc_ccitt eb) False ms)) b wb =
      Inr (Some (frame_bytes (crc_ccitt eb) True ?out), wb1)" "get_node_id b wb1 = w_node_id wa"
    using answers_newcomer [OF assms(5,6), of eb ?cpn tx dx] assms(7) by (auto simp: ms)
  define u where "u = set_node_id a (w_node_id wb) wa1"
  have u: "node_ok ea u" "get_node_id a u = w_node_id wb" "w_posted u = w_posted wa1" "w_next u = Suc a"
    "set (w_sessions u) = insert a (set (w_sessions wa))" "w_node_id u = w_node_id wa" "w_config u = w_config wa"
    using wa1 by (simp_all add: u_def) (simp_all add: set_node_id_def update_session_def get_node_id_def)
  have "find_by_id u = find_by_id wa1"
    by (rule find_by_id_cong) (simp_all add: u_def set_node_id_def update_session_def)
  then have "fresh_uuids ea (0 + 2) u"
    using wa1(3) by (simp add: fresh_uuids_def u_def set_node_id_def update_session_def)
  from dial_once [OF u(1) assms(4) this] obtain wa2 tx2 where wa2: "state_connect ea h p False 0 u = Inr (True, wa2)"
    "w_posted wa2 = w_posted u @ introduction ea u (w_next u, tx2)"
    "set (w_sessions wa2) = insert (w_next u) (set (w_sessions u))"
    by metis
  have "get_host t u = (if t = a then [] else get_host t wa)" "get_port t u = (if t = a then 0 else get_port t wa)" for t
    by (simp_all add: u_def get_host_def get_port_def set_node_id_def update_session_def wa1(6) dialled_session_def)
  then have new: "\<not> already_connected h p u"
    using assms(8,9) by (auto simp: already_connected_def list_ex_iff u(5) split: if_splits)
  have type: "get_type a wa1 = tcp"
    by (simp add: get_type_def wa1(6) dialled_session_def)
  obtain r v where "state_connect ea h p False 0 u = Inr (r, v)" "evolves u v"
    using state_connect_evolves [OF u(1)] by blast
  then have "get_type a wa2 = get_type a u"
    using wa2(1) u(4) by (simp add: evolves_def same_core_def get_type_def)
  also have "get_type a u = tcp"
    using type by (simp add: u_def get_type_def set_node_id_def update_session_def)
  finally have answer: "session_kernel_handle ea (Some (frame_bytes (crc_ccitt ea) False ?out)) a wa1 = Inr (Some [], wa2)"
    by (rule newcomer_reads_answer [OF type assms(7) u_def new wa2(1)])
  have "introduction ea u = introduction ea wa"
    by (rule introduction_cong [OF u(6,7)])
  then have posted: "w_posted wa2 = w_posted wa1 @ introduction ea wa (Suc a, tx2)"
    using wa2(2) by (simp add: u(3,4))
  have "node_connect ea host port wa = Inr (True, wa1)"
    using wa1(1) by (simp add: node_connect_def)
  moreover have "w_posted wa1 = w_posted wa @ [Run_on_send a (frame_bytes (crc_ccitt ea) True ms), Run_read_header a]"
    using wa1(4) by (simp add: ms_def)
  moreover have "set (w_sessions wa2) = {a, Suc a} \<union> set (w_sessions wa)"
    using wa2(3) by (auto simp: u(4,5))
  moreover have "session_kernel_handle eb (Some (drop 4 (frame_bytes (crc_ccitt ea) True ms))) b wb =
      Inr (Some (frame_bytes (crc_ccitt ea) True ?out), wb1)"
    using wb1(1) by (simp add: drop_header assms(10))
  moreover have "session_kernel_handle ea (Some (drop 4 (frame_bytes (crc_ccitt ea) True ?out))) a wa1 = Inr (Some [], wa2)"
    using answer by (simp add: drop_header)
  ultimately show ?thesis
    using wb1(2) u(2) wa2(1) posted by blast
qed

section \<open>A concrete cluster\<close>

text \<open>A peer with id 100 that is connected to node 300 and has accepted a connection from node 1.\<close>

definition demo_hub :: world where
  "demo_hub = demo_world\<lparr>w_node_id := 100,
     w_heap := demo_heap(0 := (demo_heap 0)\<lparr>s_node_id := 300, s_host := ''far'', s_port := 7001\<rparr>)\<rparr>"

theorem newcomer_joins_both_witness:
  "\<exists>wa1 frame wb1 answer wa2. node_connect demo_env ''hub'' 7000 demo_world = Inr (True, wa1) \<and>
     w_posted wa1 = [Run_on_send 3 frame, Run_read_header 3] \<and>
     session_kernel_handle demo_env (Some (drop 4 frame)) 1 demo_hub = Inr (Some answer, wb1) \<and>
     session_kernel_handle demo_env (Some (drop 4 answer)) 3 wa1 = Inr (Some [], wa2) \<and>
     set (w_sessions wa2) = {0, 1, 2, 3, 4}"
proof -
  have "fresh_uuids demo_env 5 demo_world"
  proof -
    have "{1..<1 + 5} = {1, 2, 3, 4, 5 :: nat}" by auto
    then show ?thesis by (simp add: fresh_uuids_def inj_on_def find_by_id_def)
  qed
  moreover have "dials_succeed demo_env host port" for host port
    by (simp add: dials_succeed_def)
  moreover have "get_type 1 demo_hub = tcp"
    by (simp add: get_type_def demo_hub_def)
  moreover have "other_peers 1 (w_node_id demo_world) demo_hub = [(''far'', 7001)]"
    by (simp add: other_peers_def demo_hub_def)
  moreover have "\<not> already_connected ''far'' 7001 demo_world"
    by (simp add: already_connected_def get_host_def demo_session_def)
  ultimately show ?thesis
    using newcomer_joins_both [OF demo_node_ok, of "''hub''" 7000 "''far''" 7001 1 demo_hub demo_env 3]
    by (auto simp: insert_commute)
qed

end
