(* ===== verification/Answer_Shapes.thy ===== *)
theory Answer_Shapes
  imports Kernel_Properties
begin

text \<open>
  What a peer or a client can rely on when it reads an answer: each response has the opcode of a handler and
  its fields are laid out as those of its kind.  The interface of the handler table is extended with the
  shape of what the handlers queue.
\<close>

text \<open>
  The layout of a discovery answer about some nodes, read by offset: the count, then for each node its port
  and the length of its host (as far as 16 bits hold it), then the hosts one behind the other, and nothing else.
\<close>

definition hosts_before :: "(string \<times> 16 word) list \<Rightarrow> nat \<Rightarrow> nat" where
  "hosts_before nodes k = sum_list (map (length \<circ> fst) (take k nodes))"

definition discovery_fields :: "(string \<times> 16 word) list \<Rightarrow> byte list \<Rightarrow> bool" where
  "discovery_fields nodes p \<longleftrightarrow>
     length p = 4 + 4 * length nodes + hosts_before nodes (length nodes) \<and>
     take 4 p = put32 (of_nat (length nodes)) \<and>
     (\<forall>k < length nodes.
        take 2 (drop (4 + 4 * k) p) = put16 (snd (nodes ! k)) \<and>
        take 2 (drop (6 + 4 * k) p) = put16 (of_nat (length (fst (nodes ! k)))) \<and>
        take (length (fst (nodes ! k))) (drop (4 + 4 * length nodes + hosts_before nodes k) p) =
          string_bytes (fst (nodes ! k)))"

definition well_shaped :: "byte list \<Rightarrow> bool" where
  "well_shaped r \<longleftrightarrow> is_response r \<and>
     (let op = r ! 0; fields = drop 18 r
      in if op = op_code_value op_non_implemented then fields = [exit_code_value non_implemented]
         else if op = op_code_value ping then fields = [exit_code_value success]
         else if op = op_code_value identify then length fields = 16
         else if op = op_code_value discovery then \<exists>nodes. discovery_fields nodes fields
         else if op = op_code_value join \<or> op = op_code_value leave then length fields = 8
         else op = op_code_value whoami \<and> length fields = 33 \<and> (\<exists>t. fields ! 32 = session_type_value t))"

text \<open>A part of a concatenation, found by the length of what comes before.\<close>

lemma take_drop_concat:
  assumes "k < length xs"
  shows "take (length (f (xs ! k))) (drop (sum_list (map (length \<circ> f) (take k xs))) (concat (map f xs) @ rest)) = f (xs ! k)"
proof -
  have "concat (map f xs) = concat (map f (take k xs)) @ f (xs ! k) @ concat (map f (drop (Suc k) xs))"
    using assms by (subst id_take_nth_drop [of k xs]) simp_all
  moreover have "sum_list (map (length \<circ> f) (take k xs)) = length (concat (map f (take k xs)))"
    by (simp add: length_concat comp_def)
  ultimately show ?thesis by simp
qed

lemma discovery_fields_payload: "discovery_fields nodes (discovery_payload nodes)"
proof -
  let ?entry = "\<lambda>(host, port). put16 port @ put16 (of_nat (length (host :: string)))"
    and ?host = "\<lambda>(host, port :: 16 word). string_bytes host"
  let ?es = "concat (map ?entry nodes)" and ?hs = "concat (map ?host nodes)"
  have p: "discovery_payload nodes = put32 (of_nat (length nodes)) @ ?es @ ?hs"
    by (simp add: discovery_payload_def)
  have four: "length (?entry x) = 4" for x
    by (cases x) simp
  have host: "length (?host x) = length (fst x)" for x
    by (cases x) simp
  have es: "length ?es = 4 * length nodes"
    by (induction nodes) (simp_all add: case_prod_unfold)
  have before: "sum_list (map (length \<circ> ?entry) (take k nodes)) = 4 * k" if "k < length nodes" for k
    using that by (simp add: comp_def four sum_list_triv)
  have hosts: "sum_list (map (length \<circ> ?host) (take k nodes)) = hosts_before nodes k" for k
    by (simp add: hosts_before_def comp_def host)
  have hs: "length ?hs = hosts_before nodes (length nodes)"
    by (simp add: hosts_before_def length_concat comp_def host)
  show ?thesis
    unfolding discovery_fields_def
  proof (intro conjI allI impI)
    show "length (discovery_payload nodes) = 4 + 4 * length nodes + hosts_before nodes (length nodes)"
      by (simp only: p length_append put_lengths es hs)
    show "take 4 (discovery_payload nodes) = put32 (of_nat (length nodes))"
      by (simp add: p)
  next
    fix k assume k: "k < length nodes"
    have entry: "take 4 (drop (4 + 4 * k) (discovery_payload nodes)) = ?entry (nodes ! k)"
      using take_drop_concat [OF k, of ?entry ?hs] by (simp only: four before [OF k]) (simp add: p)
    have "take 2 (drop (4 + 4 * k) (discovery_payload nodes)) = take 2 (take 4 (drop (4 + 4 * k) (discovery_payload nodes)))"
      by simp
    then show "take 2 (drop (4 + 4 * k) (discovery_payload nodes)) = put16 (snd (nodes ! k))"
      by (simp only: entry) (simp add: case_prod_unfold)
    have "take 2 (drop (6 + 4 * k) (discovery_payload nodes)) = drop 2 (take 4 (drop (4 + 4 * k) (discovery_payload nodes)))"
      by (simp add: drop_take add.commute)
    then show "take 2 (drop (6 + 4 * k) (discovery_payload nodes)) = put16 (of_nat (length (fst (nodes ! k))))"
      by (simp only: entry) (simp add: case_prod_unfold)
    have "drop (4 + 4 * length nodes + hosts_before nodes k) (discovery_payload nodes) = drop (hosts_before nodes k) ?hs"
      by (simp add: p es)
    then show "take (length (fst (nodes ! k))) (drop (4 + 4 * length nodes + hosts_before nodes k) (discovery_payload nodes))
        = string_bytes (fst (nodes ! k))"
      using take_drop_concat [OF k, of ?host "[]"] by (simp only: hosts host append_Nil2) (simp add: case_prod_unfold)
  qed
qed

lemma discovery_shaped: "\<exists>nodes'. discovery_fields nodes' (discovery_payload nodes)"
  using discovery_fields_payload by blast

locale shaped_handler_table = handler_table +
  fixes shaped :: "byte list \<Rightarrow> bool"
  assumes shapes: "ok w \<Longrightarrow> a < w_next w \<Longrightarrow> table opcode type builder tx payload a w = Inr (builder', w') \<Longrightarrow>
    list_all shaped (buffers builder) \<Longrightarrow> list_all shaped (buffers builder')"
begin

lemma handle_requests_shaped:
  assumes "ok w" and "a < w_next w" and "list_all shaped (buffers builder)"
    and "handle_requests table frame ls offset builder a w = Inr (Some builder', w')"
  shows "list_all shaped (buffers builder')"
  using assms
proof (induction ls arbitrary: offset builder w)
  case Nil
  then show ?case by simp
next
  case (Cons l ls)
  obtain op type tx payload b1 w1 where h: "table op type builder tx payload a w = Inr (b1, w1)"
    "handle_requests table frame ls (offset + unat l) b1 a w1 = Inr (Some builder', w')"
    using Cons.prems(4) by (auto simp: chain_def split: if_splits sum.splits prod.splits)
  have "ok w1" "rel w w1"
    using answers [OF Cons.prems(1,2), of op type builder tx payload] h(1) by auto
  then show ?case
    using Cons.IH [OF _ _ shapes [OF Cons.prems(1,2) h(1) Cons.prems(3)] h(2)] rel_next Cons.prems(2)
    by (meson less_le_trans)
qed

end

lemma well_shaped_header:
  "well_shaped (message_header op response tx @ rest) \<longleftrightarrow>
     (if op = 0 then rest = [exit_code_value non_implemented]
      else if op = 1 then rest = [exit_code_value success]
      else if op = 2 then length rest = 16
      else if op = 3 then \<exists>nodes. discovery_fields nodes rest
      else if op = 4 \<or> op = 5 then length rest = 8
      else op = 6 \<and> length rest = 33 \<and> (\<exists>t. rest ! 32 = session_type_value t))"
  by (simp add: well_shaped_def is_response_def header_fields Let_def)

lemma handler_shapes:
  assumes "a < w_next w" and "get_handlers e opcode type b tx payload a w = Inr (b', w')"
    and "container_wf w"
  shows "\<exists>rs. buffers b' = buffers b @ rs \<and> list_all well_shaped rs"
proof -
  note shaped = well_shaped_header discovery_shaped nth_append response_add_ping_def response_add_identify_def response_add_whoami_def
    response_add_non_implemented_def response_add_discovery_def response_add_join_def response_add_leave_def
    Let_def
  have "\<exists>rs. buffers b' = buffers b @ rs \<and> list_all well_shaped rs"
    if "identify_handler type b tx payload a w = Inr (b', w')"
    using that by (auto simp: identify_handler_eq shaped split: if_splits)
  moreover have "\<exists>rs. buffers b' = buffers b @ rs \<and> list_all well_shaped rs"
    if "discovery_handler e type b tx payload a w = Inr (b', w')"
    using that by (auto simp: discovery_handler_def shaped chain_def split: if_splits sum.splits)
  moreover have "\<exists>rs. buffers b' = buffers b @ rs \<and> list_all well_shaped rs"
    if "join_handler e type b tx payload a w = Inr (b', w')"
    using that by (auto simp: join_handler_eq [OF assms(1)] shaped split: if_splits)
  moreover have "\<exists>rs. buffers b' = buffers b @ rs \<and> list_all well_shaped rs"
    if "leave_handler type b tx payload a w = Inr (b', w')"
    using that by (auto simp: leave_handler_eq [OF assms(3)] shaped split: if_splits)
  moreover have "\<exists>rs. buffers b' = buffers b @ rs \<and> list_all well_shaped rs"
    if "ping_handler type b tx payload a w = Inr (b', w') \<or> whoami_handler type b tx payload a w = Inr (b', w') \<or>
      non_implemented_handler type b tx payload a w = Inr (b', w')"
    using that by (auto simp: ping_handler_def whoami_handler_def non_implemented_handler_def shaped split: if_splits)
  ultimately show ?thesis
    using assms(2) by (auto simp: get_handlers_def fun_upd_apply split: if_splits)
qed

interpretation shaped_table: shaped_handler_table "node_ok e" evolves "get_handlers e" well_shaped for e
proof unfold_locales
  fix w a opcode type builder tx payload builder' w'
  assume "node_ok e w" "a < w_next w" "get_handlers e opcode type builder tx payload a w = Inr (builder', w')"
    "list_all well_shaped (buffers builder)"
  then show "list_all well_shaped (buffers builder')"
    using handler_shapes [of a w e opcode type builder tx payload builder' w'] by (auto simp: node_ok_def)
qed

text \<open>
  C27. Answers are well typed: whatever frame a session gets, each response in its answer is that of a ping,
  identify, discovery, join, leave or whoami request or of an unknown one, and its fields are exactly those of
  its kind: the exit code of a ping (success) or of an unknown opcode (not implemented), 16 bytes of node id,
  the count of sessions in 8 bytes, two ids and a transport, and, for discovery, the count of nodes, their ports
  and host lengths, and their hosts, each where the layout puts it, with nothing left over.
\<close>

theorem answers_well_shaped:
  assumes "node_ok e w" and "a < w_next w" and "session_kernel_handle e f a w = Inr (Some out, w')"
  shows "out = [] \<or> (\<exists>rs. out = frame_bytes (crc_ccitt e) (get_type a w = tcp) rs \<and> list_all well_shaped rs)"
proof (cases rule: session_kernel_handle_split [of e f a w])
  case dropped
  then show ?thesis using assms(3) by simp
next
  case (parsed frame ls offset)
  obtain r v where r: "handle_requests (get_handlers e) frame ls offset as_response a w = Inr (r, v)" "evolves w v"
    using table.handle_requests_total [OF assms(1,2) parsed(1,2), of ls as_response] by blast
  then obtain b where b: "r = Some b" "get_data (crc_ccitt e) b (get_type a v = tcp) = Inr out"
    using parsed(4) assms(3) by (auto simp: chain_def split: option.splits sum.splits)
  have "list_all well_shaped (buffers b)"
    using shaped_table.handle_requests_shaped [OF assms(1,2) _ r(1) [unfolded b(1)]] by simp
  moreover have "get_type a v = get_type a w"
    using r(2) assms(2) by (simp add: evolves_def same_core_def get_type_def)
  ultimately show ?thesis
    using b(2) by (cases rule: get_data_cases [of b "crc_ccitt e" "get_type a v = tcp"])
      (auto simp: get_data_frame_bytes)
qed

theorem answers_well_shaped_witness:
  "\<exists>f out. get_data crc_16_ccitt (ping_all [1, 2]) False = Inr f \<and>
     session_kernel_handle demo_env (Some f) 0 demo_world = Inr (Some out, demo_world) \<and>
     (out = [] \<or> (\<exists>rs. out = frame_bytes crc_16_ccitt True rs \<and> list_all well_shaped rs))"
proof -
  have "buffers (ping_all [1, 2]) \<noteq> []" "frame_fits (buffers (ping_all [1, 2]))"
    by (simp_all add: buffers_ping_all frame_fits_def max_requests_per_frame_def max_frame_payload_size_def)
  then obtain f where f: "get_data (crc_ccitt demo_env) (ping_all [1, 2]) False = Inr f"
    using get_data_frame_bytes by blast
  obtain out where out: "session_kernel_handle demo_env (Some f) 0 demo_world = Inr (Some out, demo_world)"
    using kernel_answers_pings [OF _ f, of 0 demo_world] by auto
  have "get_type 0 demo_world = tcp" by (simp add: get_type_def)
  then show ?thesis
    using answers_well_shaped [OF demo_node_ok _ out] f out by auto
qed

end
