(* ===== verification/Spec2Isabelle.thy ===== *)
theory Spec2Isabelle
  imports Node_Properties Client_Exchange Connection_Pool Node_Faults Presence Peer_Link Delivery Listening
    Lock_Equivalence Lock_Termination Cluster_Formation Answer_Shapes
begin

text \<open>
  Verification of Aurum, a node of a message cluster written in C++20 on Boost.Asio and Boost.Beast.

  A node listens for TCP connections of other nodes and of clients, and for WebSocket connections of
  clients.  Peers exchange \<^emph>\<open>frames\<close>: a checksummed list of \<^emph>\<open>messages\<close>, each with an opcode, a type
  (request or response), a transaction id and a payload.  A session reads a frame, its kernel parses it
  and dispatches every message to the handler of its opcode, the handlers change the shared state and
  queue responses, and the session sends these back as one frame.  Sessions hold each other through the
  shared \<^verbatim>\<open>state\<close>, a multi-index container of sessions by id, node id and type, over which nodes are
  dialled, broadcast to and disconnected.

  \<^bold>\<open>Theories\<close> (each imports the ones it builds on; file names are under \<^verbatim>\<open>src/aurum\<close> and
  \<^verbatim>\<open>include/aurum\<close>):

    \<^item> \<open>Aurum_Prelude\<close>: bytes, UUIDs, faults, checked reads, the little-endian integers, and the interface
      \<open>wire_codec\<close> of a fixed-width field, interpreted for 16, 32, 64 and 128 bits.
    \<^item> \<open>Frame_Builder\<close>: the protocol enumerations and \<^verbatim>\<open>protocol/frame_builder\<close>: one definition per
      \<^verbatim>\<open>add_*\<close> function, and \<open>get_data\<close> with its two exceptions.
    \<^item> \<open>Node_World\<close>: session objects in a heap (\<open>session\<close>), \<open>configuration\<close>, the state of a node
      (\<open>world\<close>), and the environment \<open>env\<close>: what Boost decides.
    \<^item> \<open>Session_Registry\<close>: the interface \<open>registry\<close> of the session container and its interpretation.
    \<^item> \<open>Node_State\<close>: \<^verbatim>\<open>state.cpp\<close>: registration, removal, disconnection, connection, broadcast, round robin.
    \<^item> \<open>Evolution\<close>: the invariant \<open>node_ok\<close> and the relation \<open>evolves\<close> every operation keeps, and what an
      operation posts for one session (\<open>sends_to\<close>).
    \<^item> \<open>Concurrent_State\<close>: registration, removal and disconnection in \<^verbatim>\<open>state.cpp\<close> as several threads run
      them, each block under the mutex of the container one step (\<open>thread_step\<close>); a thread alone does what the
      definitions of \<open>Node_State\<close> say.
    \<^item> \<open>Handlers\<close>: \<^verbatim>\<open>handlers/*.hpp\<close> and the dispatch table; the interface \<open>handler_table\<close> the parser
      relies on, interpreted on the table of the program.
    \<^item> \<open>Handler_Properties\<close>: what each handler does, and what a peer reads of an answer.
    \<^item> \<open>Session_Kernel\<close>, \<open>Kernel_Properties\<close>: \<^verbatim>\<open>session_kernel.cpp\<close>: the parser with its cursor, and
      \<open>process\<close>, the specification that runs handlers over a list of messages; \<open>Answer_Shapes\<close>: the opcode and
      the fields of every response, by an extension of \<open>handler_table\<close>.
    \<^item> \<open>Fifo_Writer\<close>: the interface \<open>fifo_writer\<close> of a write queue; \<open>Session_Io\<close>: outstanding operations;
      \<open>Tcp_Session\<close>, \<open>Websocket_Session\<close>: the tasks and completion handlers of both session classes, both
      of which interpret the interface.
    \<^item> \<open>Node_Runtime\<close>: the listeners, the entry points of \<^verbatim>\<open>node.cpp\<close>, and the step relation \<open>node_attempt\<close> of
      posted tasks, completions and calls, with its reachable states; \<open>Runtime_Invariant\<close>: the invariant
      \<open>runtime_ok\<close> of all of them.
    \<^item> \<open>Runtime_Termination\<close>: the steps a node takes by itself (\<open>internal_step\<close>) and the measure that shows that
      they end; \<open>Delivery\<close>: what it has written by then (\<open>delivery\<close>), when no write fails; \<open>Listening\<close>: the accept
      loops.
    \<^item> \<open>Node_Process\<close>: \<^verbatim>\<open>node\<close> around that: construction, \<^verbatim>\<open>run\<close> with its threads and signals, \<^verbatim>\<open>stop\<close>, \<^verbatim>\<open>main\<close>;
      \<open>Node_Faults\<close>: options that do not parse, ports that cannot be bound (\<open>try_main\<close>), and exceptions that
      leave a worker thread (\<open>process_dies\<close>).
    \<^item> \<open>Cluster_Directory\<close>: the abstract directory of sessions, by id, with transport and node, and what each
      operation makes of it; \<open>Directory_Refinement\<close>: a reference parser for the messages of a frame
      (\<open>frame_messages\<close>), the node as a transition system on directories alone (\<open>directory_spec\<close>), and the proof
      that every attempt of a node is one of its transitions.
    \<^item> \<open>Stream_Framing\<close>, \<open>Runtime_Actions\<close>: what is posted for a TCP session is a frame (\<open>framed\<close>), by another
      interpretation of \<open>handler_table\<close>; the steps of \<open>node_attempt\<close> with labels (\<open>node_action\<close>) and what one of
      them does to the messages a session has still to write (\<open>pipeline\<close>) and to its read loop (\<open>reading\<close>).
    \<^item> \<open>Write_Failure\<close>: a session whose write failed writes nothing more; \<open>Peer_Link\<close>: two nodes and the bytes
      between them, step by step, failed writes included, and the alignment of writer and reader.
    \<^item> \<open>Presence\<close>: the handshakes and removals of WebSocket clients at one node and the directory of a peer
      that reads the joins and leaves the node broadcasts.
    \<^item> \<open>Connection_Pool\<close>: the identify exchange that gives two nodes the announced number of connections;
      \<open>Cluster_Formation\<close>: a node that learns of a third one from the one it dials, and dials it.
    \<^item> \<open>Clients\<close>: \<^verbatim>\<open>tcp_client.cpp\<close>, framing and the read loop over a byte stream; \<open>Websocket_Client\<close>:
      \<^verbatim>\<open>websocket_client.cpp\<close>; \<open>Client_Exchange\<close>: clients and nodes, and nodes and nodes, end to end.
    \<^item> \<open>Node_Properties\<close>: accepting, failures, handshakes.
    \<^item> This theory: two nodes that identify each other.

  \<^bold>\<open>Correspondence.\<close>  Shared objects are addresses in \<open>w_heap\<close>, so a handler that changes a session changes
  the one the container holds.  A member function is a definition of the same name over \<open>world\<close>; a
  closure given to \<^verbatim>\<open>post\<close> is a \<open>task\<close> in \<open>w_posted\<close>, an asynchronous operation an \<open>io_op\<close> in \<open>w_pending\<close>, its
  completion handler a definition that takes the error flag and the bytes.  Exceptions and undefined
  behaviour are the left side of \<open>fault + 'a\<close>: every \<^verbatim>\<open>memcpy\<close> is a checked read.  Word types keep the
  widths of the code; a cast that truncates is \<open>of_nat\<close> into the narrower word.

  \<^bold>\<open>Parameters and hypotheses.\<close>  \<open>env\<close> holds the checksum function (any function), the UUIDs drawn (any;
  freshness is a hypothesis only where a statement needs it), the container's iteration order and range
  lookups (\<open>container_law\<close>, \<open>index_law\<close>: what Boost.MultiIndex documents; of the range lookups, what they find
  only while no key changed behind its back, \<open>keys_fresh\<close>, which is no longer so once a registered TCP session
  is identified), and the outcome of resolving and connecting.  \<open>demo_env\<close> and the states reached from its start
  show that they can hold.

  \<^bold>\<open>Bounds and termination.\<close>  No definition uses fuel.  All loops are structural except the erase loop of the
  leave handler, which ends because each round takes an element out of the container, and the read loop over
  a stream, which ends because each frame takes at least four bytes.  What a running node does between two
  inputs ends because a pair of numbers falls lexicographically: the sessions registered or still to be
  dialled, and the work posted, queued and outstanding; calls under the mutex end because three numbers fall
  lexicographically: the snapshots still to be taken, the sessions registered or still to be inserted, and the
  weight of what is left of the programs.  A frame holds at most 65535 messages; messages are
  parsed back exactly below 65536 bytes.

  \<^bold>\<open>What the properties show.\<close>  The parser inverts the builder and is safe on any bytes; responses are never
  answered, and each has the fields of its kind; each handler does what its message says, with the places where
  it does not made explicit (discovery of several nodes, keys changed inside the container, truncated lengths,
  leaves without joins and after them, dialled peers not recognised, answers over 4 GiB); the state operations
  update the registry exactly; messages of a session leave in order with one write outstanding; and a running
  node keeps all this in every reachable state.  Whatever it does, its container changes as the transition
  system of directories says: an accepted, dialled or announced session enters under a free id, an identify
  message sets the node of the session it came over, a leave, a failed operation or a disconnection takes out
  exactly the ids it is about, and nothing else changes anything.  Left to itself and with its writes
  succeeding, a node writes everything it has queued or posted, each message once and in order; it never stops
  listening; and of the exceptions the code throws only the overflow of an answer to discovery requests can end
  it.  Threads that register and remove sessions at the same time lose none and disconnect none twice; down to
  the single accesses, the mutex of the container keeps every iterator valid, cannot deadlock, and lets all
  calls end.  End to end, clients get the answers to their requests over both transports; over a whole run of
  two connected nodes what one writes the other parses, in order and without losing step, even when writes
  fail part of the way; a peer replicates which WebSocket clients are connected; two nodes end up with the
  number of connections they agreed on; and a newcomer that dials one node gets to know another through it.

  \<^bold>\<open>Not modelled.\<close>  The bytes of the TCP and WebSocket transports below the asynchronous operations (\<open>Peer_Link\<close>
  has those of one connection); name resolution; object lifetime and logging; allocation failure, among it the \<^verbatim>\<open>std::bad_alloc\<close> of a body
  buffer as long as the 4-byte header says, which would end the process too.  That a stopped \<^verbatim>\<open>io_context\<close> runs
  nothing and lets its threads return is taken from Boost.Asio.
  Interleavings finer than a handler: in \<open>node_attempt\<close> an operation runs to its end before the next one
  starts; \<open>Concurrent_State\<close> splits registration, removal and disconnection at their locked blocks, and
  \<open>Lock_Discipline\<close> all locked blocks at their accesses, but there the members of a session that its own
  handlers write and other sessions' handlers read without a common lock stay as they are while it is in the
  container, and what a call returns is not kept.  Accessors that hand out the \<^verbatim>\<open>io_context\<close>, a socket, a mutex or a shared pointer have no
  counterpart, and \<^verbatim>\<open>reserve\<close> only allocates.
\<close>

section \<open>Two nodes\<close>

text \<open>The peer that receives the identify request of a dialling node.\<close>

lemma identified_by_frame:
  assumes "get_type b wb = tcp"
  shows "\<exists>wb'. session_kernel_handle e (Some (frame_bytes (crc_ccitt e) False [identify_payload wa cpn tx])) b wb =
      Inr (Some (frame_bytes (crc_ccitt e) True [message_header 2 response tx @ put_uuid (w_node_id wb)]), wb') \<and>
    w_heap wb' = (w_heap wb)(b := (w_heap wb b)\<lparr>s_node_id := w_node_id wa,
      s_port := tcp_port (w_config wa), s_host := ''127.0.0.1''\<rparr>) \<and>
    w_posted wb' = w_posted wb @ (if tcp_port (w_config wa) = 0 then []
      else replicate (unat cpn - 1) (Run_connect ''127.0.0.1'' (tcp_port (w_config wa))))"
proof -
  let ?rest = "put_uuid (w_node_id wa) @ put16 cpn @ put16 (tcp_port (w_config wa)) @ string_bytes ''127.0.0.1''"
  have fields: "get_uuid (take 16 ?rest) = w_node_id wa" "identify_cpn ?rest = cpn"
    "identify_port ?rest = tcp_port (w_config wa)" "identify_host ?rest = ''127.0.0.1''"
    by (simp_all add: identify_cpn_def identify_port_def identify_host_def)
  obtain wb' where h: "identify_handler request as_response tx ?rest b wb =
      Inr (response_add_identify tx (w_node_id wb) as_response, wb')"
    "w_heap wb' = (w_heap wb)(b := (w_heap wb b)\<lparr>s_node_id := w_node_id wa,
      s_port := tcp_port (w_config wa), s_host := ''127.0.0.1''\<rparr>)"
    "w_posted wb' = w_posted wb @ (if tcp_port (w_config wa) = 0 then []
      else replicate (unat cpn - 1) (Run_connect ''127.0.0.1'' (tcp_port (w_config wa))))"
    using identify_request_effect [OF assms, of ?rest as_response tx] by (auto simp: fields)
  have "process (get_handlers e) [identify_payload wa cpn tx] as_response b wb =
      Inr (Some (response_add_identify tx (w_node_id wb) as_response), wb')"
    unfolding identify_payload_built process_one by (simp add: get_handlers_def h(1))
  moreover have "get_type b wb' = tcp"
    using assms by (simp add: get_type_def h(2))
  moreover have "get_data crc (response_add_identify tx (w_node_id wb) as_response) True =
      Inr (frame_bytes crc True [message_header 2 response tx @ put_uuid (w_node_id wb)])" for crc
    by (subst get_data_frame_bytes) (simp_all add: response_add_identify_def frame_fits_small)
  ultimately show ?thesis
    using kernel_handle_frame [of "[identify_payload wa cpn tx]" e b wb] h(2,3)
    by (simp add: kernel_spec_def short_def)
qed

text \<open>The dialling node that receives the identify response.\<close>

lemma identified_by_response:
  assumes "get_type a w = tcp"
  shows "\<exists>w'. session_kernel_handle e
      (Some (frame_bytes (crc_ccitt e) False [message_header 2 response tx @ put_uuid n])) a w = Inr (Some [], w') \<and>
    w_heap w' = (w_heap w)(a := (w_heap w a)\<lparr>s_node_id := n\<rparr>)"
proof -
  have "process (get_handlers e) [message_header 2 response tx @ put_uuid n] as_response a w =
      Inr (Some as_response, set_node_id a n w)"
    unfolding process_one using assms by (simp add: get_handlers_def identify_handler_eq identified_def)
  then show ?thesis
    using kernel_handle_frame [of "[message_header 2 response tx @ put_uuid n]" e a w]
    by (simp add: kernel_spec_def short_def get_data_empty set_node_id_def update_session_def)
qed

text \<open>
  C1. Two nodes meet: when one node dials another, the frame it posts makes the peer's session for it take
  on its node id, its TCP port and the host 127.0.0.1 (which is what every node announces as its own),
  and makes the peer post the further connections asked for; the peer's answer makes the dialling node's
  session take on the peer's node id, and is itself answered with the empty frame.
\<close>

theorem nodes_identify_each_other:
  assumes "node_ok e wa" and "resolve_ok e (w_dials wa) host port" and "dial_ok e (w_dials wa) host port"
    and "find_by_id wa (random_uuid e (w_rng wa)) = None" and "a = w_next wa"
    and "get_type b wb = tcp" and "crc_ccitt e' = crc_ccitt e"
  shows "\<exists>wa1 frame. state_connect e host port False cpn wa = Inr (True, wa1) \<and>
    w_posted wa1 = w_posted wa @ [Run_on_send a frame, Run_read_header a] \<and>
    (\<exists>wb1 answer. session_kernel_handle e' (Some (drop 4 frame)) b wb = Inr (Some answer, wb1) \<and>
      get_node_id b wb1 = w_node_id wa \<and> get_port b wb1 = tcp_port (w_config wa) \<and>
      get_host b wb1 = ''127.0.0.1'' \<and>
      w_posted wb1 = w_posted wb @ (if tcp_port (w_config wa) = 0 then []
        else replicate (unat cpn - 1) (Run_connect ''127.0.0.1'' (tcp_port (w_config wa)))) \<and>
      (\<exists>wa2. session_kernel_handle e (Some (drop 4 answer)) a wa1 = Inr (Some [], wa2) \<and>
        get_node_id a wa2 = w_node_id wb))"
proof -
  have ok: "container_law e" "container_wf wa" "set (w_sessions wa) \<subseteq> {..<w_next wa}"
    using assms(1) by (simp_all add: node_ok_def)
  let ?m = "identify_payload wa cpn (random_uuid e (Suc (w_rng wa)))"
  let ?frame = "frame_bytes (crc_ccitt e) True [?m]"
  have "s_id (dialled_session e wa) = random_uuid e (w_rng wa)"
    by (simp add: dialled_session_def)
  with state_connect_effect [OF ok(1,2) refl refl ok(3), of host port False cpn] assms(2-5)
  obtain wa1 where wa1: "state_connect e host port False cpn wa = Inr (True, wa1)"
    "w_heap wa1 = (w_heap wa)(a := dialled_session e wa)"
    "w_posted wa1 = w_posted wa @ [Run_on_send a ?frame, Run_read_header a]"
    by (auto simp: first_payloads_def)
  let ?r = "message_header 2 response (random_uuid e (Suc (w_rng wa))) @ put_uuid (w_node_id wb)"
  obtain wb1 where wb1: "session_kernel_handle e' (Some (drop 4 ?frame)) b wb =
      Inr (Some (frame_bytes (crc_ccitt e) True [?r]), wb1)"
    "w_heap wb1 = (w_heap wb)(b := (w_heap wb b)\<lparr>s_node_id := w_node_id wa,
      s_port := tcp_port (w_config wa), s_host := ''127.0.0.1''\<rparr>)"
    "w_posted wb1 = w_posted wb @ (if tcp_port (w_config wa) = 0 then []
      else replicate (unat cpn - 1) (Run_connect ''127.0.0.1'' (tcp_port (w_config wa))))"
    using identified_by_frame [OF assms(6), of e' wa cpn "random_uuid e (Suc (w_rng wa))"]
    by (auto simp: drop_header assms(7))
  have "get_type a wa1 = tcp"
    by (simp add: get_type_def wa1(2) dialled_session_def)
  then obtain wa2 where wa2: "session_kernel_handle e (Some (drop 4 (frame_bytes (crc_ccitt e) True [?r]))) a wa1 =
      Inr (Some [], wa2)" "w_heap wa2 = (w_heap wa1)(a := (w_heap wa1 a)\<lparr>s_node_id := w_node_id wb\<rparr>)"
    using identified_by_response [of a wa1 e] by (auto simp: drop_header)
  show ?thesis
    using wa1(1,3) wb1(1,3) wa2(1)
    by (intro exI [of _ wa1] exI [of _ ?frame] exI [of _ wb1] exI [of _ wa2]
        exI [of _ "frame_bytes (crc_ccitt e) True [?r]"] conjI)
      (simp_all add: wb1(2) wa2(2) get_node_id_def get_port_def get_host_def)
qed

theorem nodes_identify_each_other_witness:
  "\<exists>wa1 frame wb1 answer wa2. state_connect demo_env ''peer'' 7000 False 2 demo_world = Inr (True, wa1) \<and>
     session_kernel_handle demo_env (Some (drop 4 frame)) 1 (demo_world\<lparr>w_node_id := 100\<rparr>) = Inr (Some answer, wb1) \<and>
     get_node_id 1 wb1 = 1 \<and>
     session_kernel_handle demo_env (Some (drop 4 answer)) 3 wa1 = Inr (Some [], wa2) \<and>
     get_node_id 3 wa2 = 100"
proof -
  have free: "find_by_id demo_world (random_uuid demo_env (w_rng demo_world)) = None"
    by (simp add: find_by_id_def)
  have t: "get_type 1 (demo_world\<lparr>w_node_id := 100\<rparr>) = tcp"
    by (simp add: get_type_def)
  from nodes_identify_each_other [OF demo_node_ok _ _ free refl t refl, of "''peer''" 7000 2]
  show ?thesis by (simp, blast)
qed

end
